(* ===== verification/Prelude.thy ===== *)
theory Prelude
  imports Main "HOL-Library.Word" "HOL-Library.AList"
begin

text \<open>
  Shared vocabulary of the development: the names for the machine types of the Go code, the error
  values its functions return, Go strings as byte sequences, and generic lemmas on lists and
  association lists that several components use.
\<close>

unbundle bit_operations_syntax

named_theorems kv_defs \<open>definitions the component proofs unfold together\<close>

section \<open>Types\<close>

type_synonym byte = "8 word"
type_synonym u32 = "32 word"
type_synonym u64 = "64 word"

text \<open>
  A Go \<open>int64\<close> is an \<open>int\<close> here; \<open>is_int64\<close> says that the number fits. The conversions to and from
  the 64-bit pattern are \<open>word_of_int\<close> and \<open>sint\<close>.
\<close>

definition is_int64 :: "int \<Rightarrow> bool" where
  "is_int64 i \<longleftrightarrow> - (2 ^ 63) \<le> i \<and> i < 2 ^ 63"

text \<open>
  The errors the code returns. \<open>EOF\<close> and \<open>UnexpectedEOF\<close> are those of Go's package \<open>io\<close>;
  \<open>OSError\<close> stands for any error of a system call.
\<close>

datatype error =
    EOF
  | UnexpectedEOF
  | ErrKeyNotFound
  | ErrReadOnly
  | ErrWriterLocked
  | ErrCorruptData
  | ErrClosed
  | ReservedValue
  | NoActiveFile
  | LayoutError string
  | OSError

type_synonym 'a result = "error + 'a"

section \<open>Go strings\<close>

text \<open>A Go string is a sequence of bytes; \<open>char\<close> is the type of bytes used for text.\<close>

definition byte_of_char :: "char \<Rightarrow> byte" where
  "byte_of_char c = word_of_nat (of_char c)"

definition char_of_byte :: "byte \<Rightarrow> char" where
  "char_of_byte b = char_of (unat b)"

definition bytes_of :: "string \<Rightarrow> byte list" where
  "bytes_of s = map byte_of_char s"

definition string_of :: "byte list \<Rightarrow> string" where
  "string_of bs = map char_of_byte bs"

lemma length_bytes_of [simp]: "length (bytes_of s) = length s"
  by (simp add: bytes_of_def)

lemma bytes_of_eq_Nil [simp]: "bytes_of s = [] \<longleftrightarrow> s = []"
  by (simp add: bytes_of_def)

lemma length_string_of [simp]: "length (string_of bs) = length bs"
  by (simp add: string_of_def)

lemma char_of_byte_of_char [simp]: "char_of_byte (byte_of_char c) = c"
proof -
  have "(of_char c :: nat) < 256"
    by simp
  then show ?thesis
    by (simp add: char_of_byte_def byte_of_char_def unat_of_nat)
qed

lemma byte_of_char_of_byte [simp]: "byte_of_char (char_of_byte b) = b"
proof -
  have "unat b < 256"
    using unsigned_less [of b, where ?'a = nat] by simp
  then show ?thesis
    by (simp add: char_of_byte_def byte_of_char_def of_char_of)
qed

lemma string_of_bytes_of [simp]: "string_of (bytes_of s) = s"
  by (simp add: string_of_def bytes_of_def comp_def)

lemma bytes_of_string_of [simp]: "bytes_of (string_of bs) = bs"
  by (simp add: string_of_def bytes_of_def comp_def)

lemma bytes_of_eq_iff [simp]: "bytes_of s = bytes_of t \<longleftrightarrow> s = t"
  by (metis string_of_bytes_of)

end
