(* ===== verification/Bytes.thy ===== *)
theory Bytes
  imports Prelude
begin

text \<open>
  The parts of Go's standard library the storage engine's codec uses: little-endian integers
  (\<open>encoding/binary\<close>), \<open>io.ReadFull\<close> on a reader, and the IEEE CRC-32 (\<open>hash/crc32\<close>). A reader is
  the list of the bytes it has still to deliver.
\<close>

section \<open>Little-endian integers\<close>

fun le_bytes :: "nat \<Rightarrow> 'a::len word \<Rightarrow> byte list" where
  "le_bytes 0 w = []"
| "le_bytes (Suc n) w = ucast w # le_bytes n (drop_bit 8 w)"

fun le_word :: "byte list \<Rightarrow> 'a::len word" where
  "le_word [] = 0"
| "le_word (b # bs) = ucast b OR push_bit 8 (le_word bs)"

lemma length_le_bytes [simp]: "length (le_bytes n w) = n"
  by (induction n arbitrary: w) auto

lemma bit_le_word_le_bytes:
  "bit (le_word (le_bytes n (w :: 'a::len word)) :: 'a word) i \<longleftrightarrow> i < 8 * n \<and> bit w i"
proof (induction n arbitrary: w i)
  case 0
  then show ?case by simp
next
  case (Suc n)
  show ?case
    by (auto simp: bit_simps Suc.IH not_less dest: bit_imp_le_length)
qed

lemma le_word_le_bytes [simp]:
  assumes "LENGTH('a) \<le> 8 * n"
  shows "le_word (le_bytes n (w :: 'a::len word)) = w"
  by (rule bit_word_eqI) (use assms in \<open>auto simp: bit_le_word_le_bytes\<close>)

lemma ucast_or_push_bit:
  assumes "8 \<le> LENGTH('a)"
  shows "(ucast (ucast b OR push_bit 8 w :: 'a::len word) :: byte) = b"
  by (rule bit_word_eqI) (use assms in \<open>auto simp: bit_simps\<close>)

lemma drop_bit_or_push_bit:
  assumes "drop_bit (LENGTH('a) - 8) w = 0" "8 \<le> LENGTH('a)"
  shows "drop_bit 8 (ucast (b :: byte) OR push_bit 8 w :: 'a::len word) = w"
proof (rule bit_word_eqI)
  fix i assume i: "i < LENGTH('a)"
  have "\<not> bit w i" if "LENGTH('a) \<le> 8 + i"
  proof -
    from that obtain k where "i = (LENGTH('a) - 8) + k" using le_Suc_ex by (metis le_diff_conv add.commute)
    moreover have "\<not> bit (drop_bit (LENGTH('a) - 8) w) k" by (simp add: assms(1))
    ultimately show ?thesis by (simp add: bit_simps)
  qed
  then show "bit (drop_bit 8 (ucast b OR push_bit 8 w :: 'a word)) i \<longleftrightarrow> bit w i"
    using i by (auto simp: bit_simps dest: bit_imp_le_length)
qed

lemma not_bit_le_word: "8 * length bs \<le> i \<Longrightarrow> \<not> bit (le_word bs :: 'a::len word) i"
proof (induction bs arbitrary: i)
  case Nil
  then show ?case by simp
next
  case (Cons b bs)
  then have "\<not> bit (le_word bs :: 'a word) (i - 8)" by simp
  with Cons.prems show ?case by (auto simp: bit_simps dest: bit_imp_le_length)
qed

lemma le_bytes_le_word [simp]:
  assumes "8 * length bs \<le> LENGTH('a)"
  shows "le_bytes (length bs) (le_word bs :: 'a::len word) = bs"
  using assms
proof (induction bs)
  case Nil
  then show ?case by simp
next
  case (Cons b bs)
  have "drop_bit (LENGTH('a) - 8) (le_word bs :: 'a word) = 0"
    by (rule bit_word_eqI) (use Cons.prems in \<open>auto simp: bit_simps intro!: not_bit_le_word\<close>)
  with Cons.prems have d: "drop_bit 8 (ucast b OR push_bit 8 (le_word bs) :: 'a word) = le_word bs"
    by (intro drop_bit_or_push_bit) auto
  show ?case
    using Cons by (simp only: le_word.simps le_bytes.simps length_Cons d) (simp add: ucast_or_push_bit)
qed

section \<open>Readers\<close>

text \<open>
  \<open>io.ReadFull\<close>: the wanted bytes and what is left, or \<open>EOF\<close> when the reader had nothing and
  \<open>UnexpectedEOF\<close> when it had too little. Reading no bytes always succeeds.
\<close>

definition ReadFull :: "nat \<Rightarrow> byte list \<Rightarrow> (byte list \<times> byte list) result" where
  "ReadFull n r =
     (if n \<le> length r then Inr (take n r, drop n r)
      else if r = [] then Inl EOF else Inl UnexpectedEOF)"

lemma ReadFull_append [simp]: "length bs = n \<Longrightarrow> ReadFull n (bs @ r) = Inr (bs, r)"
  by (simp add: ReadFull_def)

lemma ReadFull_InrD:
  "ReadFull n r = Inr (bs, r') \<Longrightarrow> r = bs @ r' \<and> length bs = n"
  by (auto simp: ReadFull_def split: if_splits)

lemma ReadFull_length: "ReadFull n r = Inr (bs, r') \<Longrightarrow> length r = n + length r'"
  by (drule ReadFull_InrD) auto

lemma ReadFull_short: "length r < n \<Longrightarrow> ReadFull n r = Inl (if r = [] then EOF else UnexpectedEOF)"
  by (simp add: ReadFull_def)

section \<open>CRC-32\<close>

text \<open>
  \<open>crc32.ChecksumIEEE\<close>: the reflected polynomial \<open>0xEDB88320\<close>, initial value and final
  complement all ones.
\<close>

definition crc_bit :: "u32 \<Rightarrow> u32" where
  "crc_bit c = (if bit c 0 then drop_bit 1 c XOR 0xEDB88320 else drop_bit 1 c)"

definition crc_byte :: "byte \<Rightarrow> u32 \<Rightarrow> u32" where
  "crc_byte b c = (crc_bit ^^ 8) (c XOR ucast b)"

definition ChecksumIEEE :: "byte list \<Rightarrow> u32" where
  "ChecksumIEEE bs = NOT (fold crc_byte bs 0xFFFFFFFF)"

text \<open>
  One step of the register is a bijection (the top bit of the polynomial is set), so a change in one
  byte is never lost by the bytes after it.
\<close>

lemma bit_31_crc_bit: "bit (crc_bit c) 31 \<longleftrightarrow> bit c 0"
proof -
  have "bit (0xEDB88320 :: u32) 31" by (simp add: bit_numeral_rec)
  then show ?thesis
    by (auto simp: crc_bit_def bit_simps dest: bit_imp_le_length)
qed

lemma xor_right_cancel: "(a :: 'a::len word) XOR c = b XOR c \<longleftrightarrow> a = b"
  by (metis bit.xor_self xor.assoc xor.right_neutral)

lemma crc_bit_inj: "inj crc_bit"
proof (rule injI)
  fix c d :: u32
  assume eq: "crc_bit c = crc_bit d"
  then have b0: "bit c 0 \<longleftrightarrow> bit d 0"
    by (metis bit_31_crc_bit)
  with eq have dr: "drop_bit 1 c = drop_bit 1 d"
    by (auto simp: crc_bit_def xor_right_cancel split: if_splits)
  show "c = d"
  proof (rule bit_word_eqI)
    fix i assume "i < LENGTH(32)"
    show "bit c i \<longleftrightarrow> bit d i"
    proof (cases i)
      case 0
      then show ?thesis using b0 by simp
    next
      case (Suc j)
      have "bit (drop_bit 1 c) j \<longleftrightarrow> bit (drop_bit 1 d) j" using dr by simp
      then show ?thesis using Suc by (simp add: bit_simps)
    qed
  qed
qed

lemma crc_byte_cancel: "crc_byte b c = crc_byte b' d \<longleftrightarrow> c XOR ucast b = d XOR ucast b'"
proof -
  have "inj (crc_bit ^^ 8)" by (rule inj_fn) (rule crc_bit_inj)
  then show ?thesis unfolding crc_byte_def by (rule inj_eq)
qed

lemma crc_byte_eq_iff: "crc_byte b c = crc_byte b d \<longleftrightarrow> c = d"
  unfolding crc_byte_cancel by (rule xor_right_cancel)

lemma ucast_down_ucast_id_byte: "(ucast (ucast (b :: byte) :: u32) :: byte) = b"
  by (rule bit_word_eqI) (simp add: bit_simps)

lemma crc_byte_fun_eq_iff: "crc_byte b c = crc_byte b' c \<longleftrightarrow> b = b'"
proof -
  have "crc_byte b c = crc_byte b' c \<longleftrightarrow> ucast b XOR c = (ucast b' XOR c :: u32)"
    unfolding crc_byte_cancel by (simp only: xor.commute)
  also have "\<dots> \<longleftrightarrow> (ucast b :: u32) = ucast b'" by (rule xor_right_cancel)
  also have "\<dots> \<longleftrightarrow> b = b'"
    by (metis ucast_down_ucast_id_byte)
  finally show ?thesis .
qed

lemma fold_crc_byte_eq_iff: "fold crc_byte bs c = fold crc_byte bs d \<longleftrightarrow> c = d"
  by (induction bs arbitrary: c d) (auto simp: crc_byte_eq_iff)

lemma ChecksumIEEE_one_byte:
  assumes "b \<noteq> b'"
  shows "ChecksumIEEE (xs @ b # ys) \<noteq> ChecksumIEEE (xs @ b' # ys)"
  using assms by (simp add: ChecksumIEEE_def fold_crc_byte_eq_iff crc_byte_fun_eq_iff)

text \<open>Evaluation of the checksum on closed byte lists, and the published check value.\<close>

lemma crc_bit_pow8:
  "(crc_bit ^^ 8) c = crc_bit (crc_bit (crc_bit (crc_bit (crc_bit (crc_bit (crc_bit (crc_bit c)))))))"
  by (simp add: numeral_eq_Suc)

lemmas crc_eval = ChecksumIEEE_def crc_byte_def crc_bit_pow8 crc_bit_def

lemma ChecksumIEEE_check_value: "ChecksumIEEE [49, 50, 51, 52, 53, 54, 55, 56, 57] = 0xCBF43926"
  by (simp add: crc_eval)

end
