(* ===== verification/Codec.thy ===== *)
theory Codec
  imports Bytes
begin

text \<open>
  The record formats of \<open>kvstore/codec.go\<close>: data records (checksum, timestamp, sizes, key, value) and
  hint records. Both decoders hand back the rest of the reader, so that a scan can go on.
\<close>

section \<open>Data\<close>

record decodedRecord =
  dr_timestamp :: int
  dr_key :: string
  dr_value :: "byte list"

record hintRecord =
  hr_timestamp :: int
  hr_key :: string
  hr_recordOff :: int
  hr_recordSize :: u32
  hr_tombstone :: bool

section \<open>Data records\<close>

definition decodeDataRecord :: "byte list \<Rightarrow> (decodedRecord \<times> nat \<times> byte list) result" where
  "decodeDataRecord r =
     (case ReadFull 4 r of
        Inl e \<Rightarrow> Inl e
      | Inr (crcBuf, r) \<Rightarrow>
     (case ReadFull 16 r of
        Inl e \<Rightarrow> Inl e
      | Inr (metaBuf, r) \<Rightarrow>
     (let storedCRC = (le_word crcBuf :: u32);
          timestamp = sint (le_word (take 8 metaBuf) :: u64);
          keySize = (le_word (take 4 (drop 8 metaBuf)) :: u32);
          valueSize = (le_word (take 4 (drop 12 metaBuf)) :: u32) in
      case ReadFull (unat keySize) r of
        Inl e \<Rightarrow> Inl e
      | Inr (key, r) \<Rightarrow>
     (case ReadFull (unat valueSize) r of
        Inl e \<Rightarrow> Inl e
      | Inr (value, r) \<Rightarrow>
      if ChecksumIEEE (metaBuf @ key @ value) \<noteq> storedCRC then Inl ErrCorruptData
      else Inr (\<lparr>dr_timestamp = timestamp, dr_key = string_of key, dr_value = value\<rparr>,
                4 + 16 + unat keySize + unat valueSize, r)))))"

definition encodeDataRecord :: "int \<Rightarrow> string \<Rightarrow> byte list \<Rightarrow> byte list" where
  "encodeDataRecord timestamp key value =
     (let keySize = (word_of_nat (length key) :: u32);
          valueSize = (word_of_nat (length value) :: u32);
          payload = le_bytes 8 (word_of_int timestamp :: u64) @ le_bytes 4 keySize
                    @ le_bytes 4 valueSize @ bytes_of key @ value
      in le_bytes 4 (ChecksumIEEE payload) @ payload)"

section \<open>Hint records\<close>

definition encodeHintRecord :: "hintRecord \<Rightarrow> byte list" where
  "encodeHintRecord hr =
     le_bytes 8 (word_of_int (hr_timestamp hr) :: u64)
     @ le_bytes 8 (word_of_int (hr_recordOff hr) :: u64)
     @ le_bytes 4 (hr_recordSize hr)
     @ [if hr_tombstone hr then 1 else 0]
     @ le_bytes 4 (word_of_nat (length (hr_key hr)) :: u32)
     @ bytes_of (hr_key hr)"

definition decodeHintRecord :: "byte list \<Rightarrow> (hintRecord \<times> nat \<times> byte list) result" where
  "decodeHintRecord r =
     (case ReadFull 8 r of Inl e \<Rightarrow> Inl e | Inr (ts, r) \<Rightarrow>
     (case ReadFull 8 r of Inl e \<Rightarrow> Inl e | Inr (off, r) \<Rightarrow>
     (case ReadFull 4 r of Inl e \<Rightarrow> Inl e | Inr (recSize, r) \<Rightarrow>
     (case ReadFull 1 r of Inl e \<Rightarrow> Inl e | Inr (tombstone, r) \<Rightarrow>
     (case ReadFull 4 r of Inl e \<Rightarrow> Inl e | Inr (ks, r) \<Rightarrow>
     (let keySize = (le_word ks :: u32) in
      case ReadFull (unat keySize) r of Inl e \<Rightarrow> Inl e | Inr (key, r) \<Rightarrow>
      Inr (\<lparr>hr_timestamp = sint (le_word ts :: u64), hr_key = string_of key,
            hr_recordOff = sint (le_word off :: u64), hr_recordSize = le_word recSize,
            hr_tombstone = (le_word tombstone = (1 :: byte))\<rparr>,
           8 + 8 + 4 + 1 + 4 + unat keySize, r)))))))"

section \<open>Encoding then decoding\<close>

lemma sint_word_of_int64: "is_int64 i \<Longrightarrow> sint (word_of_int i :: u64) = i"
  by (simp add: is_int64_def sint_sbintrunc' signed_take_bit_int_eq_self)

lemma length_encodeDataRecord [simp]:
  "length (encodeDataRecord ts k v) = 20 + length k + length v"
  by (simp add: encodeDataRecord_def Let_def)

lemma take_le_bytes_append [simp]: "take n (le_bytes n w @ xs) = le_bytes n w"
  by simp

text \<open>The header of a record: timestamp, key size and value size.\<close>

definition metaOf :: "int \<Rightarrow> nat \<Rightarrow> nat \<Rightarrow> byte list" where
  "metaOf ts kl vl = le_bytes 8 (word_of_int ts :: u64) @ le_bytes 4 (word_of_nat kl :: u32)
                     @ le_bytes 4 (word_of_nat vl :: u32)"

lemma length_metaOf [simp]: "length (metaOf ts kl vl) = 16"
  by (simp add: metaOf_def)

lemma metaOf_fields [simp]:
  "take 8 (metaOf ts kl vl) = le_bytes 8 (word_of_int ts :: u64)"
  "take 4 (drop 8 (metaOf ts kl vl)) = le_bytes 4 (word_of_nat kl :: u32)"
  "take 4 (drop 12 (metaOf ts kl vl)) = le_bytes 4 (word_of_nat vl :: u32)"
  by (simp_all add: metaOf_def)

lemma encodeDataRecord_metaOf:
  "encodeDataRecord ts k v =
     le_bytes 4 (ChecksumIEEE (metaOf ts (length k) (length v) @ bytes_of k @ v))
     @ metaOf ts (length k) (length v) @ bytes_of k @ v"
  by (simp add: encodeDataRecord_def metaOf_def Let_def)

text \<open>What the encoder is given: the timestamp and the two lengths fit their fields.\<close>

definition encodable :: "int \<Rightarrow> string \<Rightarrow> byte list \<Rightarrow> bool" where
  "encodable ts k v \<longleftrightarrow> is_int64 ts \<and> length k < 2 ^ 32 \<and> length v < 2 ^ 32"

lemma decodeDataRecord_fields:
  assumes "length crc = 4" "length meta = 16"
    and "length k = unat (le_word (take 4 (drop 8 meta)) :: u32)"
    and "length v = unat (le_word (take 4 (drop 12 meta)) :: u32)"
  shows "decodeDataRecord (crc @ meta @ k @ v @ rest) =
     (if ChecksumIEEE (meta @ k @ v) \<noteq> le_word crc then Inl ErrCorruptData
      else Inr (\<lparr>dr_timestamp = sint (le_word (take 8 meta) :: u64), dr_key = string_of k,
                 dr_value = v\<rparr>, 20 + length k + length v, rest))"
  using assms by (simp add: decodeDataRecord_def Let_def)

lemma decode_encodeDataRecord:
  assumes "encodable ts k v"
  shows "decodeDataRecord (encodeDataRecord ts k v @ rest)
           = Inr (\<lparr>dr_timestamp = ts, dr_key = k, dr_value = v\<rparr>, 20 + length k + length v, rest)"
  using assms
  by (simp add: decodeDataRecord_def encodeDataRecord_metaOf encodable_def Let_def
      sint_word_of_int64 unat_of_nat)

section \<open>Decoding then encoding\<close>

lemma sint_is_int64 [simp]: "is_int64 (sint (w :: u64))"
  using sint_greater_eq [of w] sint_less [of w] by (simp add: is_int64_def)

lemma split16: "length m = 16 \<Longrightarrow> m = take 8 m @ take 4 (drop 8 m) @ take 4 (drop 12 m)"
proof -
  assume "length m = 16"
  then have "take 4 (drop 12 m) = drop 12 m" by simp
  moreover have "drop 8 m = take 4 (drop 8 m) @ drop 12 m"
    using append_take_drop_id [of 4 "drop 8 m"] by simp
  ultimately show ?thesis using append_take_drop_id [of 8 m] by simp
qed

lemma le_bytes_le_word_n: "length bs = n \<Longrightarrow> 8 * n \<le> LENGTH('a) \<Longrightarrow> le_bytes n (le_word bs :: 'a::len word) = bs"
  using le_bytes_le_word by blast

lemma metaOf_decoded:
  assumes "length m = 16"
  shows "metaOf (sint (le_word (take 8 m) :: u64)) (unat (le_word (take 4 (drop 8 m)) :: u32))
           (unat (le_word (take 4 (drop 12 m)) :: u32)) = m"
  using split16 [OF assms] assms by (simp add: metaOf_def le_bytes_le_word_n)

text \<open>The decoder accepts only what the encoder writes, and reports its length.\<close>

lemma decodeDataRecord_InrD:
  assumes "decodeDataRecord r = Inr (rec, n, rest)"
  shows "r = encodeDataRecord (dr_timestamp rec) (dr_key rec) (dr_value rec) @ rest"
    and "n = 20 + length (dr_key rec) + length (dr_value rec)"
    and "encodable (dr_timestamp rec) (dr_key rec) (dr_value rec)"
proof -
  obtain c m k v r1 r2 r3 where
    c: "ReadFull 4 r = Inr (c, r1)" and m: "ReadFull 16 r1 = Inr (m, r2)"
    and k: "ReadFull (unat (le_word (take 4 (drop 8 m)) :: u32)) r2 = Inr (k, r3)"
    and v: "ReadFull (unat (le_word (take 4 (drop 12 m)) :: u32)) r3 = Inr (v, rest)"
    and crc: "ChecksumIEEE (m @ k @ v) = le_word c"
    and rec: "rec = \<lparr>dr_timestamp = sint (le_word (take 8 m) :: u64), dr_key = string_of k, dr_value = v\<rparr>"
    and n: "n = 4 + 16 + unat (le_word (take 4 (drop 8 m)) :: u32)
                + unat (le_word (take 4 (drop 12 m)) :: u32)"
    using assms unfolding decodeDataRecord_def Let_def
    by (auto split: sum.splits prod.splits if_splits)
  note rf = c [THEN ReadFull_InrD] m [THEN ReadFull_InrD] k [THEN ReadFull_InrD] v [THEN ReadFull_InrD]
  have r: "r = c @ m @ k @ v @ rest" using rf by simp
  have meta: "metaOf (dr_timestamp rec) (length k) (length v) = m"
    using metaOf_decoded [of m] rf rec by simp
  have "le_bytes 4 (le_word c :: u32) = c" using rf by (simp add: le_bytes_le_word_n)
  with r meta crc rec
  show "r = encodeDataRecord (dr_timestamp rec) (dr_key rec) (dr_value rec) @ rest"
    by (simp add: encodeDataRecord_metaOf)
  show "n = 20 + length (dr_key rec) + length (dr_value rec)" using n rec rf by simp
  have "unat (w :: u32) < 2 ^ 32" for w
    using unsigned_less [of w, where ?'a = nat] by simp
  with rf rec show "encodable (dr_timestamp rec) (dr_key rec) (dr_value rec)"
    by (auto simp: encodable_def)
qed

text \<open>Decoding makes progress, which is why every scan of a file ends.\<close>

lemma decodeDataRecord_progress:
  "decodeDataRecord r = Inr (rec, n, rest) \<Longrightarrow> length rest < length r"
  by (drule decodeDataRecord_InrD(1)) simp

lemma decodeDataRecord_Nil [simp]: "decodeDataRecord [] = Inl EOF"
  by (simp add: decodeDataRecord_def ReadFull_def)

section \<open>Torn records\<close>

text \<open>
  A writer that stops inside a record leaves a proper prefix of it. The decoder then reports
  \<open>UnexpectedEOF\<close>, except when the cut is at a field boundary: after the checksum, after the header or
  after the key, \<open>io.ReadFull\<close> finds nothing to read and the decoder returns the bare \<open>EOF\<close> that its
  callers take for a clean end of file.
\<close>

lemma decodeDataRecord_torn:
  assumes "encodable ts k v" and m: "m < 20 + length k + length v"
  shows "decodeDataRecord (take m (encodeDataRecord ts k v))
           = Inl (if m \<in> {0, 4, 20, 20 + length k} then EOF else UnexpectedEOF)"
proof -
  define meta where "meta = metaOf ts (length k) (length v)"
  define crc where "crc = le_bytes 4 (ChecksumIEEE (meta @ bytes_of k @ v))"
  have enc: "encodeDataRecord ts k v = crc @ meta @ bytes_of k @ v"
    by (simp add: encodeDataRecord_metaOf meta_def crc_def)
  have [simp]: "length crc = 4" "length meta = 16" by (simp_all add: crc_def meta_def)
  then have [simp]: "crc \<noteq> []" "meta \<noteq> []" by (metis list.size(3) zero_neq_numeral)+
  have sz: "unat (le_word (take 4 (drop 8 meta)) :: u32) = length k"
    "unat (le_word (take 4 (drop 12 meta)) :: u32) = length v"
    using assms(1) by (simp_all add: meta_def encodable_def unat_of_nat)
  have sz': "unat (le_word (drop 12 meta) :: u32) = length v"
    using sz(2) by simp
  consider "m < 4" | "4 \<le> m" "m < 20" | "20 \<le> m" "m < 20 + length k" | "20 + length k \<le> m"
    by linarith
  then show ?thesis
  proof cases
    case 1
    then show ?thesis by (auto simp: enc decodeDataRecord_def ReadFull_def)
  next
    case 2
    have "take m (encodeDataRecord ts k v) = crc @ take (m - 4) meta"
      using 2 by (simp add: enc)
    then show ?thesis
      using 2 by (auto simp: decodeDataRecord_def ReadFull_short)
  next
    case 3
    have "take m (encodeDataRecord ts k v) = crc @ meta @ take (m - 20) (bytes_of k)"
      using 3 by (simp add: enc)
    then show ?thesis
      using 3 by (auto simp: decodeDataRecord_def ReadFull_short sz)
  next
    case 4
    have "take m (encodeDataRecord ts k v) = crc @ meta @ bytes_of k @ take (m - 20 - length k) v"
      using 4 by (simp add: enc)
    then show ?thesis
      using 4 m by (auto simp: decodeDataRecord_def ReadFull_short Let_def sz sz')
  qed
qed

section \<open>Corruption\<close>

text \<open>A record one of whose key or value bytes was changed is rejected.\<close>

lemma decodeDataRecord_flipped:
  assumes "encodable ts k v" and kv: "bytes_of k @ v = xs @ b # ys" and "b \<noteq> b'"
  shows "decodeDataRecord (take 20 (encodeDataRecord ts k v) @ xs @ b' # ys @ rest) = Inl ErrCorruptData"
proof -
  define meta where "meta = metaOf ts (length k) (length v)"
  define kv' where "kv' = xs @ b' # ys"
  have len: "length kv' = length k + length v"
    using arg_cong [OF kv, of length] by (simp add: kv'_def)
  have sz: "unat (le_word (take 4 (drop 8 meta)) :: u32) = length k"
    "unat (le_word (take 4 (drop 12 meta)) :: u32) = length v"
    using assms(1) by (simp_all add: meta_def encodable_def unat_of_nat)
  have "ChecksumIEEE ((meta @ xs) @ b # ys) \<noteq> ChecksumIEEE ((meta @ xs) @ b' # ys)"
    using assms(3) by (rule ChecksumIEEE_one_byte)
  then have crc: "ChecksumIEEE (meta @ kv') \<noteq> ChecksumIEEE (meta @ bytes_of k @ v)"
    by (simp add: kv kv'_def)
  have "take 20 (encodeDataRecord ts k v) @ xs @ b' # ys @ rest
      = le_bytes 4 (ChecksumIEEE (meta @ bytes_of k @ v)) @ meta @ take (length k) kv'
        @ drop (length k) kv' @ rest"
    by (simp add: encodeDataRecord_metaOf meta_def) (simp add: kv'_def)
  also have "decodeDataRecord \<dots> = Inl ErrCorruptData"
    by (subst decodeDataRecord_fields) (use crc len sz in \<open>simp_all add: meta_def\<close>)
  finally show ?thesis .
qed

section \<open>Hint records\<close>

definition hint_encodable :: "hintRecord \<Rightarrow> bool" where
  "hint_encodable hr \<longleftrightarrow> is_int64 (hr_timestamp hr) \<and> is_int64 (hr_recordOff hr)
                          \<and> length (hr_key hr) < 2 ^ 32"

lemma length_encodeHintRecord [simp]: "length (encodeHintRecord hr) = 25 + length (hr_key hr)"
  by (simp add: encodeHintRecord_def)

lemma ReadFull_Cons_1 [simp]: "ReadFull (Suc 0) (b # r) = Inr ([b], r)"
  by (simp add: ReadFull_def)

lemma decode_encodeHintRecord:
  assumes "hint_encodable hr"
  shows "decodeHintRecord (encodeHintRecord hr @ rest) = Inr (hr, 25 + length (hr_key hr), rest)"
  using assms
  unfolding decodeHintRecord_def encodeHintRecord_def hint_encodable_def Let_def
  by (simp del: le_bytes.simps add: unat_of_nat sint_word_of_int64)

lemma decodeHintRecord_Nil [simp]: "decodeHintRecord [] = Inl EOF"
  by (simp add: decodeHintRecord_def ReadFull_def)

lemma decodeHintRecord_progress:
  "decodeHintRecord r = Inr (hr, n, rest) \<Longrightarrow> length rest < length r"
  unfolding decodeHintRecord_def Let_def
  by (auto split: sum.splits prod.splits dest!: ReadFull_length)

section \<open>The interface of a record codec\<close>

text \<open>
  What the scans of data and hint files rely on: an encoded record decodes to itself whatever
  follows it, and the empty reader is the end of the file. Records framed this way can be written
  one after the other: the file determines them.
\<close>

locale record_codec =
  fixes enc :: "'a \<Rightarrow> byte list"
    and dec :: "byte list \<Rightarrow> ('a \<times> nat \<times> byte list) result"
    and ok :: "'a \<Rightarrow> bool"
  assumes dec_enc: "ok x \<Longrightarrow> dec (enc x @ rest) = Inr (x, length (enc x), rest)"
    and dec_Nil: "dec [] = Inl EOF"
begin

lemma enc_nonempty: "ok x \<Longrightarrow> enc x \<noteq> []"
proof
  assume "ok x" "enc x = []"
  with dec_enc [of x "[]"] have "dec [] = Inr (x, 0, [])" by (metis append_Nil list.size(3))
  with dec_Nil show False by (metis Inl_Inr_False)
qed

lemma enc_prefix_free:
  assumes "ok x" "ok y" "enc x @ r = enc y @ s"
  shows "x = y \<and> r = s"
  using dec_enc [OF assms(1), of r] dec_enc [OF assms(2), of s] assms(3)
  by (metis Inr_inject prod.inject)

lemma concat_enc_inj:
  assumes "\<forall>x \<in> set xs. ok x" "\<forall>y \<in> set ys. ok y" "concat (map enc xs) = concat (map enc ys)"
  shows "xs = ys"
  using assms
proof (induction xs arbitrary: ys)
  case Nil
  then show ?case by (cases ys) (auto dest: enc_nonempty)
next
  case (Cons x xs)
  then obtain y ys' where ys: "ys = y # ys'"
    by (cases ys) (auto dest: enc_nonempty)
  with Cons.prems have "x = y \<and> concat (map enc xs) = concat (map enc ys')"
    by (intro enc_prefix_free) auto
  moreover from this have "xs = ys'"
    using Cons.prems ys by (intro Cons.IH) simp_all
  ultimately show ?case by (simp add: ys)
qed

end

definition encodeRecord :: "decodedRecord \<Rightarrow> byte list" where
  "encodeRecord rec = encodeDataRecord (dr_timestamp rec) (dr_key rec) (dr_value rec)"

definition record_ok :: "decodedRecord \<Rightarrow> bool" where
  "record_ok rec \<longleftrightarrow> encodable (dr_timestamp rec) (dr_key rec) (dr_value rec)"

interpretation data_codec: record_codec encodeRecord decodeDataRecord record_ok
  by unfold_locales (simp_all add: encodeRecord_def record_ok_def decode_encodeDataRecord)

interpretation hint_codec: record_codec encodeHintRecord decodeHintRecord hint_encodable
  by unfold_locales (simp_all add: decode_encodeHintRecord)

end
