(* ===== verification/Filesystem.thy ===== *)
theory Filesystem
  imports Prelude "HOL-Library.List_Lexorder" "HOL-Library.Char_ord"
begin

text \<open>
  The operating system as the storage engine sees it: the one directory of a database, as an
  association list from file names to contents, and the system calls on it. Which calls fail, and how
  much of a failing write reaches the file, is decided by the environment, a parameter of every
  operation that makes system calls. A failing call leaves the directory as it was, except for a
  failing write. Paths are relative to the database directory.
\<close>

datatype dirent = File "byte list" | Dir

type_synonym dir = "(string \<times> dirent) list"

datatype syscall =
    SReadDir
  | SMkdirAll
  | SStat string
  | SOpen string
  | SWrite string "byte list"
  | SSync string
  | SClose string
  | SRename string string
  | STruncate string nat
  | SFlock

record os_env =
  fails :: "syscall \<Rightarrow> bool"
  partial :: "syscall \<Rightarrow> nat"

definition no_faults :: os_env where
  "no_faults = \<lparr>fails = (\<lambda>_. False), partial = (\<lambda>_. 0)\<rparr>"

lemma fails_no_faults [simp]: "fails no_faults c = False"
  by (simp add: no_faults_def)

definition file_of :: "dir \<Rightarrow> string \<Rightarrow> byte list option" where
  "file_of d name = (case map_of d name of Some (File b) \<Rightarrow> Some b | _ \<Rightarrow> None)"

definition put_file :: "string \<Rightarrow> byte list \<Rightarrow> dir \<Rightarrow> dir" where
  "put_file name b d = AList.update name (File b) d"

text \<open>\<open>os.ReadDir\<close>: the entries in the order of their names.\<close>

definition ReadDir :: "dir \<Rightarrow> string list" where
  "ReadDir d = sort (remdups (map fst d))"

definition is_dir :: "dir \<Rightarrow> string \<Rightarrow> bool" where
  "is_dir d name \<longleftrightarrow> map_of d name = Some Dir"

text \<open>\<open>os.OpenFile\<close> with and without \<open>O_CREATE\<close>; \<open>create_trunc\<close> adds \<open>O_TRUNC\<close>.\<close>

definition open_existing :: "os_env \<Rightarrow> string \<Rightarrow> dir \<Rightarrow> (byte list) result" where
  "open_existing os name d =
     (if fails os (SOpen name) then Inl OSError
      else case file_of d name of None \<Rightarrow> Inl OSError | Some b \<Rightarrow> Inr b)"

definition open_create :: "os_env \<Rightarrow> string \<Rightarrow> dir \<Rightarrow> dir result" where
  "open_create os name d =
     (if fails os (SOpen name) \<or> is_dir d name then Inl OSError
      else case file_of d name of None \<Rightarrow> Inr (put_file name [] d) | Some _ \<Rightarrow> Inr d)"

definition create_trunc :: "os_env \<Rightarrow> string \<Rightarrow> dir \<Rightarrow> dir result" where
  "create_trunc os name d =
     (if fails os (SOpen name) \<or> is_dir d name then Inl OSError else Inr (put_file name [] d))"

text \<open>A write appends to the file (the data files are opened with \<open>O_APPEND\<close>, the others are new).\<close>

definition write_file :: "os_env \<Rightarrow> string \<Rightarrow> byte list \<Rightarrow> dir \<Rightarrow> dir \<times> error option" where
  "write_file os name bs d =
     (case file_of d name of
        None \<Rightarrow> (d, Some OSError)
      | Some old \<Rightarrow>
          if fails os (SWrite name bs)
          then (put_file name (old @ take (partial os (SWrite name bs)) bs) d, Some OSError)
          else (put_file name (old @ bs) d, None))"

definition remove_file :: "string \<Rightarrow> dir \<Rightarrow> dir" where
  "remove_file name d = (if is_dir d name then d else AList.delete name d)"

definition rename_file :: "os_env \<Rightarrow> string \<Rightarrow> string \<Rightarrow> dir \<Rightarrow> dir result" where
  "rename_file os from to d =
     (if fails os (SRename from to) \<or> is_dir d to then Inl OSError
      else case file_of d from of
        None \<Rightarrow> Inl OSError
      | Some b \<Rightarrow> Inr (put_file to b (AList.delete from d)))"

section \<open>Facts about the directory\<close>

lemma file_of_put_file [simp]:
  "file_of (put_file n b d) m = (if m = n then Some b else file_of d m)"
  by (simp add: file_of_def put_file_def update_conv')

lemma file_of_delete [simp]:
  "file_of (AList.delete n d) m = (if m = n then None else file_of d m)"
  by (simp add: file_of_def delete_conv')

lemma is_dir_put_file [simp]: "is_dir (put_file n b d) m \<longleftrightarrow> m \<noteq> n \<and> is_dir d m"
  by (simp add: is_dir_def put_file_def update_conv')

lemma is_dir_delete [simp]: "is_dir (AList.delete n d) m \<longleftrightarrow> m \<noteq> n \<and> is_dir d m"
  by (simp add: is_dir_def delete_conv')

lemma not_is_dir_file: "file_of d n = Some b \<Longrightarrow> \<not> is_dir d n"
  by (auto simp: file_of_def is_dir_def)

lemma file_of_remove_file [simp]:
  "file_of (remove_file n d) m = (if m = n then None else file_of d m)"
  by (auto simp: remove_file_def is_dir_def file_of_def delete_conv')

lemma set_ReadDir [simp]: "set (ReadDir d) = fst ` set d"
  by (simp add: ReadDir_def)

lemma distinct_ReadDir [simp]: "distinct (ReadDir d)"
  by (simp add: ReadDir_def)

end
