(* ===== verification/Paths.thy ===== *)
theory Paths
  imports Filesystem
begin

text \<open>
  File names of a database directory (\<open>kvstore/paths.go\<close>) and the decimal printing and parsing of
  \<open>fmt.Sprintf\<close> and \<open>strconv.ParseUint\<close> they rest on.
\<close>

section \<open>Decimal numbers\<close>

definition digit_char :: "nat \<Rightarrow> char" where
  "digit_char d = char_of (48 + d)"

definition digit_val :: "char \<Rightarrow> nat option" where
  "digit_val c = (let n = of_char c in if 48 \<le> n \<and> n \<le> 57 then Some (n - 48) else None)"

fun decimal :: "nat \<Rightarrow> string" where
  "decimal n = (if n < 10 then [digit_char n] else decimal (n div 10) @ [digit_char (n mod 10)])"

declare decimal.simps [simp del]

text \<open>\<open>%020d\<close>\<close>

definition sprintf020 :: "u64 \<Rightarrow> string" where
  "sprintf020 fid = (let s = decimal (unat fid) in replicate (20 - length s) CHR ''0'' @ s)"

fun digits_value :: "nat \<Rightarrow> string \<Rightarrow> nat option" where
  "digits_value acc [] = Some acc"
| "digits_value acc (c # cs) =
     (case digit_val c of None \<Rightarrow> None | Some d \<Rightarrow> digits_value (10 * acc + d) cs)"

text \<open>\<open>strconv.ParseUint(s, 10, 64)\<close>: an error is \<open>None\<close>.\<close>

definition ParseUint :: "string \<Rightarrow> u64 option" where
  "ParseUint s =
     (if s = [] then None
      else case digits_value 0 s of
        None \<Rightarrow> None
      | Some n \<Rightarrow> if n < 2 ^ 64 then Some (word_of_nat n) else None)"

section \<open>File names\<close>

definition dataFileExtension :: string where "dataFileExtension = ''.data''"
definition hintFileExtension :: string where "hintFileExtension = ''.hint''"
definition tmpFileSuffix :: string where "tmpFileSuffix = ''.tmp''"
definition writerLockFileName :: string where "writerLockFileName = ''bitcask.write.lock''"

lemmas name_defs = dataFileExtension_def hintFileExtension_def tmpFileSuffix_def writerLockFileName_def

definition HasSuffix :: "string \<Rightarrow> string \<Rightarrow> bool" where
  "HasSuffix s suf \<longleftrightarrow> length suf \<le> length s \<and> drop (length s - length suf) s = suf"

definition TrimSuffix :: "string \<Rightarrow> string \<Rightarrow> string" where
  "TrimSuffix s suf = (if HasSuffix s suf then take (length s - length suf) s else s)"

definition parseFileID :: "string \<Rightarrow> string \<Rightarrow> u64 option" where
  "parseFileID name suffix =
     (if \<not> HasSuffix name suffix then None
      else let base = TrimSuffix name suffix in
        if base = [] then None else ParseUint base)"

definition dataFilePath :: "u64 \<Rightarrow> string" where
  "dataFilePath fileID = sprintf020 fileID @ dataFileExtension"

definition hintFilePath :: "u64 \<Rightarrow> string" where
  "hintFilePath fileID = sprintf020 fileID @ hintFileExtension"

definition listDataFileIDs :: "os_env \<Rightarrow> dir \<Rightarrow> (u64 list) result" where
  "listDataFileIDs os d =
     (if fails os SReadDir then Inl OSError
      else Inr (sort (List.map_filter
        (\<lambda>name. if is_dir d name then None else parseFileID name dataFileExtension) (ReadDir d))))"

text \<open>
  \<open>validateLayout\<close>: leftover temporary files are removed in read-write mode; anything that is not a
  file of the engine makes it fail.
\<close>

fun validateEntries :: "bool \<Rightarrow> string list \<Rightarrow> dir \<Rightarrow> dir \<times> error option" where
  "validateEntries rw [] d = (d, None)"
| "validateEntries rw (name # names) d =
     (if is_dir d name then validateEntries rw names d
      else if name = writerLockFileName then validateEntries rw names d
      else if HasSuffix name tmpFileSuffix then
        (if rw then validateEntries rw names (remove_file name d)
         else (d, Some (LayoutError name)))
      else if HasSuffix name dataFileExtension then
        (if parseFileID name dataFileExtension \<noteq> None then validateEntries rw names d
         else (d, Some (LayoutError name)))
      else if HasSuffix name hintFileExtension then
        (if parseFileID name hintFileExtension \<noteq> None then validateEntries rw names d
         else (d, Some (LayoutError name)))
      else (d, Some (LayoutError name)))"

definition validateLayout :: "os_env \<Rightarrow> bool \<Rightarrow> dir \<Rightarrow> dir \<times> error option" where
  "validateLayout os rw d =
     (if fails os SReadDir then (d, Some OSError) else validateEntries rw (ReadDir d) d)"

section \<open>Printing then parsing\<close>

lemma digit_val_digit_char: "d < 10 \<Longrightarrow> digit_val (digit_char d) = Some d"
  by (simp add: digit_val_def digit_char_def)

lemma digits_value_append:
  "digits_value acc (xs @ ys) = Option.bind (digits_value acc xs) (\<lambda>a. digits_value a ys)"
  by (induction xs arbitrary: acc) (auto split: option.splits)

lemma digits_value_decimal: "\<exists>m. digits_value acc (decimal n) = Some (acc * 10 ^ m + n)"
proof (induction n arbitrary: acc rule: decimal.induct)
  case (1 n)
  show ?case
  proof (cases "n < 10")
    case True
    then show ?thesis
      by (auto simp: decimal.simps [of n] digit_val_digit_char intro!: exI [of _ 1])
  next
    case False
    with 1 obtain m where "digits_value acc (decimal (n div 10)) = Some (acc * 10 ^ m + n div 10)"
      by blast
    with False have "digits_value acc (decimal n) = Some (acc * 10 ^ Suc m + n)"
      by (simp add: decimal.simps [of n] digits_value_append digit_val_digit_char algebra_simps)
    then show ?thesis by blast
  qed
qed

lemma digits_value_zeros: "digits_value 0 (replicate k CHR ''0'' @ s) = digits_value 0 s"
  by (induction k) (auto simp: digit_val_def)

lemma decimal_nonempty [simp]: "decimal n \<noteq> []"
  by (subst decimal.simps) simp

lemma ParseUint_sprintf020 [simp]: "ParseUint (sprintf020 fid) = Some fid"
proof -
  obtain m where "digits_value 0 (decimal (unat fid)) = Some (0 * 10 ^ m + unat fid)"
    using digits_value_decimal by blast
  moreover have "unat fid < 2 ^ 64"
    using unsigned_less [of fid, where ?'a = nat] by simp
  ultimately show ?thesis
    by (simp add: ParseUint_def sprintf020_def Let_def digits_value_zeros)
qed

lemma sprintf020_nonempty [simp]: "sprintf020 fid \<noteq> []"
  by (simp add: sprintf020_def Let_def)

lemma sprintf020_inj [simp]: "sprintf020 i = sprintf020 j \<longleftrightarrow> i = j"
  by (metis ParseUint_sprintf020 option.inject)

lemma HasSuffix_append [simp]: "HasSuffix (s @ suf) suf"
  by (simp add: HasSuffix_def)

lemma TrimSuffix_append [simp]: "TrimSuffix (s @ suf) suf = s"
  by (simp add: TrimSuffix_def)

lemma parseFileID_dataFilePath [simp]: "parseFileID (dataFilePath fid) dataFileExtension = Some fid"
  by (simp add: parseFileID_def dataFilePath_def Let_def)

lemma parseFileID_hintFilePath [simp]: "parseFileID (hintFilePath fid) hintFileExtension = Some fid"
  by (simp add: parseFileID_def hintFilePath_def Let_def)

lemma dataFilePath_inj [simp]: "dataFilePath i = dataFilePath j \<longleftrightarrow> i = j"
  by (simp add: dataFilePath_def)

lemma hintFilePath_inj [simp]: "hintFilePath i = hintFilePath j \<longleftrightarrow> i = j"
  by (simp add: hintFilePath_def)

lemma ext_neq: "length e = length f \<Longrightarrow> e \<noteq> f \<Longrightarrow> s @ e \<noteq> t @ f"
  by auto

lemma names_distinct [simp]:
  "dataFilePath i \<noteq> hintFilePath j" "hintFilePath j \<noteq> dataFilePath i"
  by (simp_all add: dataFilePath_def hintFilePath_def name_defs ext_neq)

end
