(* ===== verification/Store.thy ===== *)
theory Store
  imports Codec Paths
begin

text \<open>
  The storage engine while it is open: \<open>kvstore/store.go\<close>, \<open>write.go\<close>, \<open>read.go\<close> and the helpers of
  \<open>open.go\<close> they call. An operation takes the environment (which system calls fail), the clock reading
  where the code calls \<open>time.Now().UnixNano()\<close>, and the state: the \<open>DB\<close> value and the directory. The
  mutex is held for the whole of every writing operation, so an operation is one step.
\<close>

section \<open>Data\<close>

record OpenOptions =
  ReadWrite :: bool
  SyncOnPut :: bool
  MaxDataFileSizeBytes :: int

record KeyDirEntry =
  FileID :: u64
  FileOffset :: int
  RecordSize :: u32
  TimeStamp :: int

type_synonym keydir = "(string \<times> KeyDirEntry) list"

text \<open>
  \<open>activeFile\<close> is the name of the file the open descriptor writes to; \<open>readers\<close> the file ids with a
  cached read descriptor; \<open>lockFile\<close> says whether the writer lock is held.
\<close>

record DB =
  opts :: OpenOptions
  keydir :: keydir
  activeFile :: "string option"
  activeFileID :: u64
  activeOffset :: int
  nextFileID :: u64
  readers :: "u64 list"
  lockFile :: bool
  closed :: bool

type_synonym world = "DB \<times> dir"

definition tombstoneValue :: string where
  "tombstoneValue = ''__bitcask_tombstone__''"

definition is_tombstone :: "byte list \<Rightarrow> bool" where
  "is_tombstone v \<longleftrightarrow> v = bytes_of tombstoneValue"

section \<open>Guards\<close>

definition mustReadWrite :: "DB \<Rightarrow> error option" where
  "mustReadWrite db = (if \<not> ReadWrite (opts db) then Some ErrReadOnly else None)"

definition ensureOpen :: "DB \<Rightarrow> error option" where
  "ensureOpen db = (if closed db then Some ErrClosed else None)"

section \<open>Hint files\<close>

function writeHintLoop ::
  "os_env \<Rightarrow> string \<Rightarrow> byte list \<Rightarrow> int \<Rightarrow> dir \<Rightarrow> dir \<times> error option" where
  "writeHintLoop os tmpPath r offset d =
     (case decodeDataRecord r of
        Inl e \<Rightarrow> if e = EOF then (d, None) else (d, Some e)
      | Inr (rec, n, r') \<Rightarrow>
          let h = \<lparr>hr_timestamp = dr_timestamp rec, hr_key = dr_key rec, hr_recordOff = offset,
                   hr_recordSize = word_of_nat n, hr_tombstone = is_tombstone (dr_value rec)\<rparr>
          in case write_file os tmpPath (encodeHintRecord h) d of
               (d', Some e) \<Rightarrow> (d', Some e)
             | (d', None) \<Rightarrow> writeHintLoop os tmpPath r' (offset + int n) d')"
  by pat_completeness auto
termination
  by (relation "measure (\<lambda>(os, t, r, off, d). length r)")
     (auto dest: decodeDataRecord_progress)

declare writeHintLoop.simps [simp del]

definition writeHintForDataFile :: "os_env \<Rightarrow> u64 \<Rightarrow> dir \<Rightarrow> dir \<times> error option" where
  "writeHintForDataFile os fileID d =
     (let dataPath = dataFilePath fileID;
          hintPath = hintFilePath fileID;
          tmpPath = hintPath @ tmpFileSuffix
      in case create_trunc os tmpPath d of
           Inl e \<Rightarrow> (d, Some e)
         | Inr d \<Rightarrow>
        (case open_existing os dataPath d of
           Inl e \<Rightarrow> (remove_file tmpPath d, Some e)
         | Inr content \<Rightarrow>
        (case writeHintLoop os tmpPath content 0 d of
           (d, Some e) \<Rightarrow> (remove_file tmpPath d, Some e)
         | (d, None) \<Rightarrow>
             if fails os (SClose dataPath) \<or> fails os (SSync tmpPath) \<or> fails os (SClose tmpPath)
             then (remove_file tmpPath d, Some OSError)
             else case rename_file os tmpPath hintPath d of
                    Inl e \<Rightarrow> (remove_file tmpPath d, Some e)
                  | Inr d \<Rightarrow> (d, None))))"

section \<open>The active file\<close>

definition createNewActiveFile :: "os_env \<Rightarrow> u64 \<Rightarrow> world \<Rightarrow> world \<times> error option" where
  "createNewActiveFile os fileID w =
     (case w of (db, d) \<Rightarrow>
      let path = dataFilePath fileID in
      case open_create os path d of
        Inl e \<Rightarrow> ((db, d), Some e)
      | Inr d \<Rightarrow>
          if fails os (SStat path) then ((db, d), Some OSError)
          else ((db\<lparr>activeFile := Some path, activeFileID := fileID,
                   activeOffset := int (length (the (file_of d path)))\<rparr>, d), None))"

definition rotateActiveFileLocked :: "os_env \<Rightarrow> world \<Rightarrow> world \<times> error option" where
  "rotateActiveFileLocked os w =
     (case w of (db, d) \<Rightarrow>
      let closing =
        (case activeFile db of
           None \<Rightarrow> ((db, d), None)
         | Some path \<Rightarrow>
             if fails os (SSync path) \<or> fails os (SClose path) then ((db, d), Some OSError)
             else case writeHintForDataFile os (activeFileID db) d of
                    (d', err) \<Rightarrow> ((db\<lparr>activeFile := None\<rparr>, d'), err))
      in case closing of
           (w, Some e) \<Rightarrow> (w, Some e)
         | ((db, d), None) \<Rightarrow>
             let newID = (if nextFileID db = 0 then 1 else nextFileID db)
             in case createNewActiveFile os newID (db, d) of
                  (w, Some e) \<Rightarrow> (w, Some e)
                | ((db, d), None) \<Rightarrow> ((db\<lparr>nextFileID := newID + 1\<rparr>, d), None))"

definition appendRecordLocked ::
  "os_env \<Rightarrow> byte list \<Rightarrow> int \<Rightarrow> world \<Rightarrow> world \<times> KeyDirEntry result" where
  "appendRecordLocked os record ts w =
     (case w of (db, d) \<Rightarrow>
      if activeFile db = None then ((db, d), Inl NoActiveFile)
      else
        let recordLen = int (length record);
            rotated =
              (if activeOffset db + recordLen > MaxDataFileSizeBytes (opts db) \<and> activeOffset db > 0
               then rotateActiveFileLocked os (db, d) else ((db, d), None))
        in case rotated of
             (w, Some e) \<Rightarrow> (w, Inl e)
           | ((db, d), None) \<Rightarrow>
               let offset = activeOffset db;
                   path = the (activeFile db)
               in case write_file os path record d of
                    (d, Some e) \<Rightarrow> ((db, d), Inl e)
                  | (d, None) \<Rightarrow>
                      let db = db\<lparr>activeOffset := activeOffset db + recordLen\<rparr>
                      in if SyncOnPut (opts db) \<and> fails os (SSync path) then ((db, d), Inl OSError)
                         else ((db, d), Inr \<lparr>FileID = activeFileID db, FileOffset = offset,
                                  RecordSize = word_of_nat (length record), TimeStamp = ts\<rparr>))"

section \<open>Put and Delete\<close>

definition DB_Put :: "os_env \<Rightarrow> int \<Rightarrow> string \<Rightarrow> string \<Rightarrow> world \<Rightarrow> world \<times> error option" where
  "DB_Put os now k value w =
     (case ensureOpen (fst w) of Some e \<Rightarrow> (w, Some e) | None \<Rightarrow>
     (case mustReadWrite (fst w) of Some e \<Rightarrow> (w, Some e) | None \<Rightarrow>
      if value = tombstoneValue then (w, Some ReservedValue)
      else case appendRecordLocked os (encodeDataRecord now k (bytes_of value)) now w of
             (w, Inl e) \<Rightarrow> (w, Some e)
           | ((db, d), Inr entry) \<Rightarrow> ((db\<lparr>keydir := AList.update k entry (keydir db)\<rparr>, d), None)))"

definition DB_Delete :: "os_env \<Rightarrow> int \<Rightarrow> string \<Rightarrow> world \<Rightarrow> world \<times> error option" where
  "DB_Delete os now k w =
     (case ensureOpen (fst w) of Some e \<Rightarrow> (w, Some e) | None \<Rightarrow>
     (case mustReadWrite (fst w) of Some e \<Rightarrow> (w, Some e) | None \<Rightarrow>
      case appendRecordLocked os (encodeDataRecord now k (bytes_of tombstoneValue)) now w of
        (w, Inl e) \<Rightarrow> (w, Some e)
      | ((db, d), Inr _) \<Rightarrow> ((db\<lparr>keydir := AList.delete k (keydir db)\<rparr>, d), None)))"

definition allocateDataFileID :: "DB \<Rightarrow> DB \<times> u64 result" where
  "allocateDataFileID db =
     (if closed db then (db, Inl ErrClosed)
      else let fid = (if nextFileID db = 0 then 1 else nextFileID db)
           in (db\<lparr>nextFileID := fid + 1\<rparr>, Inr fid))"

definition DB_Sync :: "os_env \<Rightarrow> DB \<Rightarrow> error option" where
  "DB_Sync os db =
     (case ensureOpen db of Some e \<Rightarrow> Some e | None \<Rightarrow>
     (case mustReadWrite db of Some e \<Rightarrow> Some e | None \<Rightarrow>
     (case activeFile db of
        None \<Rightarrow> None
      | Some path \<Rightarrow> if fails os (SSync path) then Some OSError else None)))"

definition releaseWriterLock :: "DB \<Rightarrow> DB" where
  "releaseWriterLock db = db\<lparr>lockFile := False\<rparr>"

definition closeAllReadersLocked :: "DB \<Rightarrow> DB" where
  "closeAllReadersLocked db = db\<lparr>readers := []\<rparr>"

definition DB_Close :: "os_env \<Rightarrow> DB \<Rightarrow> DB \<times> error option" where
  "DB_Close os db =
     (if closed db then (db, None)
      else
        let closeErr =
              (case activeFile db of
                 None \<Rightarrow> None
               | Some path \<Rightarrow>
                   if fails os (SSync path) \<or> fails os (SClose path) then Some OSError else None);
            db = db\<lparr>activeFile := None\<rparr>;
            db = closeAllReadersLocked db;
            db = releaseWriterLock db
        in (db\<lparr>closed := True\<rparr>, closeErr))"

definition sortedKeys :: "keydir \<Rightarrow> string list" where
  "sortedKeys m = sort (remdups (map fst m))"

section \<open>Reading\<close>

definition openReader :: "os_env \<Rightarrow> u64 \<Rightarrow> world \<Rightarrow> world \<times> (byte list) result" where
  "openReader os fileID w =
     (case w of (db, d) \<Rightarrow>
      if closed db then ((db, d), Inl ErrClosed)
      else if fileID \<in> set (readers db) then
        ((db, d), case file_of d (dataFilePath fileID) of None \<Rightarrow> Inl OSError | Some b \<Rightarrow> Inr b)
      else case open_existing os (dataFilePath fileID) d of
             Inl e \<Rightarrow> ((db, d), Inl e)
           | Inr b \<Rightarrow> ((db\<lparr>readers := fileID # readers db\<rparr>, d), Inr b))"

definition closeReaderLocked :: "u64 \<Rightarrow> DB \<Rightarrow> DB" where
  "closeReaderLocked fileID db = db\<lparr>readers := removeAll fileID (readers db)\<rparr>"

text \<open>The reader is the section of the file the entry names.\<close>

definition section_reader :: "byte list \<Rightarrow> KeyDirEntry \<Rightarrow> byte list" where
  "section_reader b entry = take (unat (RecordSize entry)) (drop (nat (FileOffset entry)) b)"

definition readRecordAtEntry ::
  "os_env \<Rightarrow> string \<Rightarrow> KeyDirEntry \<Rightarrow> world \<Rightarrow> world \<times> decodedRecord result" where
  "readRecordAtEntry os k entry w =
     (case openReader os (FileID entry) w of
        (w, Inl e) \<Rightarrow> (w, Inl e)
      | (w, Inr b) \<Rightarrow>
          (w, if FileOffset entry < 0 then Inl OSError
              else case decodeDataRecord (section_reader b entry) of
                     Inl e \<Rightarrow> Inl e
                   | Inr (rec, n, _) \<Rightarrow>
                       if dr_key rec \<noteq> k \<or> word_of_nat n \<noteq> RecordSize entry
                       then Inl ErrCorruptData else Inr rec))"

definition DB_Get :: "os_env \<Rightarrow> string \<Rightarrow> world \<Rightarrow> world \<times> (byte list) result" where
  "DB_Get os k w =
     (if closed (fst w) then (w, Inl ErrClosed)
      else case map_of (keydir (fst w)) k of
             None \<Rightarrow> (w, Inl ErrKeyNotFound)
           | Some entry \<Rightarrow>
               (case readRecordAtEntry os k entry w of
                  (w, Inl e) \<Rightarrow> (w, Inl e)
                | (w, Inr rec) \<Rightarrow>
                    (w, if is_tombstone (dr_value rec) then Inl ErrKeyNotFound
                        else Inr (dr_value rec))))"

definition DB_ListKeys :: "DB \<Rightarrow> string list" where
  "DB_ListKeys db = sort (remdups (map fst (keydir db)))"

definition DB_Keys :: "DB \<Rightarrow> string list" where
  "DB_Keys db = DB_ListKeys db"

text \<open>\<open>Fold\<close> threads the state its callback closes over.\<close>

fun foldKeys ::
  "os_env \<Rightarrow> ('s \<Rightarrow> string \<Rightarrow> byte list \<Rightarrow> 's \<times> error option) \<Rightarrow> string list \<Rightarrow> 's \<Rightarrow> world
   \<Rightarrow> world \<times> 's \<times> error option" where
  "foldKeys os fn [] s w = (w, s, None)"
| "foldKeys os fn (k # ks) s w =
     (case DB_Get os k w of
        (w, Inl e) \<Rightarrow> if e = ErrKeyNotFound then foldKeys os fn ks s w else (w, s, Some e)
      | (w, Inr v) \<Rightarrow>
          (case fn s k v of
             (s, Some e) \<Rightarrow> (w, s, Some e)
           | (s, None) \<Rightarrow> foldKeys os fn ks s w))"

definition DB_Fold ::
  "os_env \<Rightarrow> ('s \<Rightarrow> string \<Rightarrow> byte list \<Rightarrow> 's \<times> error option) \<Rightarrow> 's \<Rightarrow> world
   \<Rightarrow> world \<times> 's \<times> error option" where
  "DB_Fold os fn s w =
     (if closed (fst w) then (w, s, Some ErrClosed)
      else foldKeys os fn (sort (remdups (map fst (keydir (fst w))))) s w)"

end
