(* ===== verification/StoreInv.thy ===== *)
theory StoreInv
  imports Store
begin

text \<open>
  The invariant of an open read-write database and what its operations do when no system call fails:
  every index entry points at a whole record of its key, the active file holds whole records and its
  length is the offset the engine keeps, and file ids are never reused. On that invariant \<open>Put\<close>,
  \<open>Delete\<close> and \<open>Get\<close> are the operations of a finite map.
\<close>

section \<open>Files of whole records\<close>

definition encode_file :: "decodedRecord list \<Rightarrow> byte list" where
  "encode_file recs = concat (map encodeRecord recs)"

lemma encode_file_simps [simp]:
  "encode_file [] = []"
  "encode_file (rec # recs) = encodeRecord rec @ encode_file recs"
  "encode_file (recs @ recs') = encode_file recs @ encode_file recs'"
  by (simp_all add: encode_file_def)

lemma length_encodeRecord [simp]:
  "length (encodeRecord rec) = 20 + length (dr_key rec) + length (dr_value rec)"
  by (simp add: encodeRecord_def)

lemma decode_encodeRecord [simp]:
  "record_ok rec \<Longrightarrow> decodeDataRecord (encodeRecord rec @ rest)
     = Inr (rec, 20 + length (dr_key rec) + length (dr_value rec), rest)"
  using data_codec.dec_enc [of rec rest] by simp

lemma decode_encodeRecord' [simp]:
  "record_ok rec \<Longrightarrow> decodeDataRecord (encodeRecord rec)
     = Inr (rec, 20 + length (dr_key rec) + length (dr_value rec), [])"
  using decode_encodeRecord [of rec "[]"] by simp

text \<open>The hint records of a data file.\<close>

definition hint_of :: "int \<Rightarrow> decodedRecord \<Rightarrow> hintRecord" where
  "hint_of offset rec =
     \<lparr>hr_timestamp = dr_timestamp rec, hr_key = dr_key rec, hr_recordOff = offset,
      hr_recordSize = word_of_nat (length (encodeRecord rec)),
      hr_tombstone = is_tombstone (dr_value rec)\<rparr>"

fun hints_of :: "int \<Rightarrow> decodedRecord list \<Rightarrow> hintRecord list" where
  "hints_of offset [] = []"
| "hints_of offset (rec # recs) = hint_of offset rec # hints_of (offset + int (length (encodeRecord rec))) recs"

definition encode_hints :: "hintRecord list \<Rightarrow> byte list" where
  "encode_hints hs = concat (map encodeHintRecord hs)"

lemma map_of_put_file [simp]: "map_of (put_file n b d) = (map_of d)(n \<mapsto> File b)"
  by (simp add: put_file_def update_conv')

lemma file_of_eqI: "map_of d n = Some (File b) \<Longrightarrow> file_of d n = Some b"
  by (simp add: file_of_def)

lemma file_of_map_of: "file_of d n = Some b \<longleftrightarrow> map_of d n = Some (File b)"
  by (auto simp: file_of_def split: option.splits dirent.splits)

lemma writeHintLoop_records:
  assumes "\<forall>rec \<in> set recs. record_ok rec" "map_of d tmp = Some (File old)"
  shows "\<exists>d'. writeHintLoop no_faults tmp (encode_file recs) off d = (d', None) \<and>
           map_of d' = (map_of d)(tmp \<mapsto> File (old @ encode_hints (hints_of off recs)))"
  using assms
proof (induction recs arbitrary: d off old)
  case Nil
  then show ?case by (auto simp: writeHintLoop.simps encode_hints_def)
next
  case (Cons rec recs)
  let ?d1 = "put_file tmp (old @ encodeHintRecord (hint_of off rec)) d"
  have "\<exists>d'. writeHintLoop no_faults tmp (encode_file recs) (off + int (length (encodeRecord rec))) ?d1
          = (d', None) \<and> map_of d' = (map_of ?d1)(tmp \<mapsto> File ((old @ encodeHintRecord (hint_of off rec))
              @ encode_hints (hints_of (off + int (length (encodeRecord rec))) recs)))"
    using Cons.prems by (intro Cons.IH) auto
  then show ?case
    using Cons.prems
    by (subst writeHintLoop.simps)
      (auto simp: write_file_def file_of_eqI hint_of_def encode_hints_def Let_def)
qed

section \<open>Names of temporary files\<close>

lemma tmp_names [simp]:
  "hintFilePath i @ tmpFileSuffix \<noteq> dataFilePath j"
  "hintFilePath i @ tmpFileSuffix \<noteq> hintFilePath j"
  "dataFilePath j \<noteq> hintFilePath i @ tmpFileSuffix"
  "hintFilePath j \<noteq> hintFilePath i @ tmpFileSuffix"
proof -
  have l: "last (hintFilePath i @ tmpFileSuffix) = CHR ''p''" "last (dataFilePath j) = CHR ''a''"
    "last (hintFilePath j) = CHR ''t''"
    by (simp_all add: dataFilePath_def hintFilePath_def name_defs)
  have "CHR ''p'' \<noteq> CHR ''a''" "CHR ''p'' \<noteq> CHR ''t''" by simp_all
  with l show "hintFilePath i @ tmpFileSuffix \<noteq> dataFilePath j"
    "hintFilePath i @ tmpFileSuffix \<noteq> hintFilePath j"
    "dataFilePath j \<noteq> hintFilePath i @ tmpFileSuffix"
    "hintFilePath j \<noteq> hintFilePath i @ tmpFileSuffix"
    by metis+
qed

definition names_free :: "dir \<Rightarrow> bool" where
  "names_free d \<longleftrightarrow> (\<forall>fid. \<not> is_dir d (dataFilePath fid) \<and> \<not> is_dir d (hintFilePath fid)
                         \<and> \<not> is_dir d (hintFilePath fid @ tmpFileSuffix))"

lemma writeHintForDataFile_records:
  assumes "names_free d" "file_of d (dataFilePath fid) = Some (encode_file recs)"
    "\<forall>rec \<in> set recs. record_ok rec"
  shows "\<exists>d'. writeHintForDataFile no_faults fid d = (d', None) \<and>
     map_of d' = (map_of d)(hintFilePath fid @ tmpFileSuffix := None,
                            hintFilePath fid \<mapsto> File (encode_hints (hints_of 0 recs)))"
proof -
  let ?tmp = "hintFilePath fid @ tmpFileSuffix"
  let ?d1 = "put_file ?tmp [] d"
  obtain d2 where d2: "writeHintLoop no_faults ?tmp (encode_file recs) 0 ?d1 = (d2, None)"
    and m2: "map_of d2 = (map_of ?d1)(?tmp \<mapsto> File (encode_hints (hints_of 0 recs)))"
    using writeHintLoop_records [OF assms(3), of ?d1 ?tmp "[]" 0] by auto
  have "\<not> is_dir d2 (hintFilePath fid)"
    using assms(1) by (simp add: is_dir_def m2 names_free_def)
  moreover have "file_of d2 ?tmp = Some (encode_hints (hints_of 0 recs))"
    by (simp add: file_of_def m2)
  ultimately show ?thesis
    using assms(1,2) d2
    by (auto simp: writeHintForDataFile_def create_trunc_def names_free_def open_existing_def
        rename_file_def Let_def delete_conv' m2)
qed

section \<open>The invariant\<close>

text \<open>\<open>entry_at d e rec\<close>: the entry names exactly the bytes of \<open>rec\<close>.\<close>

definition entry_at :: "dir \<Rightarrow> KeyDirEntry \<Rightarrow> decodedRecord \<Rightarrow> bool" where
  "entry_at d e rec \<longleftrightarrow>
     (\<exists>pre post. file_of d (dataFilePath (FileID e)) = Some (pre @ encodeRecord rec @ post)
        \<and> FileOffset e = int (length pre))
     \<and> record_ok rec \<and> TimeStamp e = dr_timestamp rec
     \<and> RecordSize e = word_of_nat (length (encodeRecord rec)) \<and> length (encodeRecord rec) < 2 ^ 32"

definition entry_ok :: "dir \<Rightarrow> string \<Rightarrow> KeyDirEntry \<Rightarrow> bool" where
  "entry_ok d k e \<longleftrightarrow> (\<exists>rec. entry_at d e rec \<and> dr_key rec = k \<and> \<not> is_tombstone (dr_value rec))"

definition active_ok :: "DB \<Rightarrow> dir \<Rightarrow> bool" where
  "active_ok db d \<longleftrightarrow> activeFile db = Some (dataFilePath (activeFileID db)) \<and>
     (\<exists>recs. file_of d (dataFilePath (activeFileID db)) = Some (encode_file recs)
        \<and> (\<forall>rec \<in> set recs. record_ok rec) \<and> activeOffset db = int (length (encode_file recs)))"

definition ids_fresh :: "DB \<Rightarrow> dir \<Rightarrow> bool" where
  "ids_fresh db d \<longleftrightarrow> activeFileID db < nextFileID db
     \<and> (\<forall>fid. map_of d (dataFilePath fid) \<noteq> None \<longrightarrow> fid < nextFileID db)"

definition db_inv :: "DB \<Rightarrow> dir \<Rightarrow> bool" where
  "db_inv db d \<longleftrightarrow> \<not> closed db \<and> ReadWrite (opts db) \<and> active_ok db d \<and> ids_fresh db d \<and> names_free d
     \<and> (\<forall>k e. map_of (keydir db) k = Some e \<longrightarrow> entry_ok d k e)"

lemma entry_at_mono:
  assumes "entry_at d e rec"
    and "\<And>b. file_of d (dataFilePath (FileID e)) = Some b \<Longrightarrow>
          \<exists>more. file_of d' (dataFilePath (FileID e)) = Some (b @ more)"
  shows "entry_at d' e rec"
proof -
  from assms(1) obtain pre post where
    f: "file_of d (dataFilePath (FileID e)) = Some (pre @ encodeRecord rec @ post)"
    and off: "FileOffset e = int (length pre)"
    unfolding entry_at_def by blast
  from assms(2) [OF f] obtain more where
    "file_of d' (dataFilePath (FileID e)) = Some (pre @ encodeRecord rec @ (post @ more))"
    by auto
  with off assms(1) show ?thesis unfolding entry_at_def by blast
qed

section \<open>Rotation and appending\<close>

definition max_id :: u64 where "max_id = - 1"

lemma less_add_1: "(x :: u64) \<noteq> max_id \<Longrightarrow> x < x + 1"
  by (rule ccontr) (auto simp: max_id_def not_less dest: inc_less_eq_triv_imp)

lemma rotate_spec:
  assumes inv: "db_inv db d" and f: "file_of d (dataFilePath (activeFileID db)) = Some (encode_file recs)"
    and ok: "\<forall>rec \<in> set recs. record_ok rec"
  shows "\<exists>d'. rotateActiveFileLocked no_faults (db, d) =
      ((db\<lparr>activeFile := Some (dataFilePath (nextFileID db)), activeFileID := nextFileID db,
           activeOffset := 0, nextFileID := nextFileID db + 1\<rparr>, d'), None)
    \<and> map_of d' = (map_of d)(hintFilePath (activeFileID db) @ tmpFileSuffix := None,
        hintFilePath (activeFileID db) \<mapsto> File (encode_hints (hints_of 0 recs)),
        dataFilePath (nextFileID db) \<mapsto> File [])"
proof -
  from inv have act: "activeFile db = Some (dataFilePath (activeFileID db))"
    by (simp add: db_inv_def active_ok_def)
  from inv have nf: "names_free d" and fresh: "ids_fresh db d" by (simp_all add: db_inv_def)
  obtain d1 where d1: "writeHintForDataFile no_faults (activeFileID db) d = (d1, None)"
    and m1: "map_of d1 = (map_of d)(hintFilePath (activeFileID db) @ tmpFileSuffix := None,
               hintFilePath (activeFileID db) \<mapsto> File (encode_hints (hints_of 0 recs)))"
    using writeHintForDataFile_records [OF nf f ok] by blast
  have new: "map_of d (dataFilePath (nextFileID db)) = None"
    using fresh by (auto simp: ids_fresh_def)
  have nz: "nextFileID db \<noteq> 0" using fresh by (auto simp: ids_fresh_def)
  have fo: "file_of d1 (dataFilePath (nextFileID db)) = None"
    "\<not> is_dir d1 (dataFilePath (nextFileID db))"
    using new by (simp_all add: file_of_def is_dir_def m1)
  have c: "createNewActiveFile no_faults (nextFileID db) (db\<lparr>activeFile := None\<rparr>, d1) =
      ((db\<lparr>activeFile := Some (dataFilePath (nextFileID db)), activeFileID := nextFileID db,
           activeOffset := 0\<rparr>, put_file (dataFilePath (nextFileID db)) [] d1), None)"
    using fo by (simp add: createNewActiveFile_def open_create_def Let_def)
  show ?thesis
    by (intro exI [of _ "put_file (dataFilePath (nextFileID db)) [] d1"])
      (simp add: rotateActiveFileLocked_def act d1 nz c Let_def, simp add: m1)
qed

lemma rotate_inv:
  assumes inv: "db_inv db d" and nw: "nextFileID db \<noteq> max_id"
    and m: "map_of d' = (map_of d)(hintFilePath (activeFileID db) @ tmpFileSuffix := None,
        hintFilePath (activeFileID db) \<mapsto> File h, dataFilePath (nextFileID db) \<mapsto> File [])"
    and db': "db' = db\<lparr>activeFile := Some (dataFilePath (nextFileID db)), activeFileID := nextFileID db,
           activeOffset := 0, nextFileID := nextFileID db + 1\<rparr>"
  shows "db_inv db' d'" and "\<And>e rec. entry_at d e rec \<Longrightarrow> entry_at d' e rec"
proof -
  from inv have fresh: "ids_fresh db d" by (simp add: db_inv_def)
  then have new: "map_of d (dataFilePath (nextFileID db)) = None"
    by (auto simp: ids_fresh_def)
  have keep: "file_of d' (dataFilePath fid) = Some b" if "file_of d (dataFilePath fid) = Some b" for fid b
    using that new by (auto simp: file_of_map_of m)
  show mono: "entry_at d' e rec" if "entry_at d e rec" for e rec
    using that keep by (elim entry_at_mono) (auto intro: exI [of _ "[]"])
  have "active_ok db' d'"
    by (auto simp: active_ok_def db' file_of_def m intro: exI [of _ "[]"])
  moreover have "fid < nextFileID db + 1" if "fid < nextFileID db \<or> fid = nextFileID db" for fid
    using that less_add_1 [OF nw] by auto
  with fresh have "ids_fresh db' d'"
    by (auto simp: ids_fresh_def db' m)
  moreover have "names_free d'"
    using inv by (auto simp: db_inv_def names_free_def is_dir_def m)
  ultimately show "db_inv db' d'"
    using inv mono unfolding db_inv_def entry_ok_def by (simp add: db') blast
qed

lemma append_here:
  assumes inv: "db_inv db d" and ok: "record_ok rec" and len: "length (encodeRecord rec) < 2 ^ 32"
  defines "path \<equiv> dataFilePath (activeFileID db)"
  defines "db' \<equiv> db\<lparr>activeOffset := activeOffset db + int (length (encodeRecord rec))\<rparr>"
  shows "\<exists>d'. write_file no_faults path (encodeRecord rec) d = (d', None) \<and> db_inv db' d'
    \<and> (\<forall>e r. entry_at d e r \<longrightarrow> entry_at d' e r)
    \<and> entry_at d' \<lparr>FileID = activeFileID db, FileOffset = activeOffset db,
          RecordSize = word_of_nat (length (encodeRecord rec)), TimeStamp = dr_timestamp rec\<rparr> rec"
proof -
  from inv obtain recs where
    act: "activeFile db = Some path" and f: "file_of d path = Some (encode_file recs)"
    and oks: "\<forall>rec \<in> set recs. record_ok rec"
    and off: "activeOffset db = int (length (encode_file recs))"
    by (auto simp: db_inv_def active_ok_def path_def)
  define d' where "d' = put_file path (encode_file recs @ encodeRecord rec) d"
  have w: "write_file no_faults path (encodeRecord rec) d = (d', None)"
    by (simp add: write_file_def f d'_def)
  have mono: "entry_at d' e r" if "entry_at d e r" for e r
    using that f by (elim entry_at_mono) (auto simp: d'_def)
  have act': "active_ok db' d'"
    unfolding active_ok_def
    by (auto simp: db'_def d'_def path_def [symmetric] act off ok oks intro!: exI [of _ "recs @ [rec]"])
  have "ids_fresh db' d'"
    using inv f by (auto simp: db_inv_def ids_fresh_def db'_def d'_def path_def file_of_map_of)
  moreover have "names_free d'"
    using inv by (auto simp: db_inv_def names_free_def d'_def path_def)
  ultimately have "db_inv db' d'"
    using inv mono act' unfolding db_inv_def entry_ok_def by (simp add: db'_def) blast
  moreover have "entry_at d' \<lparr>FileID = activeFileID db, FileOffset = activeOffset db,
          RecordSize = word_of_nat (length (encodeRecord rec)), TimeStamp = dr_timestamp rec\<rparr> rec"
    using ok len
    unfolding entry_at_def d'_def path_def off
    by (intro conjI exI [of _ "encode_file recs"] exI [of _ "[]"]) simp_all
  ultimately show ?thesis using w mono by blast
qed

text \<open>
  Appending never touches the records already there, whether or not it starts a new file; the index
  is not changed by it.
\<close>

lemma append_spec:
  assumes inv: "db_inv db d" and ok: "record_ok rec" and len: "length (encodeRecord rec) < 2 ^ 32"
    and nw: "nextFileID db \<noteq> max_id"
  shows "\<exists>db' d' e. appendRecordLocked no_faults (encodeRecord rec) (dr_timestamp rec) (db, d)
            = ((db', d'), Inr e)
    \<and> db_inv db' d' \<and> keydir db' = keydir db \<and> opts db' = opts db
    \<and> nextFileID db' \<in> {nextFileID db, nextFileID db + 1}
    \<and> (\<forall>e r. entry_at d e r \<longrightarrow> entry_at d' e r) \<and> entry_at d' e rec"
proof -
  let ?rot = "activeOffset db + int (length (encodeRecord rec)) > MaxDataFileSizeBytes (opts db)
              \<and> activeOffset db > 0"
  from inv have act: "activeFile db = Some (dataFilePath (activeFileID db))"
    by (simp add: db_inv_def active_ok_def)
  show ?thesis
  proof (cases ?rot)
    case True
    define db1 where "db1 = db\<lparr>activeFile := Some (dataFilePath (nextFileID db)),
       activeFileID := nextFileID db, activeOffset := 0, nextFileID := nextFileID db + 1\<rparr>"
    obtain d1 h where rot: "rotateActiveFileLocked no_faults (db, d) = ((db1, d1), None)"
      and m: "map_of d1 = (map_of d)(hintFilePath (activeFileID db) @ tmpFileSuffix := None,
        hintFilePath (activeFileID db) \<mapsto> File h, dataFilePath (nextFileID db) \<mapsto> File [])"
      using rotate_spec [OF inv] inv unfolding db1_def db_inv_def active_ok_def by blast
    note r = rotate_inv [OF inv nw m db1_def]
    obtain d2 where "write_file no_faults (dataFilePath (activeFileID db1)) (encodeRecord rec) d1 = (d2, None)"
      "db_inv (db1\<lparr>activeOffset := activeOffset db1 + int (length (encodeRecord rec))\<rparr>) d2"
      "\<forall>e r. entry_at d1 e r \<longrightarrow> entry_at d2 e r"
      "entry_at d2 \<lparr>FileID = activeFileID db1, FileOffset = activeOffset db1,
          RecordSize = word_of_nat (length (encodeRecord rec)), TimeStamp = dr_timestamp rec\<rparr> rec"
      using append_here [OF r(1) ok len] by blast
    with True act rot r(2) show ?thesis
      by (auto simp: appendRecordLocked_def Let_def db1_def)
  next
    case False
    obtain d2 where "write_file no_faults (dataFilePath (activeFileID db)) (encodeRecord rec) d = (d2, None)"
      "db_inv (db\<lparr>activeOffset := activeOffset db + int (length (encodeRecord rec))\<rparr>) d2"
      "\<forall>e r. entry_at d e r \<longrightarrow> entry_at d2 e r"
      "entry_at d2 \<lparr>FileID = activeFileID db, FileOffset = activeOffset db,
          RecordSize = word_of_nat (length (encodeRecord rec)), TimeStamp = dr_timestamp rec\<rparr> rec"
      using append_here [OF inv ok len] by blast
    with False act show ?thesis
      by (auto simp: appendRecordLocked_def Let_def)
  qed
qed

section \<open>Reading\<close>

lemma unat_u32_of_nat: "n < 2 ^ 32 \<Longrightarrow> unat (word_of_nat n :: u32) = n"
  by (simp add: unat_of_nat)

lemma section_reader_entry_at:
  assumes "entry_at d e rec"
  shows "\<exists>b. file_of d (dataFilePath (FileID e)) = Some b \<and> section_reader b e = encodeRecord rec"
proof -
  from assms obtain pre post where
    f: "file_of d (dataFilePath (FileID e)) = Some (pre @ encodeRecord rec @ post)"
    and off: "FileOffset e = int (length pre)"
    and sz: "RecordSize e = word_of_nat (length (encodeRecord rec))" "length (encodeRecord rec) < 2 ^ 32"
    unfolding entry_at_def by blast
  have "unat (RecordSize e) = length (encodeRecord rec)"
    using sz unat_u32_of_nat by metis
  with f off show ?thesis by (simp add: section_reader_def)
qed

lemma read_entry_at:
  assumes "entry_at d e rec" "\<not> closed db"
  shows "\<exists>rs. readRecordAtEntry no_faults (dr_key rec) e (db, d) = ((db\<lparr>readers := rs\<rparr>, d), Inr rec)"
proof -
  obtain b where b: "file_of d (dataFilePath (FileID e)) = Some b" "section_reader b e = encodeRecord rec"
    using section_reader_entry_at [OF assms(1)] by blast
  have ok: "record_ok rec" "0 \<le> FileOffset e"
    "RecordSize e = word_of_nat (20 + length (dr_key rec) + length (dr_value rec))"
    using assms(1) by (auto simp: entry_at_def)
  show ?thesis
    using assms(2) b ok
    by (auto simp: readRecordAtEntry_def openReader_def open_existing_def
        intro!: exI [of _ "if FileID e \<in> set (readers db) then readers db else FileID e # readers db"])
qed

text \<open>What a reader of the database sees.\<close>

definition contents :: "world \<Rightarrow> string \<Rightarrow> byte list option" where
  "contents w k = (case snd (DB_Get no_faults k w) of Inl _ \<Rightarrow> None | Inr v \<Rightarrow> Some v)"

lemma DB_Get_absent:
  "\<not> closed db \<Longrightarrow> map_of (keydir db) k = None \<Longrightarrow> DB_Get os k (db, d) = ((db, d), Inl ErrKeyNotFound)"
  by (simp add: DB_Get_def)

lemma DB_Get_entry:
  assumes "\<not> closed db" "map_of (keydir db) (dr_key rec) = Some e" "entry_at d e rec"
    "\<not> is_tombstone (dr_value rec)"
  shows "\<exists>rs. DB_Get no_faults (dr_key rec) (db, d) = ((db\<lparr>readers := rs\<rparr>, d), Inr (dr_value rec))"
proof -
  obtain rs where "readRecordAtEntry no_faults (dr_key rec) e (db, d) = ((db\<lparr>readers := rs\<rparr>, d), Inr rec)"
    using read_entry_at [OF assms(3,1)] by blast
  with assms show ?thesis by (auto simp: DB_Get_def)
qed

lemma contents_absent:
  "\<not> closed db \<Longrightarrow> map_of (keydir db) k = None \<Longrightarrow> contents (db, d) k = None"
  by (simp add: contents_def DB_Get_absent)

lemma contents_entry:
  assumes "\<not> closed db" "map_of (keydir db) (dr_key rec) = Some e" "entry_at d e rec"
    "\<not> is_tombstone (dr_value rec)"
  shows "contents (db, d) (dr_key rec) = Some (dr_value rec)"
  using DB_Get_entry [OF assms] by (auto simp: contents_def)

text \<open>Two states agree on a key when they agree on its entry and the record is still in place.\<close>

lemma contents_cong:
  assumes "db_inv db d" "\<not> closed db'" "map_of (keydir db') k = map_of (keydir db) k"
    "\<forall>e r. entry_at d e r \<longrightarrow> entry_at d' e r"
  shows "contents (db', d') k = contents (db, d) k"
proof (cases "map_of (keydir db) k")
  case None
  with assms show ?thesis by (simp add: contents_absent db_inv_def)
next
  case (Some e)
  with assms(1) obtain rec where rec: "entry_at d e rec" "dr_key rec = k" "\<not> is_tombstone (dr_value rec)"
    by (auto simp: db_inv_def entry_ok_def)
  have "contents (db, d) k = Some (dr_value rec)"
    using contents_entry [of db rec e d] assms(1) Some rec by (simp add: db_inv_def)
  moreover have "contents (db', d') k = Some (dr_value rec)"
    using contents_entry [of db' rec e d'] assms Some rec by simp
  ultimately show ?thesis by simp
qed

lemma DB_Get_spec:
  assumes "db_inv db d"
  shows "\<exists>rs. DB_Get no_faults k (db, d) = ((db\<lparr>readers := rs\<rparr>, d),
           case contents (db, d) k of None \<Rightarrow> Inl ErrKeyNotFound | Some v \<Rightarrow> Inr v)"
proof (cases "map_of (keydir db) k")
  case None
  with assms show ?thesis
    by (auto simp: db_inv_def DB_Get_absent contents_absent intro!: exI [of _ "readers db"])
next
  case (Some e)
  with assms obtain rec where rec: "entry_at d e rec" "dr_key rec = k" "\<not> is_tombstone (dr_value rec)"
    by (auto simp: db_inv_def entry_ok_def)
  with Some assms show ?thesis
    using DB_Get_entry [of db rec e d] contents_entry [of db rec e d] by (auto simp: db_inv_def)
qed

section \<open>Put and Delete\<close>

text \<open>The sizes a record can have so that its length fits the index.\<close>

definition fits :: "int \<Rightarrow> string \<Rightarrow> nat \<Rightarrow> bool" where
  "fits now k vlen \<longleftrightarrow> is_int64 now \<and> 20 + length k + vlen < 2 ^ 32"

lemma fits_record:
  "fits now k (length v) \<Longrightarrow> record_ok \<lparr>dr_timestamp = now, dr_key = k, dr_value = v\<rparr>
     \<and> length (encodeRecord \<lparr>dr_timestamp = now, dr_key = k, dr_value = v\<rparr>) < 2 ^ 32"
  by (auto simp: fits_def record_ok_def encodable_def)

lemma db_inv_keydir:
  assumes "db_inv db d" "\<And>k e. map_of kd k = Some e \<Longrightarrow> entry_ok d k e"
  shows "db_inv (db\<lparr>keydir := kd\<rparr>) d"
  using assms by (auto simp: db_inv_def active_ok_def ids_fresh_def)

lemma DB_Put_spec:
  assumes inv: "db_inv db d" and nw: "nextFileID db \<noteq> max_id" and v: "value \<noteq> tombstoneValue"
    and fit: "fits now k (length value)"
  shows "\<exists>db' d'. DB_Put no_faults now k value (db, d) = ((db', d'), None) \<and> db_inv db' d'
    \<and> contents (db', d') = (contents (db, d))(k \<mapsto> bytes_of value)
    \<and> nextFileID db' \<in> {nextFileID db, nextFileID db + 1}"
proof -
  let ?rec = "\<lparr>dr_timestamp = now, dr_key = k, dr_value = bytes_of value\<rparr>"
  have ok: "record_ok ?rec" "length (encodeRecord ?rec) < 2 ^ 32"
    using fits_record [of now k "bytes_of value"] fit by auto
  obtain db1 d1 e where app: "appendRecordLocked no_faults (encodeRecord ?rec) now (db, d) = ((db1, d1), Inr e)"
    and inv1: "db_inv db1 d1" and kd: "keydir db1 = keydir db"
    and nid: "nextFileID db1 \<in> {nextFileID db, nextFileID db + 1}"
    and mono: "\<forall>e r. entry_at d e r \<longrightarrow> entry_at d1 e r" and e: "entry_at d1 e ?rec"
    using append_spec [OF inv ok nw] by auto
  define db2 where "db2 = db1\<lparr>keydir := AList.update k e (keydir db1)\<rparr>"
  have nt: "\<not> is_tombstone (bytes_of value)" using v by (simp add: is_tombstone_def)
  have ent: "entry_ok d1 k e" using e nt by (auto simp: entry_ok_def intro!: exI [of _ ?rec])
  have inv2: "db_inv db2 d1"
    unfolding db2_def
  proof (rule db_inv_keydir [OF inv1])
    fix k' e'
    assume "map_of (AList.update k e (keydir db1)) k' = Some e'"
    then show "entry_ok d1 k' e'"
      using ent inv1 by (auto simp: update_conv' db_inv_def split: if_splits)
  qed
  have put: "DB_Put no_faults now k value (db, d) = ((db2, d1), None)"
    using inv v app by (simp add: DB_Put_def ensureOpen_def mustReadWrite_def db_inv_def db2_def encodeRecord_def)
  have "contents (db2, d1) k' = ((contents (db, d))(k \<mapsto> bytes_of value)) k'" for k'
  proof (cases "k' = k")
    case True
    then show ?thesis
      using contents_entry [of db2 ?rec e d1] inv2 e nt
      by (simp add: db_inv_def db2_def update_conv')
  next
    case False
    then show ?thesis
      using contents_cong [OF inv, of db2 k' d1] inv2 mono kd
      by (simp add: db_inv_def db2_def update_conv')
  qed
  with put inv2 nid show ?thesis by (auto simp: db2_def)
qed

lemma length_tombstoneValue [simp]: "length tombstoneValue = 21"
  by (simp add: tombstoneValue_def)

lemma DB_Delete_spec:
  assumes inv: "db_inv db d" and nw: "nextFileID db \<noteq> max_id" and fit: "fits now k 21"
  shows "\<exists>db' d'. DB_Delete no_faults now k (db, d) = ((db', d'), None) \<and> db_inv db' d'
    \<and> contents (db', d') = (contents (db, d))(k := None)
    \<and> nextFileID db' \<in> {nextFileID db, nextFileID db + 1}"
proof -
  let ?rec = "\<lparr>dr_timestamp = now, dr_key = k, dr_value = bytes_of tombstoneValue\<rparr>"
  have ok: "record_ok ?rec" "length (encodeRecord ?rec) < 2 ^ 32"
    using fits_record [of now k "bytes_of tombstoneValue"] fit by auto
  obtain db1 d1 e where app: "appendRecordLocked no_faults (encodeRecord ?rec) now (db, d) = ((db1, d1), Inr e)"
    and inv1: "db_inv db1 d1" and kd: "keydir db1 = keydir db"
    and nid: "nextFileID db1 \<in> {nextFileID db, nextFileID db + 1}"
    and mono: "\<forall>e r. entry_at d e r \<longrightarrow> entry_at d1 e r"
    using append_spec [OF inv ok nw] by auto
  define db2 where "db2 = db1\<lparr>keydir := AList.delete k (keydir db1)\<rparr>"
  have inv2: "db_inv db2 d1"
    unfolding db2_def
    by (rule db_inv_keydir [OF inv1]) (use inv1 in \<open>auto simp: delete_conv' db_inv_def split: if_splits\<close>)
  have del: "DB_Delete no_faults now k (db, d) = ((db2, d1), None)"
    using inv app by (simp add: DB_Delete_def ensureOpen_def mustReadWrite_def db_inv_def db2_def encodeRecord_def)
  have "contents (db2, d1) k' = ((contents (db, d))(k := None)) k'" for k'
  proof (cases "k' = k")
    case True
    then show ?thesis
      using contents_absent [of db2 k] inv2 by (simp add: db_inv_def db2_def delete_conv')
  next
    case False
    then show ?thesis
      using contents_cong [OF inv, of db2 k' d1] inv2 mono kd
      by (simp add: db_inv_def db2_def delete_conv')
  qed
  with del inv2 nid show ?thesis by (auto simp: db2_def)
qed

end
