(* ===== verification/Recovery.thy ===== *)
theory Recovery
  imports StoreInv
begin

text \<open>
  Opening a database: \<open>kvstore/open.go\<close>. The directory is scanned in the order of the file ids, older
  files through their hint files where these can be read, and the index is rebuilt; the newest file is
  scanned record by record and a torn record at its end is cut off.
\<close>

section \<open>Rebuilding the index\<close>

definition shouldReplace :: "KeyDirEntry \<Rightarrow> KeyDirEntry \<Rightarrow> bool" where
  "shouldReplace current incoming =
     (if TimeStamp incoming > TimeStamp current then True
      else if TimeStamp incoming < TimeStamp current then False
      else if FileID incoming > FileID current then True
      else if FileID incoming < FileID current then False
      else FileOffset incoming > FileOffset current)"

definition applyKeydirUpdate :: "string \<Rightarrow> KeyDirEntry \<Rightarrow> bool \<Rightarrow> DB \<Rightarrow> DB" where
  "applyKeydirUpdate k incoming tombstone db =
     (let replace = (case map_of (keydir db) k of None \<Rightarrow> True | Some current \<Rightarrow> shouldReplace current incoming)
      in if \<not> replace then db
         else if tombstone then db\<lparr>keydir := AList.delete k (keydir db)\<rparr>
         else db\<lparr>keydir := AList.update k incoming (keydir db)\<rparr>)"

function scanHintLoop :: "u64 \<Rightarrow> byte list \<Rightarrow> DB \<Rightarrow> DB \<times> error option" where
  "scanHintLoop fileID r db =
     (case decodeHintRecord r of
        Inl e \<Rightarrow> if e = EOF then (db, None) else (db, Some e)
      | Inr (hr, n, r') \<Rightarrow>
          let entry = \<lparr>FileID = fileID, FileOffset = hr_recordOff hr, RecordSize = hr_recordSize hr,
                       TimeStamp = hr_timestamp hr\<rparr>
          in scanHintLoop fileID r' (applyKeydirUpdate (hr_key hr) entry (hr_tombstone hr) db))"
  by pat_completeness auto
termination
  by (relation "measure (\<lambda>(f, r, db). length r)") (auto dest: decodeHintRecord_progress)

declare scanHintLoop.simps [simp del]

definition scanHintFile :: "os_env \<Rightarrow> u64 \<Rightarrow> world \<Rightarrow> world \<times> error option" where
  "scanHintFile os fileID w =
     (case w of (db, d) \<Rightarrow>
      case open_existing os (hintFilePath fileID) d of
        Inl e \<Rightarrow> ((db, d), Some e)
      | Inr b \<Rightarrow> (case scanHintLoop fileID b db of (db, err) \<Rightarrow> ((db, d), err)))"

definition isTailTruncationError :: "error \<Rightarrow> bool" where
  "isTailTruncationError e \<longleftrightarrow> e = EOF \<or> e = UnexpectedEOF"

text \<open>Cutting the file at the last good offset: \<open>Truncate\<close>, \<open>Seek\<close>, \<open>Sync\<close>.\<close>

definition truncateTail :: "os_env \<Rightarrow> string \<Rightarrow> int \<Rightarrow> dir \<Rightarrow> dir \<times> error option" where
  "truncateTail os path n d =
     (if fails os (STruncate path (nat n)) then (d, Some OSError)
      else let d = put_file path (take (nat n) (the (file_of d path))) d
           in if fails os (SSync path) then (d, Some OSError) else (d, None))"

function scanDataLoop ::
  "os_env \<Rightarrow> u64 \<Rightarrow> bool \<Rightarrow> byte list \<Rightarrow> int \<Rightarrow> int \<Rightarrow> world \<Rightarrow> world \<times> error option" where
  "scanDataLoop os fileID allowTailTruncate r offset lastGoodOffset w =
     (case w of (db, d) \<Rightarrow>
      case decodeDataRecord r of
        Inl e \<Rightarrow>
          if e = EOF then ((db, d), None)
          else if allowTailTruncate \<and> isTailTruncationError e
               then (case truncateTail os (dataFilePath fileID) lastGoodOffset d of (d, err) \<Rightarrow> ((db, d), err))
          else if e = ErrCorruptData then ((db, d), Some ErrCorruptData)
          else if \<not> allowTailTruncate then ((db, d), Some ErrCorruptData)
          else ((db, d), Some e)
      | Inr (rec, n, r') \<Rightarrow>
          let entry = \<lparr>FileID = fileID, FileOffset = offset, RecordSize = word_of_nat n,
                       TimeStamp = dr_timestamp rec\<rparr>;
              db = applyKeydirUpdate (dr_key rec) entry (is_tombstone (dr_value rec)) db;
              offset = offset + int n
          in scanDataLoop os fileID allowTailTruncate r' offset offset (db, d))"
  by pat_completeness auto
termination
  by (relation "measure (\<lambda>(os, f, a, r, off, g, w). length r)") (auto dest: decodeDataRecord_progress)

declare scanDataLoop.simps [simp del]

definition scanDataFile :: "os_env \<Rightarrow> u64 \<Rightarrow> bool \<Rightarrow> world \<Rightarrow> world \<times> error option" where
  "scanDataFile os fileID allowTailTruncate w =
     (case open_existing os (dataFilePath fileID) (snd w) of
        Inl e \<Rightarrow> (w, Some e)
      | Inr b \<Rightarrow> scanDataLoop os fileID allowTailTruncate b 0 0 w)"

section \<open>Opening\<close>

definition defaultMaxDataFileSize :: int where
  "defaultMaxDataFileSize = 64 * 1024 * 1024"

text \<open>\<open>held\<close>: some other descriptor holds the \<open>flock\<close> on the lock file.\<close>

definition acquireWriterLock :: "os_env \<Rightarrow> bool \<Rightarrow> world \<Rightarrow> world \<times> error option" where
  "acquireWriterLock os held w =
     (case w of (db, d) \<Rightarrow>
      case open_create os writerLockFileName d of
        Inl e \<Rightarrow> ((db, d), Some e)
      | Inr d \<Rightarrow>
          if held then ((db, d), Some ErrWriterLocked)
          else if fails os SFlock then ((db, d), Some OSError)
          else ((db\<lparr>lockFile := True\<rparr>, d), None))"

fun openScan :: "os_env \<Rightarrow> bool \<Rightarrow> u64 list \<Rightarrow> world \<Rightarrow> world \<times> error option" where
  "openScan os rw [] w = (w, None)"
| "openScan os rw (fid # fids) w =
     (if fid = activeFileID (fst w)
      then (case scanDataFile os fid rw w of
              (w, Some e) \<Rightarrow> (w, Some e)
            | (w, None) \<Rightarrow> openScan os rw fids w)
      else (case scanHintFile os fid w of
              (w, None) \<Rightarrow> openScan os rw fids w
            | (w, Some _) \<Rightarrow>
                (case scanDataFile os fid False w of
                   (w, Some e) \<Rightarrow> (w, Some e)
                 | (w, None) \<Rightarrow> openScan os rw fids w)))"

definition newDB :: "OpenOptions \<Rightarrow> DB" where
  "newDB opts0 = \<lparr>opts = opts0, keydir = [], activeFile = None, activeFileID = 0, activeOffset = 0,
              nextFileID = 0, readers = [], lockFile = False, closed = False\<rparr>"

text \<open>
  The result of a failed open is the error alone: the lock is released and the \<open>DB\<close> value dropped, but
  the directory keeps what was done to it.
\<close>

definition OpenWithOptions :: "os_env \<Rightarrow> bool \<Rightarrow> OpenOptions \<Rightarrow> dir \<Rightarrow> dir \<times> DB result" where
  "OpenWithOptions os held opts0 d =
     (let opts0 = (if MaxDataFileSizeBytes opts0 \<le> 0 then opts0\<lparr>MaxDataFileSizeBytes := defaultMaxDataFileSize\<rparr> else opts0);
          rw = ReadWrite opts0
      in if (if rw then fails os SMkdirAll else fails os (SStat ''.'')) then (d, Inl OSError)
         else
           case validateLayout os rw d of
             (d, Some e) \<Rightarrow> (d, Inl e)
           | (d, None) \<Rightarrow>
               (case (if rw then acquireWriterLock os held (newDB opts0, d) else ((newDB opts0, d), None)) of
                  ((db, d), Some e) \<Rightarrow> (d, Inl e)
                | ((db, d), None) \<Rightarrow>
                    (case listDataFileIDs os d of
                       Inl e \<Rightarrow> (d, Inl e)
                     | Inr [] \<Rightarrow>
                         if rw then
                           (case createNewActiveFile os 1 (db, d) of
                              ((db, d), Some e) \<Rightarrow> (d, Inl e)
                            | ((db, d), None) \<Rightarrow> (d, Inr (db\<lparr>nextFileID := 2\<rparr>)))
                         else (d, Inr db)
                     | Inr ids \<Rightarrow>
                         let active = last ids;
                             db = db\<lparr>activeFileID := active, nextFileID := active + 1\<rparr>
                         in case openScan os rw ids (db, d) of
                              ((db, d), Some e) \<Rightarrow> (d, Inl e)
                            | ((db, d), None) \<Rightarrow>
                                if rw then
                                  (case open_existing os (dataFilePath active) d of
                                     Inl e \<Rightarrow> (d, Inl e)
                                   | Inr b \<Rightarrow>
                                       if fails os (SStat (dataFilePath active)) then (d, Inl OSError)
                                       else (d, Inr (db\<lparr>activeFile := Some (dataFilePath active),
                                                        activeOffset := int (length b)\<rparr>)))
                                else (d, Inr db))))"

definition DB_Open :: "os_env \<Rightarrow> bool \<Rightarrow> dir \<Rightarrow> dir \<times> DB result" where
  "DB_Open os held d = OpenWithOptions os held \<lparr>ReadWrite = True, SyncOnPut = False, MaxDataFileSizeBytes = 0\<rparr> d"

definition OpenReadOnly :: "os_env \<Rightarrow> bool \<Rightarrow> dir \<Rightarrow> dir \<times> DB result" where
  "OpenReadOnly os held d = OpenWithOptions os held \<lparr>ReadWrite = False, SyncOnPut = False, MaxDataFileSizeBytes = 0\<rparr> d"

end
