(* ===== verification/Replay.thy ===== *)
theory Replay
  imports Recovery
begin

text \<open>
  The scan of a directory as a replay of records: \<open>applyKeydirUpdate\<close> keeps the newest record of a key,
  so scanning whole records in the order they were written sets and deletes each key in that order.
  A hint file replays to the same index as the data file it was written from.
\<close>

section \<open>The order of index entries\<close>

lemma shouldReplace_irrefl: "\<not> shouldReplace e e"
  by (simp add: shouldReplace_def)

lemma shouldReplace_trans: "shouldReplace a b \<Longrightarrow> shouldReplace b c \<Longrightarrow> shouldReplace a c"
  by (auto simp: shouldReplace_def split: if_splits)

lemma shouldReplace_total:
  "shouldReplace a b \<or> shouldReplace b a \<or> TimeStamp a = TimeStamp b \<and> FileID a = FileID b \<and> FileOffset a = FileOffset b"
  by (auto simp: shouldReplace_def)

section \<open>Replaying records\<close>

text \<open>A key, the entry of one of its records, and whether the record is a tombstone.\<close>

type_synonym update = "string \<times> KeyDirEntry \<times> bool"

fun replay_step :: "update \<Rightarrow> (string \<rightharpoonup> KeyDirEntry) \<Rightarrow> (string \<rightharpoonup> KeyDirEntry)" where
  "replay_step (k, e, tomb) m = m(k := if tomb then None else Some e)"

definition replay :: "update list \<Rightarrow> (string \<rightharpoonup> KeyDirEntry)" where
  "replay us = fold replay_step us Map.empty"

fun apply_update :: "update \<Rightarrow> DB \<Rightarrow> DB" where
  "apply_update (k, e, tomb) db = applyKeydirUpdate k e tomb db"

lemma map_of_applyKeydirUpdate:
  "map_of (keydir (applyKeydirUpdate k e tomb db)) =
     (if \<forall>c. map_of (keydir db) k = Some c \<longrightarrow> shouldReplace c e
      then replay_step (k, e, tomb) (map_of (keydir db)) else map_of (keydir db))"
  by (auto simp: applyKeydirUpdate_def Let_def update_conv' delete_conv' split: option.splits)

lemma applyKeydirUpdate_same [simp]:
  "opts (applyKeydirUpdate k e t db) = opts db" "activeFile (applyKeydirUpdate k e t db) = activeFile db"
  "activeFileID (applyKeydirUpdate k e t db) = activeFileID db" "activeOffset (applyKeydirUpdate k e t db) = activeOffset db"
  "nextFileID (applyKeydirUpdate k e t db) = nextFileID db" "closed (applyKeydirUpdate k e t db) = closed db"
  "readers (applyKeydirUpdate k e t db) = readers db" "lockFile (applyKeydirUpdate k e t db) = lockFile db"
  by (simp_all add: applyKeydirUpdate_def Let_def)

text \<open>
  When every update is newer than those before it for the same key, the comparison never rejects one.
\<close>

definition in_order :: "update \<Rightarrow> update \<Rightarrow> bool" where
  "in_order u v \<longleftrightarrow> (fst u = fst v \<longrightarrow> shouldReplace (fst (snd u)) (fst (snd v)))"

lemma fold_updates:
  assumes "sorted_wrt in_order us"
    and "\<forall>k c. map_of (keydir db) k = Some c \<longrightarrow> (\<forall>u \<in> set us. fst u = k \<longrightarrow> shouldReplace c (fst (snd u)))"
  shows "map_of (keydir (fold apply_update us db)) = fold replay_step us (map_of (keydir db))"
  using assms
proof (induction us arbitrary: db)
  case Nil
  then show ?case by simp
next
  case (Cons u us)
  obtain k e t where u: "u = (k, e, t)" by (cases u)
  have m: "map_of (keydir (applyKeydirUpdate k e t db)) = (map_of (keydir db))(k := if t then None else Some e)"
    using Cons.prems(2) by (auto simp: u map_of_applyKeydirUpdate)
  have "map_of (keydir (fold apply_update us (apply_update u db))) = fold replay_step us (map_of (keydir (apply_update u db)))"
    by (rule Cons.IH) (use Cons.prems in \<open>auto simp: m u in_order_def split: if_splits\<close>)
  then show ?case by (simp add: m u)
qed

section \<open>The updates of a file\<close>

fun updates_of :: "u64 \<Rightarrow> int \<Rightarrow> decodedRecord list \<Rightarrow> update list" where
  "updates_of fid off [] = []"
| "updates_of fid off (rec # recs) =
     (dr_key rec, \<lparr>FileID = fid, FileOffset = off, RecordSize = word_of_nat (length (encodeRecord rec)),
                   TimeStamp = dr_timestamp rec\<rparr>, is_tombstone (dr_value rec))
     # updates_of fid (off + int (length (encodeRecord rec))) recs"

lemma updates_of_append:
  "updates_of fid off (recs @ recs') = updates_of fid off recs @ updates_of fid (off + int (length (encode_file recs))) recs'"
  by (induction recs arbitrary: off) (simp_all add: add.assoc)

lemma updates_of_entry: "u \<in> set (updates_of fid off recs) \<Longrightarrow> FileID (fst (snd u)) = fid \<and> off \<le> FileOffset (fst (snd u))"
  by (induction recs arbitrary: off) fastforce+

lemma updates_of_record:
  "u \<in> set (updates_of fid off recs) \<Longrightarrow> \<exists>r \<in> set recs. dr_key r = fst u \<and> dr_timestamp r = TimeStamp (fst (snd u))"
  by (induction recs arbitrary: off) fastforce+

definition key_clock :: "decodedRecord \<Rightarrow> decodedRecord \<Rightarrow> bool" where
  "key_clock r r' \<longleftrightarrow> (dr_key r = dr_key r' \<longrightarrow> dr_timestamp r \<le> dr_timestamp r')"

lemma updates_of_sorted:
  "sorted_wrt key_clock recs \<Longrightarrow> sorted_wrt in_order (updates_of fid off recs)"
proof (induction recs arbitrary: off)
  case (Cons rec recs)
  let ?off = "off + int (length (encodeRecord rec))"
  have "in_order (dr_key rec, \<lparr>FileID = fid, FileOffset = off, RecordSize = word_of_nat (length (encodeRecord rec)),
      TimeStamp = dr_timestamp rec\<rparr>, t) u" if u: "u \<in> set (updates_of fid ?off recs)" for u t
  proof -
    obtain r where "r \<in> set recs" "dr_key r = fst u" "dr_timestamp r = TimeStamp (fst (snd u))"
      using updates_of_record [OF u] by blast
    then have "dr_key rec = fst u \<longrightarrow> dr_timestamp rec \<le> TimeStamp (fst (snd u))" using Cons.prems by (auto simp: key_clock_def)
    with updates_of_entry [OF u] show ?thesis by (auto simp: shouldReplace_def in_order_def)
  qed
  with Cons show ?case by auto
qed simp

text \<open>Scanning a file of whole records applies its updates; scanning its hint file applies the same ones.\<close>

lemma scanDataLoop_records:
  assumes "\<forall>rec \<in> set recs. record_ok rec"
  shows "scanDataLoop os fid a (encode_file recs) off off (db, d) = ((fold apply_update (updates_of fid off recs) db, d), None)"
  using assms
proof (induction recs arbitrary: off db)
  case Nil
  then show ?case by (simp add: scanDataLoop.simps)
next
  case (Cons rec recs)
  then show ?case by (subst scanDataLoop.simps) (simp add: Let_def add.assoc)
qed

definition record_fits :: "decodedRecord \<Rightarrow> bool" where
  "record_fits rec \<longleftrightarrow> record_ok rec \<and> length (encodeRecord rec) < 2 ^ 32"

lemma record_fits_ok: "record_fits rec \<Longrightarrow> record_ok rec"
  by (simp add: record_fits_def)

lemma scanHintLoop_records:
  assumes "\<forall>rec \<in> set recs. record_fits rec" "0 \<le> off" "off + int (length (encode_file recs)) < 2 ^ 63"
  shows "scanHintLoop fid (encode_hints (hints_of off recs)) db = (fold apply_update (updates_of fid off recs) db, None)"
  using assms
proof (induction recs arbitrary: off db)
  case Nil
  then show ?case by (simp add: scanHintLoop.simps encode_hints_def)
next
  case (Cons rec recs)
  have "hint_encodable (hint_of off rec)"
    using Cons.prems by (simp add: hint_encodable_def hint_of_def record_fits_def record_ok_def encodable_def is_int64_def)
  then have "decodeHintRecord (encodeHintRecord (hint_of off rec) @ rest) = Inr (hint_of off rec, 25 + length (dr_key rec), rest)" for rest
    using hint_codec.dec_enc [of "hint_of off rec" rest] by (simp add: hint_of_def)
  with Cons show ?case
    by (subst scanHintLoop.simps) (simp add: encode_hints_def Let_def hint_of_def)
qed

section \<open>Directories the engine writes\<close>

type_synonym layout = "(u64 \<times> decodedRecord list) list"

definition all_updates :: "layout \<Rightarrow> update list" where
  "all_updates fs = concat (map (\<lambda>(fid, recs). updates_of fid 0 recs) fs)"

definition all_records :: "layout \<Rightarrow> decodedRecord list" where
  "all_records fs = concat (map snd fs)"

lemma all_updates_simps [simp]:
  "all_updates [] = []" "all_updates ((fid, recs) # fs) = updates_of fid 0 recs @ all_updates fs"
  "all_updates (fs @ gs) = all_updates fs @ all_updates gs"
  by (simp_all add: all_updates_def)

lemma all_records_simps [simp]:
  "all_records [] = []" "all_records ((fid, recs) # fs) = recs @ all_records fs"
  "all_records (fs @ gs) = all_records fs @ all_records gs"
  by (simp_all add: all_records_def)

lemma all_updates_entry:
  assumes "u \<in> set (all_updates fs)"
  shows "FileID (fst (snd u)) \<in> fst ` set fs"
    "\<exists>r \<in> set (all_records fs). dr_key r = fst u \<and> dr_timestamp r = TimeStamp (fst (snd u))"
proof -
  obtain fid recs where f: "(fid, recs) \<in> set fs" and u: "u \<in> set (updates_of fid 0 recs)"
    using assms by (auto simp: all_updates_def)
  show "FileID (fst (snd u)) \<in> fst ` set fs" using f updates_of_entry [OF u] by force
  show "\<exists>r \<in> set (all_records fs). dr_key r = fst u \<and> dr_timestamp r = TimeStamp (fst (snd u))"
    using f updates_of_record [OF u] by (force simp: all_records_def)
qed

lemma all_updates_sorted:
  assumes "sorted_wrt (<) (map fst fs)" "sorted_wrt key_clock (all_records fs)"
  shows "sorted_wrt in_order (all_updates fs)"
  using assms
proof (induction fs)
  case (Cons f fs)
  obtain fid recs where f: "f = (fid, recs)" by (cases f)
  have "in_order u v" if u: "u \<in> set (updates_of fid 0 recs)" and v: "v \<in> set (all_updates fs)" for u v
  proof -
    obtain r r' where "r \<in> set recs" "dr_key r = fst u" "dr_timestamp r = TimeStamp (fst (snd u))"
      "r' \<in> set (all_records fs)" "dr_key r' = fst v" "dr_timestamp r' = TimeStamp (fst (snd v))"
      using updates_of_record [OF u] all_updates_entry(2) [OF v] by blast
    moreover have "\<forall>x \<in> set recs. \<forall>y \<in> set (all_records fs). key_clock x y"
      using Cons.prems(2) by (simp add: f sorted_wrt_append)
    ultimately have "fst u = fst v \<longrightarrow> TimeStamp (fst (snd u)) \<le> TimeStamp (fst (snd v))"
      unfolding key_clock_def by metis
    moreover have "FileID (fst (snd u)) < FileID (fst (snd v))"
      using all_updates_entry(1) [OF v] updates_of_entry [OF u] Cons.prems(1) by (fastforce simp: f)
    ultimately show ?thesis by (auto simp: shouldReplace_def in_order_def)
  qed
  moreover have "sorted_wrt in_order (updates_of fid 0 recs)"
    using Cons.prems(2) by (intro updates_of_sorted) (simp add: f sorted_wrt_append)
  ultimately show ?case using Cons by (auto simp: f sorted_wrt_append)
qed simp

definition file_ok :: "decodedRecord list \<Rightarrow> bool" where
  "file_ok recs \<longleftrightarrow> (\<forall>rec \<in> set recs. record_fits rec) \<and> int (length (encode_file recs)) < 2 ^ 63"

definition hint_ok :: "dir \<Rightarrow> u64 \<Rightarrow> decodedRecord list \<Rightarrow> bool" where
  "hint_ok d fid recs \<longleftrightarrow> file_of d (hintFilePath fid) = None
     \<or> file_of d (hintFilePath fid) = Some (encode_hints (hints_of 0 recs))"

lemma scan_file:
  assumes "file_of d (dataFilePath fid) = Some (encode_file recs)" "file_ok recs"
  shows "scanDataFile no_faults fid a (db, d) = ((fold apply_update (updates_of fid 0 recs) db, d), None)"
  using assms by (simp add: scanDataFile_def open_existing_def scanDataLoop_records file_ok_def record_fits_def)

lemma activeFileID_updates [simp]: "activeFileID (fold apply_update us db) = activeFileID db"
  by (induction us arbitrary: db) auto

text \<open>A hint file gives the same index as the data file it describes.\<close>

lemma scan_hint:
  assumes "file_of d (hintFilePath fid) = Some (encode_hints (hints_of 0 recs))" "file_ok recs"
  shows "scanHintFile no_faults fid (db, d) = ((fold apply_update (updates_of fid 0 recs) db, d), None)"
  using assms by (simp add: scanHintFile_def open_existing_def scanHintLoop_records file_ok_def)

lemma openScan_records:
  assumes "\<forall>(fid, recs) \<in> set fs. file_of d (dataFilePath fid) = Some (encode_file recs) \<and> file_ok recs
      \<and> (fid \<noteq> activeFileID db \<longrightarrow> hint_ok d fid recs)"
  shows "openScan no_faults rw (map fst fs) (db, d) = ((fold apply_update (all_updates fs) db, d), None)"
  using assms
proof (induction fs arbitrary: db)
  case (Cons f fs)
  obtain fid recs where f: "f = (fid, recs)" by (cases f)
  have h: "file_of d (dataFilePath fid) = Some (encode_file recs)" "file_ok recs"
    "fid \<noteq> activeFileID db \<Longrightarrow> hint_ok d fid recs" using Cons.prems by (auto simp: f)
  have "scanHintFile no_faults fid (db, d) = ((db, d), Some OSError)" if "file_of d (hintFilePath fid) = None"
    using that by (simp add: scanHintFile_def open_existing_def)
  moreover have "openScan no_faults rw (map fst fs) (fold apply_update (updates_of fid 0 recs) db, d)
      = ((fold apply_update (all_updates fs) (fold apply_update (updates_of fid 0 recs) db), d), None)"
    using Cons.prems by (intro Cons.IH) (auto simp: f)
  ultimately show ?case
    using h scan_file [OF h(1,2)] scan_hint [OF _ h(2)] by (auto simp: f hint_ok_def)
qed simp

end
