(* ===== verification/Layout.thy ===== *)
theory Layout
  imports Replay
begin

text \<open>
  The directories the engine writes, described by a list of files with their records, and what
  \<open>OpenWithOptions\<close> does on such a directory.
\<close>

section \<open>Names\<close>

lemma HasSuffix_last: "HasSuffix s suf \<Longrightarrow> suf \<noteq> [] \<Longrightarrow> last s = last suf"
  by (metis HasSuffix_def last_drop length_0_conv diff_less length_greater_0_conv order_less_le_trans)

lemma last_names [simp]:
  "last (dataFilePath i) = CHR ''a''" "last (hintFilePath i) = CHR ''t''" "last writerLockFileName = CHR ''k''"
  by (simp_all add: dataFilePath_def hintFilePath_def name_defs)

lemma suffix_names [simp]:
  "HasSuffix (dataFilePath i) dataFileExtension" "HasSuffix (hintFilePath i) hintFileExtension"
  "\<not> HasSuffix (dataFilePath i) tmpFileSuffix" "\<not> HasSuffix (hintFilePath i) tmpFileSuffix"
  "\<not> HasSuffix (hintFilePath i) dataFileExtension" "\<not> HasSuffix writerLockFileName tmpFileSuffix"
  "\<not> HasSuffix writerLockFileName dataFileExtension" "dataFilePath i \<noteq> writerLockFileName" "hintFilePath i \<noteq> writerLockFileName"
proof -
  show "HasSuffix (dataFilePath i) dataFileExtension" "HasSuffix (hintFilePath i) hintFileExtension"
    by (simp_all add: dataFilePath_def hintFilePath_def)
  show "\<not> HasSuffix (dataFilePath i) tmpFileSuffix" "\<not> HasSuffix (hintFilePath i) tmpFileSuffix"
    "\<not> HasSuffix (hintFilePath i) dataFileExtension" "\<not> HasSuffix writerLockFileName tmpFileSuffix"
    "\<not> HasSuffix writerLockFileName dataFileExtension"
    using HasSuffix_last [of "dataFilePath i" tmpFileSuffix] HasSuffix_last [of "hintFilePath i" tmpFileSuffix]
      HasSuffix_last [of "hintFilePath i" dataFileExtension] HasSuffix_last [of writerLockFileName tmpFileSuffix]
      HasSuffix_last [of writerLockFileName dataFileExtension] last_names
    by (auto simp: tmpFileSuffix_def dataFileExtension_def)
  have "CHR ''a'' \<noteq> CHR ''k''" "CHR ''t'' \<noteq> CHR ''k''" by simp_all
  then show "dataFilePath i \<noteq> writerLockFileName" "hintFilePath i \<noteq> writerLockFileName"
    using last_names by metis+
qed

lemma tmp_suffix_cases: "HasSuffix n tmpFileSuffix \<Longrightarrow> parseFileID n dataFileExtension = None"
  using HasSuffix_last [of n tmpFileSuffix] HasSuffix_last [of n dataFileExtension]
  by (auto simp: parseFileID_def tmpFileSuffix_def dataFileExtension_def)

lemma parse_other [simp]:
  "parseFileID (hintFilePath i) dataFileExtension = None" "parseFileID writerLockFileName dataFileExtension = None"
  by (simp_all add: parseFileID_def)

text \<open>The entries of a directory the engine has written; leftovers of a crash end in \<open>.tmp\<close>.\<close>

definition canonical :: "dir \<Rightarrow> string \<Rightarrow> bool" where
  "canonical d n \<longleftrightarrow> is_dir d n \<or> n = writerLockFileName \<or> HasSuffix n tmpFileSuffix
     \<or> (\<exists>fid. n = dataFilePath fid) \<or> (\<exists>fid. n = hintFilePath fid)"

definition is_tmp :: "dir \<Rightarrow> string \<Rightarrow> bool" where
  "is_tmp d n \<longleftrightarrow> HasSuffix n tmpFileSuffix \<and> \<not> is_dir d n"

lemma canonical_cong: "map_of e n = map_of d n \<Longrightarrow> canonical e n = canonical d n"
  by (simp add: canonical_def is_dir_def)

lemma is_tmp_cong: "map_of e n = map_of d n \<Longrightarrow> is_tmp e n = is_tmp d n"
  by (simp add: is_tmp_def is_dir_def)

lemma map_of_remove_file: "map_of (remove_file n d) = (if is_dir d n then map_of d else (map_of d)(n := None))"
  by (simp add: remove_file_def delete_conv')

lemma validateEntries_canonical:
  assumes "\<forall>n \<in> set names. canonical d n" "distinct names"
  shows "\<exists>d'. validateEntries True names d = (d', None)
    \<and> map_of d' = (\<lambda>n. if n \<in> set names \<and> is_tmp d n then None else map_of d n)"
  using assms
proof (induction names arbitrary: d)
  case (Cons n names)
  have step: "\<exists>d'. validateEntries True names e = (d', None)
      \<and> map_of d' = (\<lambda>m. if m \<in> set names \<and> is_tmp e m then None else map_of e m)"
    if e: "\<And>m. m \<noteq> n \<Longrightarrow> map_of e m = map_of d m" for e
  proof (rule Cons.IH)
    show "\<forall>m \<in> set names. canonical e m"
    proof
      fix m assume m: "m \<in> set names"
      then have "m \<noteq> n" using Cons.prems(2) by auto
      then show "canonical e m" using m Cons.prems(1) canonical_cong [OF e] by simp
    qed
  qed (use Cons.prems(2) in simp)
  have n: "canonical d n" "n \<notin> set names" using Cons.prems by auto
  show ?case
  proof (cases "is_tmp d n")
    case True
    then have "n \<noteq> writerLockFileName" by (auto simp: is_tmp_def)
    moreover have m: "map_of (remove_file n d) = (map_of d)(n := None)"
      using True by (simp add: map_of_remove_file is_tmp_def)
    then obtain d' where v: "validateEntries True names (remove_file n d) = (d', None)"
      "map_of d' = (\<lambda>m. if m \<in> set names \<and> is_tmp (remove_file n d) m then None else map_of (remove_file n d) m)"
      using step [of "remove_file n d"] by auto
    moreover have "is_tmp (remove_file n d) m = is_tmp d m" if "m \<noteq> n" for m
      using that by (intro is_tmp_cong) (simp add: m)
    then have "map_of d' = (\<lambda>m. if m \<in> set (n # names) \<and> is_tmp d m then None else map_of d m)"
      using True n(2) by (auto simp: v(2) m fun_eq_iff)
    ultimately show ?thesis using True by (auto simp: is_tmp_def)
  next
    case False
    then have "validateEntries True (n # names) d = validateEntries True names d"
      using n(1) by (auto simp: canonical_def is_tmp_def)
    moreover obtain d' where "validateEntries True names d = (d', None)"
      "map_of d' = (\<lambda>m. if m \<in> set names \<and> is_tmp d m then None else map_of d m)"
      using step [of d] by auto
    ultimately show ?thesis using False by (auto simp: fun_eq_iff)
  qed
qed (simp add: fun_eq_iff)

lemma validateLayout_canonical:
  assumes "\<forall>n. map_of d n \<noteq> None \<longrightarrow> canonical d n"
  shows "\<exists>d'. validateLayout no_faults True d = (d', None)
    \<and> map_of d' = (\<lambda>n. if is_tmp d n then None else map_of d n)"
proof -
  have names: "n \<in> set (ReadDir d) \<longleftrightarrow> map_of d n \<noteq> None" for n by (simp add: map_of_eq_None_iff)
  obtain d' where "validateEntries True (ReadDir d) d = (d', None)"
    "map_of d' = (\<lambda>n. if n \<in> set (ReadDir d) \<and> is_tmp d n then None else map_of d n)"
    using validateEntries_canonical [OF _ distinct_ReadDir, of d d] assms names by blast
  then show ?thesis by (auto simp: validateLayout_def fun_eq_iff map_of_eq_None_iff)
qed

lemma file_of_None_iff: "\<not> is_dir d n \<Longrightarrow> file_of d n = None \<longleftrightarrow> map_of d n = None"
  by (auto simp: file_of_def is_dir_def split: option.splits dirent.splits)

lemma in_map_filter: "y \<in> set (List.map_filter f xs) \<longleftrightarrow> (\<exists>x \<in> set xs. f x = Some y)"
  by (induction xs) (auto simp: map_filter_simps split: option.splits)

lemma distinct_map_filter:
  assumes "distinct xs" "\<And>x y z. x \<in> set xs \<Longrightarrow> y \<in> set xs \<Longrightarrow> f x = Some z \<Longrightarrow> f y = Some z \<Longrightarrow> x = y"
  shows "distinct (List.map_filter f xs)"
  using assms
proof (induction xs)
  case (Cons x xs)
  have IH: "distinct (List.map_filter f xs)" using Cons.prems by (intro Cons.IH) auto
  show ?case
  proof (cases "f x")
    case None
    then show ?thesis using IH by (simp add: map_filter_simps)
  next
    case (Some z)
    have "z \<notin> set (List.map_filter f xs)"
    proof
      assume "z \<in> set (List.map_filter f xs)"
      then obtain y where "y \<in> set xs" "f y = Some z" by (auto simp: in_map_filter)
      then have "x = y" using Cons.prems(2) [of x y z] Some by simp
      with \<open>y \<in> set xs\<close> Cons.prems(1) show False by simp
    qed
    with Some IH show ?thesis by (simp add: map_filter_simps)
  qed
qed (simp add: map_filter_simps)

lemma listDataFileIDs_canonical:
  assumes can: "\<forall>n. map_of d n \<noteq> None \<longrightarrow> canonical d n" and nf: "names_free d"
    and ids: "sorted_wrt (<) ids" "\<And>fid. fid \<in> set ids \<longleftrightarrow> file_of d (dataFilePath fid) \<noteq> None"
  shows "listDataFileIDs no_faults d = Inr ids"
proof -
  let ?f = "\<lambda>n. if is_dir d n then None else parseFileID n dataFileExtension"
  let ?l = "List.map_filter ?f (ReadDir d)"
  have names: "n \<in> set (ReadDir d) \<longleftrightarrow> map_of d n \<noteq> None" for n by (simp add: map_of_eq_None_iff)
  have inj: "n = dataFilePath fid" if "n \<in> set (ReadDir d)" "?f n = Some fid" for n fid
  proof -
    have "canonical d n" using can that(1) names by blast
    then show ?thesis using that(2) tmp_suffix_cases [of n] by (auto simp: canonical_def split: if_splits)
  qed
  have "distinct ?l"
    by (rule distinct_map_filter [OF distinct_ReadDir]) (blast dest: inj)
  moreover have "fid \<in> set ?l \<longleftrightarrow> fid \<in> set ids" for fid
  proof -
    have "\<not> is_dir d (dataFilePath fid)" using nf by (simp add: names_free_def)
    then have "file_of d (dataFilePath fid) \<noteq> None \<longleftrightarrow> dataFilePath fid \<in> set (ReadDir d)"
      unfolding names by (simp add: file_of_None_iff)
    moreover have "fid \<in> set ?l \<longleftrightarrow> dataFilePath fid \<in> set (ReadDir d)"
      unfolding in_map_filter using inj \<open>\<not> is_dir d (dataFilePath fid)\<close> by (metis parseFileID_dataFilePath)
    ultimately show ?thesis using ids(2) by blast
  qed
  then have "set (sort ?l) = set ids" by auto
  ultimately have "sort ?l = ids"
    using ids(1) by (intro sorted_distinct_set_unique) (auto simp: strict_sorted_iff)
  then show ?thesis by (simp add: listDataFileIDs_def)
qed

section \<open>Open\<close>

definition describes :: "layout \<Rightarrow> dir \<Rightarrow> bool" where
  "describes fs d \<longleftrightarrow> fs \<noteq> [] \<and> sorted_wrt (<) (map fst fs) \<and> names_free d \<and> \<not> is_dir d writerLockFileName
     \<and> (\<forall>n. map_of d n \<noteq> None \<longrightarrow> canonical d n)
     \<and> (\<forall>fid. file_of d (dataFilePath fid) = map_option encode_file (map_of fs fid))
     \<and> (\<forall>(fid, recs) \<in> set fs. file_ok recs)
     \<and> (\<forall>(fid, recs) \<in> set (butlast fs). hint_ok d fid recs)"

definition clocked :: "layout \<Rightarrow> bool" where
  "clocked fs \<longleftrightarrow> sorted_wrt key_clock (all_records fs)"

lemma replay_snoc: "replay (us @ [u]) = replay_step u (replay us)"
  by (simp add: replay_def)

lemma replay_in: "replay us k = Some e \<Longrightarrow> (k, e, False) \<in> set us"
proof (induction us rule: rev_induct)
  case (snoc u us)
  obtain k' e' t where "u = (k', e', t)" by (cases u)
  with snoc show ?case by (auto simp: replay_snoc split: if_splits)
qed (simp add: replay_def)

lemma updates_of_split:
  assumes "(k, e, t) \<in> set (updates_of fid off recs)"
  shows "\<exists>pre rec post. recs = pre @ rec # post \<and> k = dr_key rec \<and> t = is_tombstone (dr_value rec)
    \<and> e = \<lparr>FileID = fid, FileOffset = off + int (length (encode_file pre)),
           RecordSize = word_of_nat (length (encodeRecord rec)), TimeStamp = dr_timestamp rec\<rparr>"
  using assms
proof (induction recs arbitrary: off)
  case (Cons r recs)
  show ?case
  proof (cases "(k, e, t) \<in> set (updates_of fid (off + int (length (encodeRecord r))) recs)")
    case True
    then obtain pre rec post where "recs = pre @ rec # post" "k = dr_key rec" "t = is_tombstone (dr_value rec)"
      "e = \<lparr>FileID = fid, FileOffset = off + int (length (encodeRecord r)) + int (length (encode_file pre)),
           RecordSize = word_of_nat (length (encodeRecord rec)), TimeStamp = dr_timestamp rec\<rparr>"
      using Cons.IH by blast
    then show ?thesis by (intro exI [of _ "r # pre"] exI [of _ rec] exI [of _ post]) simp
  next
    case False
    then show ?thesis using Cons.prems by (intro exI [of _ "[]"] exI [of _ r] exI [of _ recs]) simp
  qed
qed simp

lemma sorted_distinct_fst: "sorted_wrt (<) (map fst fs) \<Longrightarrow> distinct (map fst (fs :: layout))"
  by (simp add: strict_sorted_iff)

lemma update_entry_record:
  assumes D: "describes fs d" and u: "(k, e, False) \<in> set (all_updates fs)"
  shows "\<exists>rec \<in> set (all_records fs). entry_at d e rec \<and> dr_key rec = k \<and> \<not> is_tombstone (dr_value rec)"
proof -
  from u obtain fid recs where f: "(fid, recs) \<in> set fs" and u: "(k, e, False) \<in> set (updates_of fid 0 recs)"
    by (auto simp: all_updates_def)
  have m: "map_of fs fid = Some recs" using f D by (simp add: describes_def sorted_distinct_fst)
  obtain pre rec post where r: "recs = pre @ rec # post" "k = dr_key rec" "\<not> is_tombstone (dr_value rec)"
    "e = \<lparr>FileID = fid, FileOffset = int (length (encode_file pre)),
           RecordSize = word_of_nat (length (encodeRecord rec)), TimeStamp = dr_timestamp rec\<rparr>"
    using updates_of_split [OF u] by auto
  have "record_fits rec" using D f r(1) by (auto simp: describes_def file_ok_def)
  moreover have "file_of d (dataFilePath fid) = Some (encode_file pre @ encodeRecord rec @ encode_file post)"
    using D m r(1) by (simp add: describes_def)
  ultimately have "entry_at d e rec" unfolding entry_at_def r(4) record_fits_def by auto
  moreover have "rec \<in> set (all_records fs)" using f r(1) by (force simp: all_records_def)
  ultimately show ?thesis using r(2,3) by blast
qed

lemma update_entry_ok:
  assumes "describes fs d" "(k, e, False) \<in> set (all_updates fs)"
  shows "entry_ok d k e"
  using update_entry_record [OF assms] by (auto simp: entry_ok_def)

lemma describes_cong:
  assumes D: "describes fs d"
    and m: "\<And>fid. map_of d' (dataFilePath fid) = map_of d (dataFilePath fid)"
      "\<And>fid. map_of d' (hintFilePath fid) = map_of d (hintFilePath fid)"
      "\<And>n. map_of d' n = map_of d n \<or> map_of d' n = None \<or> n = writerLockFileName \<and> (\<exists>b. map_of d' n = Some (File b))"
  shows "describes fs d'"
proof -
  have "file_of d' (dataFilePath fid) = file_of d (dataFilePath fid)" "file_of d' (hintFilePath fid) = file_of d (hintFilePath fid)" for fid
    using m by (simp_all add: file_of_def)
  moreover have "names_free d'" unfolding names_free_def is_dir_def
    using D m(3) by (metis describes_def names_free_def is_dir_def option.discI m(1,2) tmp_names suffix_names(8,9) dirent.distinct(1) option.inject)
  moreover have "canonical d' n" if n: "map_of d' n \<noteq> None" for n
  proof (cases "n = writerLockFileName")
    case True
    then show ?thesis by (simp add: canonical_def)
  next
    case False
    then have eq: "map_of d' n = map_of d n" using m(3) [of n] n by auto
    have "\<forall>n. map_of d n \<noteq> None \<longrightarrow> canonical d n" using D by (simp add: describes_def)
    then show ?thesis using n unfolding eq canonical_cong [OF eq] by blast
  qed
  moreover have "\<not> is_dir d' writerLockFileName" using D m(3) [of writerLockFileName] by (auto simp: describes_def is_dir_def)
  ultimately show ?thesis using D unfolding describes_def hint_ok_def by simp
qed

lemma sorted_last: "sorted xs \<Longrightarrow> x \<in> set xs \<Longrightarrow> x \<le> last xs"
  by (induction xs) auto

lemma db_inv_described:
  assumes D: "describes fs d" and k: "map_of (keydir db) = replay (all_updates fs)"
    and db: "\<not> closed db" "ReadWrite (opts db)" "activeFileID db = fst (last fs)" "nextFileID db = fst (last fs) + 1"
      "activeFile db = Some (dataFilePath (fst (last fs)))"
      "activeOffset db = int (length (encode_file (snd (last fs))))"
    and nw: "fst (last fs) \<noteq> max_id"
  shows "db_inv db d"
proof -
  have fs: "fs \<noteq> []" "distinct (map fst fs)" "sorted_wrt (<) (map fst fs)"
    using D by (simp_all add: describes_def sorted_distinct_fst)
  have m: "map_of fs (fst (last fs)) = Some (snd (last fs))" using fs by simp
  have "file_ok (snd (last fs))" using D last_in_set [OF fs(1)] by (simp add: describes_def case_prod_beta)
  then have "active_ok db d"
    unfolding active_ok_def db using D m
    by (auto simp: describes_def file_ok_def record_fits_def intro!: exI [of _ "snd (last fs)"])
  moreover have "ids_fresh db d"
  proof -
    have lt: "fst (last fs) < fst (last fs) + 1" by (rule less_add_1 [OF nw])
    have "fid \<le> fst (last fs)" if "map_of d (dataFilePath fid) \<noteq> None" for fid
    proof -
      have "\<not> is_dir d (dataFilePath fid)" using D by (simp add: describes_def names_free_def)
      with that have "file_of d (dataFilePath fid) \<noteq> None" by (simp add: file_of_None_iff)
      then have "map_of fs fid \<noteq> None" using D by (auto simp: describes_def)
      then have "fid \<in> set (map fst fs)" by (simp add: map_of_eq_None_iff)
      then have "fid \<le> last (map fst fs)" using fs(3) by (simp add: strict_sorted_iff sorted_last)
      then show ?thesis using fs(1) by (simp add: last_map)
    qed
    then show ?thesis using lt db by (force simp: ids_fresh_def)
  qed
  moreover have "entry_ok d k e" if "map_of (keydir db) k = Some e" for k e
    using that update_entry_ok [OF D replay_in] by (simp add: k)
  ultimately show ?thesis using D db by (simp add: db_inv_def describes_def)
qed

lemma fold_updates_same [simp]:
  "opts (fold apply_update us db) = opts db" "activeFile (fold apply_update us db) = activeFile db"
  "nextFileID (fold apply_update us db) = nextFileID db" "closed (fold apply_update us db) = closed db"
  "lockFile (fold apply_update us db) = lockFile db"
  by (induction us arbitrary: db; force)+

lemma replay_scan:
  assumes "sorted_wrt (<) (map fst fs)" "clocked fs" "keydir db = []"
  shows "map_of (keydir (fold apply_update (all_updates fs) db)) = replay (all_updates fs)"
  using fold_updates [OF all_updates_sorted, of fs db] assms by (simp add: clocked_def replay_def)

definition normal_opts :: "OpenOptions \<Rightarrow> OpenOptions" where
  "normal_opts opts0 = (if MaxDataFileSizeBytes opts0 \<le> 0 then opts0\<lparr>MaxDataFileSizeBytes := defaultMaxDataFileSize\<rparr> else opts0)"

lemma ReadWrite_normal_opts [simp]: "ReadWrite (normal_opts opts0) = ReadWrite opts0"
  by (simp add: normal_opts_def)

lemma newDB_simps [simp]:
  "opts (newDB opts0) = opts0" "keydir (newDB opts0) = []" "closed (newDB opts0) = False"
  by (simp_all add: newDB_def)

lemma files_of_described:
  assumes D: "describes fs d"
  shows "\<forall>(fid, recs) \<in> set fs. file_of d (dataFilePath fid) = Some (encode_file recs) \<and> file_ok recs
      \<and> (fid \<noteq> fst (last fs) \<longrightarrow> hint_ok d fid recs)"
proof clarify
  fix fid recs assume f: "(fid, recs) \<in> set fs"
  have "map_of fs fid = Some recs" using f D by (simp add: describes_def sorted_distinct_fst)
  then have "file_of d (dataFilePath fid) = Some (encode_file recs)" using D by (simp add: describes_def)
  moreover have "file_ok recs" using f D by (auto simp: describes_def)
  moreover have "hint_ok d fid recs" if "fid \<noteq> fst (last fs)"
  proof -
    have "(fid, recs) \<in> set (butlast fs)"
      using f that by (cases fs rule: rev_cases) auto
    then show ?thesis using D by (auto simp: describes_def)
  qed
  ultimately show "file_of d (dataFilePath fid) = Some (encode_file recs) \<and> file_ok recs
      \<and> (fid \<noteq> fst (last fs) \<longrightarrow> hint_ok d fid recs)" by blast
qed

end
