(* ===== verification/OpenLayout.thy ===== *)
theory OpenLayout
  imports Layout
begin

text \<open>
  What \<open>OpenWithOptions\<close> does on a directory the engine wrote: on whole records, and on a newest file
  whose last record was torn.
\<close>

lemma lock_name [simp]:
  "writerLockFileName \<noteq> dataFilePath i" "dataFilePath i \<noteq> writerLockFileName"
  "writerLockFileName \<noteq> hintFilePath i" "hintFilePath i \<noteq> writerLockFileName"
proof -
  have "CHR ''k'' \<noteq> CHR ''a''" "CHR ''k'' \<noteq> CHR ''t''" by simp_all
  then show "writerLockFileName \<noteq> dataFilePath i" "dataFilePath i \<noteq> writerLockFileName"
    "writerLockFileName \<noteq> hintFilePath i" "hintFilePath i \<noteq> writerLockFileName" by (metis last_names)+
qed

lemma openScan_append:
  "openScan os rw (xs @ ys) w =
     (case openScan os rw xs w of (w, Some e) \<Rightarrow> (w, Some e) | (w, None) \<Rightarrow> openScan os rw ys w)"
  by (induction xs arbitrary: w) (auto split: option.splits prod.splits)

lemma scanDataLoop_tail:
  assumes "\<forall>rec \<in> set recs. record_ok rec"
  shows "scanDataLoop os fid a (encode_file recs @ torn) off off (db, d)
    = scanDataLoop os fid a torn (off + int (length (encode_file recs))) (off + int (length (encode_file recs)))
        (fold apply_update (updates_of fid off recs) db, d)"
  using assms
proof (induction recs arbitrary: off db)
  case (Cons rec recs)
  then show ?case by (subst scanDataLoop.simps) (simp add: Let_def add.assoc)
qed simp

text \<open>A directory whose newest file ends in bytes that are not a whole record.\<close>

definition whole :: "layout \<Rightarrow> dir \<Rightarrow> dir" where
  "whole fs d = put_file (dataFilePath (fst (last fs))) (encode_file (snd (last fs))) d"

definition describes_tail :: "layout \<Rightarrow> byte list \<Rightarrow> dir \<Rightarrow> bool" where
  "describes_tail fs torn d \<longleftrightarrow> describes fs (whole fs d)
     \<and> file_of d (dataFilePath (fst (last fs))) = Some (encode_file (snd (last fs)) @ torn)"

lemma described_last:
  assumes "describes fs d"
  shows "file_of d (dataFilePath (fst (last fs))) = Some (encode_file (snd (last fs)))"
proof -
  have "map_of fs (fst (last fs)) = Some (snd (last fs))" using assms by (simp add: describes_def sorted_distinct_fst)
  then show ?thesis using assms by (simp add: describes_def)
qed

lemma describes_tail_Nil [simp]: "describes_tail fs [] d \<longleftrightarrow> describes fs d"
proof -
  have eq: "map_of (whole fs d) = map_of d" if "file_of d (dataFilePath (fst (last fs))) = Some (encode_file (snd (last fs)))"
    using that by (auto simp: whole_def file_of_map_of)
  show ?thesis
  proof
    assume "describes fs d"
    then show "describes_tail fs [] d" using described_last eq describes_cong [of fs d "whole fs d"] by (simp add: describes_tail_def)
  next
    assume "describes_tail fs [] d"
    then show "describes fs d" using eq describes_cong [of fs "whole fs d" d] by (simp add: describes_tail_def)
  qed
qed

lemma describes_tail_cong:
  assumes D: "describes_tail fs torn d"
    and m: "\<And>fid. map_of d' (dataFilePath fid) = map_of d (dataFilePath fid)"
      "\<And>fid. map_of d' (hintFilePath fid) = map_of d (hintFilePath fid)"
      "\<And>n. map_of d' n = map_of d n \<or> map_of d' n = None \<or> n = writerLockFileName \<and> (\<exists>b. map_of d' n = Some (File b))"
  shows "describes_tail fs torn d'"
proof -
  have "describes fs (whole fs d')"
    by (rule describes_cong [of fs "whole fs d"]) (use D m in \<open>auto simp: describes_tail_def whole_def\<close>)
  then show ?thesis using D m by (simp add: describes_tail_def file_of_def)
qed

lemma canonical_tail:
  assumes "describes_tail fs torn d" "map_of d n \<noteq> None"
  shows "canonical d n"
proof (cases "n = dataFilePath (fst (last fs))")
  case False
  then have eq: "map_of (whole fs d) n = map_of d n" by (simp add: whole_def)
  moreover have "\<forall>n. map_of (whole fs d) n \<noteq> None \<longrightarrow> canonical (whole fs d) n"
    using assms(1) unfolding describes_tail_def describes_def by blast
  ultimately show ?thesis using assms(2) canonical_cong [OF eq] by simp
qed (auto simp: canonical_def)

lemma openScan_tail:
  assumes D: "describes_tail fs torn d" and a: "activeFileID db = fst (last fs)" and e: "decodeDataRecord torn = Inl e" "e \<noteq> ErrCorruptData \<longrightarrow> isTailTruncationError e"
  shows "openScan no_faults True (map fst fs) (db, d)
    = ((fold apply_update (all_updates fs) db, if e = UnexpectedEOF then whole fs d else d), if e = ErrCorruptData then Some e else None)"
proof -
  obtain gs f recs where fs: "fs = gs @ [(f, recs)]" using D by (cases fs rule: rev_cases) (auto simp: describes_tail_def describes_def)
  have D': "describes fs (whole fs d)" using D by (simp add: describes_tail_def)
  have nf: "f \<notin> fst ` set gs" using D' by (auto simp: describes_def fs sorted_wrt_append)
  have h: "file_of d (dataFilePath fid) = Some (encode_file rs) \<and> file_ok rs \<and> hint_ok d fid rs" if "(fid, rs) \<in> set gs" for fid rs
  proof -
    have "fid \<noteq> f" using that nf by force
    then show ?thesis using files_of_described [OF D'] that by (auto simp: fs whole_def hint_ok_def)
  qed
  have "openScan no_faults True (map fst gs) (db, d) = ((fold apply_update (all_updates gs) db, d), None)"
    by (rule openScan_records) (use h in auto)
  moreover have ok: "\<forall>rec \<in> set recs. record_ok rec" using D' by (auto simp: fs describes_def file_ok_def record_fits_def)
  have "scanDataFile no_faults f True (db1, d)
     = ((fold apply_update (updates_of f 0 recs) db1, if e = UnexpectedEOF then whole fs d else d), if e = ErrCorruptData then Some e else None)" for db1
    using e D scanDataLoop_tail [OF ok, of no_faults f True torn 0 db1 d]
    by (auto simp: scanDataFile_def open_existing_def describes_tail_def fs scanDataLoop.simps [of _ _ _ torn]
        isTailTruncationError_def truncateTail_def whole_def)
  ultimately show ?thesis using a by (simp add: fs openScan_append)
qed

text \<open>The steps of a read-write open up to the scan.\<close>

definition cleaned :: "dir \<Rightarrow> dir \<Rightarrow> bool" where
  "cleaned d d' \<longleftrightarrow> (\<forall>n. n \<noteq> writerLockFileName \<longrightarrow> map_of d' n = (if is_tmp d n then None else map_of d n))"

definition openedDB :: "OpenOptions \<Rightarrow> layout \<Rightarrow> DB" where
  "openedDB opts0 fs = (newDB (normal_opts opts0))\<lparr>lockFile := True, activeFileID := fst (last fs), nextFileID := fst (last fs) + 1\<rparr>"

lemma lock_tail:
  assumes D: "describes_tail fs torn d"
  shows "\<exists>d1 d2. validateLayout no_faults True d = (d1, None) \<and> describes_tail fs torn d2 \<and> cleaned d d2
    \<and> acquireWriterLock no_faults False (db, d1) = ((db\<lparr>lockFile := True\<rparr>, d2), None)"
proof -
  have can: "\<forall>n. map_of d n \<noteq> None \<longrightarrow> canonical d n" using canonical_tail [OF D] by blast
  obtain d1 where d1: "validateLayout no_faults True d = (d1, None)" "map_of d1 = (\<lambda>n. if is_tmp d n then None else map_of d n)"
    using validateLayout_canonical [OF can] by blast
  define d2 where "d2 = (case file_of d1 writerLockFileName of None \<Rightarrow> put_file writerLockFileName [] d1 | Some _ \<Rightarrow> d1)"
  have "\<not> is_dir d writerLockFileName" using D by (simp add: describes_tail_def describes_def whole_def)
  then have "\<not> is_dir d1 writerLockFileName" by (auto simp: d1(2) is_dir_def is_tmp_def)
  then have lock: "acquireWriterLock no_faults False (db, d1) = ((db\<lparr>lockFile := True\<rparr>, d2), None)"
    by (auto simp: acquireWriterLock_def open_create_def d2_def split: option.splits)
  have m2: "map_of d2 n = (if is_tmp d n then None else map_of d n) \<or> n = writerLockFileName \<and> map_of d2 n = Some (File [])" for n
    by (auto simp: d2_def d1(2) split: option.splits)
  have "describes_tail fs torn d2"
    by (rule describes_tail_cong [OF D]) (use m2 in \<open>auto simp: is_tmp_def d2_def d1(2) split: option.splits\<close>)
  moreover have "cleaned d d2" using m2 unfolding cleaned_def by metis
  ultimately show ?thesis using d1(1) lock by blast
qed

lemma ids_tail:
  assumes D: "describes_tail fs torn d"
  shows "listDataFileIDs no_faults d = Inr (map fst fs)"
proof (rule listDataFileIDs_canonical)
  have W: "describes fs (whole fs d)" using D by (simp add: describes_tail_def)
  show "fid \<in> set (map fst fs) \<longleftrightarrow> file_of d (dataFilePath fid) \<noteq> None" for fid
  proof (cases "fid = fst (last fs)")
    case False
    then have "file_of d (dataFilePath fid) = file_of (whole fs d) (dataFilePath fid)" by (simp add: whole_def)
    then show ?thesis using W by (auto simp: describes_def map_of_eq_None_iff)
  qed (use D W in \<open>simp add: describes_tail_def describes_def\<close>)
  have "is_dir (whole fs d) n" if "is_dir d n" for n
    using that D not_is_dir_file [of d "dataFilePath (fst (last fs))"] by (auto simp: whole_def describes_tail_def)
  moreover have "names_free (whole fs d)" using W by (simp add: describes_def)
  ultimately show "names_free d" unfolding names_free_def by blast
  show "sorted_wrt (<) (map fst fs)" using W by (simp add: describes_def)
qed (use canonical_tail [OF D] in blast)

lemma open_until_scan:
  assumes D: "describes_tail fs torn d" and rw: "ReadWrite opts0"
  shows "\<exists>d2. describes_tail fs torn d2 \<and> cleaned d d2 \<and> OpenWithOptions no_faults False opts0 d =
    (case openScan no_faults True (map fst fs) (openedDB opts0 fs, d2) of
       ((db, d), Some e) \<Rightarrow> (d, Inl e)
     | ((db, d), None) \<Rightarrow>
         (case file_of d (dataFilePath (fst (last fs))) of
            None \<Rightarrow> (d, Inl OSError)
          | Some b \<Rightarrow> (d, Inr (db\<lparr>activeFile := Some (dataFilePath (fst (last fs))), activeOffset := int (length b)\<rparr>))))"
proof -
  let ?o = "normal_opts opts0"
  obtain d1 d2 where d: "validateLayout no_faults True d = (d1, None)" "describes_tail fs torn d2" "cleaned d d2"
    "acquireWriterLock no_faults False (newDB ?o, d1) = (((newDB ?o)\<lparr>lockFile := True\<rparr>, d2), None)"
    using lock_tail [OF D, of "newDB ?o"] by blast
  have fs: "fs \<noteq> []" using D by (simp add: describes_tail_def describes_def)
  obtain x xs where x: "map fst fs = x # xs" using fs by (cases fs) auto
  have l: "last (x # xs) = fst (last fs)" using fs last_map [of fs fst] x by simp
  show ?thesis
    using rw d ids_tail [OF d(2)] unfolding OpenWithOptions_def normal_opts_def [symmetric] Let_def x
    by (intro exI [of _ d2]) (auto simp: open_existing_def l openedDB_def simp del: openScan.simps last.simps split: prod.splits option.splits)
qed

text \<open>
  Opening such a directory for writing rebuilds the index from the whole records. Bytes the decoder
  calls torn are cut off; bytes for which it returns the bare \<open>EOF\<close> stay in the file.
\<close>

definition rebuilt :: "OpenOptions \<Rightarrow> layout \<Rightarrow> keydir" where
  "rebuilt opts0 fs = keydir (fold apply_update (all_updates fs) (openedDB opts0 fs))"

lemma rebuilt_replay:
  assumes "describes_tail fs torn d" "clocked fs"
  shows "map_of (rebuilt opts0 fs) = replay (all_updates fs)"
  unfolding rebuilt_def
  by (rule replay_scan [OF _ assms(2)]) (use assms(1) in \<open>simp_all add: describes_tail_def describes_def openedDB_def\<close>)

lemma open_tail:
  assumes D: "describes_tail fs torn d" and rw: "ReadWrite opts0"
    and e: "decodeDataRecord torn = Inl e" "e = EOF \<or> e = UnexpectedEOF"
  defines "left \<equiv> if e = EOF then torn else []"
  shows "\<exists>db' d'. OpenWithOptions no_faults False opts0 d = (d', Inr db') \<and> describes_tail fs left d' \<and> (torn = [] \<longrightarrow> cleaned d d')
    \<and> keydir db' = rebuilt opts0 fs \<and> opts db' = normal_opts opts0 \<and> \<not> closed db'
    \<and> activeFile db' = Some (dataFilePath (fst (last fs))) \<and> activeOffset db' = int (length (encode_file (snd (last fs)) @ left))
    \<and> activeFileID db' = fst (last fs) \<and> nextFileID db' = fst (last fs) + 1 \<and> lockFile db'"
proof -
  let ?p = "dataFilePath (fst (last fs))"
  obtain d2 where cl: "cleaned d d2" and d2: "describes_tail fs torn d2" "OpenWithOptions no_faults False opts0 d =
    (case openScan no_faults True (map fst fs) (openedDB opts0 fs, d2) of
       ((db, d), Some e) \<Rightarrow> (d, Inl e)
     | ((db, d), None) \<Rightarrow>
         (case file_of d ?p of
            None \<Rightarrow> (d, Inl OSError)
          | Some b \<Rightarrow> (d, Inr (db\<lparr>activeFile := Some ?p, activeOffset := int (length b)\<rparr>))))"
    using open_until_scan [OF D rw] by blast
  define db1 where "db1 = fold apply_update (all_updates fs) (openedDB opts0 fs)"
  define d3 where "d3 = (if e = UnexpectedEOF then whole fs d2 else d2)"
  have scan: "openScan no_faults True (map fst fs) (openedDB opts0 fs, d2) = ((db1, d3), None)"
    using openScan_tail [OF d2(1) _ e(1), of "openedDB opts0 fs"] e(2)
    by (auto simp: openedDB_def db1_def d3_def isTailTruncationError_def)
  have "describes fs (whole fs d2)" using d2(1) by (simp add: describes_tail_def)
  then have D3: "describes_tail fs left d3" using d2(1) e(2) by (auto simp: d3_def left_def)
  then have f: "file_of d3 ?p = Some (encode_file (snd (last fs)) @ left)" by (simp add: describes_tail_def)
  define db2 where "db2 = db1\<lparr>activeFile := Some ?p, activeOffset := int (length (encode_file (snd (last fs)) @ left))\<rparr>"
  have "OpenWithOptions no_faults False opts0 d = (d3, Inr db2)" using scan f by (simp add: d2(2) db2_def)
  moreover have "torn = [] \<longrightarrow> cleaned d d3" using cl e(1) by (auto simp: d3_def)
  ultimately show ?thesis
    using D3 by (intro exI [of _ db2] exI [of _ d3]) (simp add: db2_def db1_def openedDB_def rebuilt_def)
qed

text \<open>A record of the newest file that fails its checksum stops the open.\<close>

lemma open_corrupt:
  assumes D: "describes_tail fs bad d" and rw: "ReadWrite opts0" and e: "decodeDataRecord bad = Inl ErrCorruptData"
  shows "\<exists>d'. OpenWithOptions no_faults False opts0 d = (d', Inl ErrCorruptData) \<and> describes_tail fs bad d'"
proof -
  obtain d2 where d2: "describes_tail fs bad d2" "OpenWithOptions no_faults False opts0 d =
    (case openScan no_faults True (map fst fs) (openedDB opts0 fs, d2) of
       ((db, d), Some e) \<Rightarrow> (d, Inl e)
     | ((db, d), None) \<Rightarrow>
         (case file_of d (dataFilePath (fst (last fs))) of
            None \<Rightarrow> (d, Inl OSError)
          | Some b \<Rightarrow> (d, Inr (db\<lparr>activeFile := Some (dataFilePath (fst (last fs))), activeOffset := int (length b)\<rparr>))))"
    using open_until_scan [OF D rw] by blast
  have "openScan no_faults True (map fst fs) (openedDB opts0 fs, d2)
    = ((fold apply_update (all_updates fs) (openedDB opts0 fs), d2), Some ErrCorruptData)"
    using openScan_tail [OF d2(1) _ e, of "openedDB opts0 fs"] by (simp add: openedDB_def)
  then show ?thesis using d2 by simp
qed

lemma open_spec:
  assumes D: "describes fs d" and C: "clocked fs" and nw: "fst (last fs) \<noteq> max_id" and rw: "ReadWrite opts0"
  shows "\<exists>db' d'. OpenWithOptions no_faults False opts0 d = (d', Inr db') \<and> describes fs d' \<and> cleaned d d' \<and> db_inv db' d'
    \<and> map_of (keydir db') = replay (all_updates fs) \<and> opts db' = normal_opts opts0
    \<and> activeFileID db' = fst (last fs) \<and> nextFileID db' = fst (last fs) + 1 \<and> lockFile db'"
proof -
  have "describes_tail fs [] d" using D by simp
  from open_tail [OF this rw] rebuilt_replay [OF this C, of opts0] obtain db' d' where o: "OpenWithOptions no_faults False opts0 d = (d', Inr db')"
    "describes fs d'" "map_of (keydir db') = replay (all_updates fs)" "opts db' = normal_opts opts0" "\<not> closed db'"
    "activeFile db' = Some (dataFilePath (fst (last fs)))" "activeOffset db' = int (length (encode_file (snd (last fs))))"
    "activeFileID db' = fst (last fs)" "nextFileID db' = fst (last fs) + 1" "lockFile db'" "cleaned d d'" by auto
  have "db_inv db' d'" by (rule db_inv_described [OF o(2,3,5) _ o(8,9,6,7) nw]) (simp add: o rw)
  with o show ?thesis by blast
qed

end
