(* ===== verification/LogStore.thy ===== *)
theory LogStore
  imports OpenLayout
begin

text \<open>
  A database that is open for writing keeps its directory described: every \<open>Put\<close> and \<open>Delete\<close> appends one
  record, rotating when the file is full. The contract of a key-value store is the locale \<open>kv_store\<close>; the
  engine is an instance of it.
\<close>

section \<open>The live database and its files\<close>

text \<open>
  The state of a database that has not been merged: its directory consists of whole records, in the
  order they were written, and its index is the replay of those records.
\<close>

definition log_inv :: "DB \<Rightarrow> dir \<Rightarrow> layout \<Rightarrow> bool" where
  "log_inv db d fs \<longleftrightarrow> db_inv db d \<and> describes fs d \<and> clocked fs \<and> activeFileID db = fst (last fs)
     \<and> nextFileID db = fst (last fs) + 1 \<and> map_of (keydir db) = replay (all_updates fs)
     \<and> MaxDataFileSizeBytes (opts db) < 2 ^ 63"

lemma describes_append:
  assumes D: "describes (gs @ [(a, recs)]) d" and r: "record_fits rec" "int (length (encode_file (recs @ [rec]))) < 2 ^ 63"
    and m: "map_of d' = (map_of d)(dataFilePath a \<mapsto> File (encode_file (recs @ [rec])))"
  shows "describes (gs @ [(a, recs @ [rec])]) d'"
proof -
  have da: "a \<notin> fst ` set gs" using D by (auto simp: describes_def sorted_wrt_append)
  have "canonical d' n" if "map_of d' n \<noteq> None" for n
  proof (cases "n = dataFilePath a")
    case False
    then have eq: "map_of d' n = map_of d n" by (simp add: m)
    then show ?thesis using D that canonical_cong [OF eq] by (simp add: describes_def)
  qed (auto simp: canonical_def)
  moreover have "file_of d' (dataFilePath fid) = map_option encode_file (map_of (gs @ [(a, recs @ [rec])]) fid)" for fid
  proof (cases "fid = a")
    case True
    then show ?thesis using da by (simp add: file_of_def m map_add_def map_of_eq_None_iff [THEN iffD2])
  next
    case False
    then have "file_of d' (dataFilePath fid) = file_of d (dataFilePath fid)" by (simp add: file_of_def m)
    moreover have "file_of d (dataFilePath fid) = map_option encode_file (map_of (gs @ [(a, recs)]) fid)"
      using D by (simp add: describes_def)
    ultimately show ?thesis using False by (simp add: map_add_def split: option.splits)
  qed
  moreover have "hint_ok d' fid rs = hint_ok d fid rs" for fid rs by (simp add: hint_ok_def file_of_def m)
  moreover have "names_free d'" "\<not> is_dir d' writerLockFileName"
    using D by (auto simp: describes_def names_free_def is_dir_def m)
  ultimately show ?thesis using D r by (auto simp: describes_def file_ok_def)
qed

lemma describes_rotate:
  assumes D: "describes (gs @ [(a, recs)]) d" and lt: "a < b"
    and m: "map_of d' = (map_of d)(hintFilePath a @ tmpFileSuffix := None,
      hintFilePath a \<mapsto> File (encode_hints (hints_of 0 recs)), dataFilePath b \<mapsto> File [])"
  shows "describes (gs @ [(a, recs), (b, [])]) d'"
proof -
  have db: "b \<notin> fst ` set gs" using D lt by (fastforce simp: describes_def sorted_wrt_append)
  have "canonical d' n" if n: "map_of d' n \<noteq> None" for n
  proof (cases "n = dataFilePath b \<or> n = hintFilePath a")
    case False
    then have eq: "map_of d' n = map_of d n" using n by (auto simp: m split: if_splits)
    then show ?thesis using D n canonical_cong [OF eq] by (simp add: describes_def)
  qed (auto simp: canonical_def)
  moreover have "file_of d' (dataFilePath fid) = map_option encode_file (map_of (gs @ [(a, recs), (b, [])]) fid)" for fid
  proof (cases "fid = b")
    case True
    moreover have "b \<noteq> a" using lt by auto
    ultimately show ?thesis using db by (simp add: file_of_def m map_add_def map_of_eq_None_iff [THEN iffD2])
  next
    case False
    then have "file_of d' (dataFilePath fid) = file_of d (dataFilePath fid)" by (simp add: file_of_def m)
    moreover have "file_of d (dataFilePath fid) = map_option encode_file (map_of (gs @ [(a, recs)]) fid)"
      using D by (simp add: describes_def)
    ultimately show ?thesis using False by (simp add: map_add_def split: option.splits)
  qed
  moreover have "hint_ok d' a recs" by (simp add: hint_ok_def file_of_def m)
  moreover have "hint_ok d' fid rs = hint_ok d fid rs" if "fid \<noteq> a" for fid rs
    using that by (simp add: hint_ok_def file_of_def m)
  moreover have "a \<notin> fst ` set gs" using D by (auto simp: describes_def sorted_wrt_append)
  moreover have "names_free d'" "\<not> is_dir d' writerLockFileName"
    using D by (auto simp: describes_def names_free_def is_dir_def m)
  ultimately show ?thesis using D lt
    by (force simp: describes_def file_ok_def sorted_wrt_append butlast_append)
qed

lemma described_active:
  assumes I: "db_inv db d" and D: "describes (gs @ [(a, recs)]) d" and a: "activeFileID db = a"
  shows "file_of d (dataFilePath a) = Some (encode_file recs)" "activeOffset db = int (length (encode_file recs))"
    "\<forall>rec \<in> set recs. record_ok rec"
proof -
  have "distinct (map fst (gs @ [(a, recs)]))" using D unfolding describes_def by (intro sorted_distinct_fst) blast
  then have "map_of (gs @ [(a, recs)]) a = Some recs" by (simp add: map_add_def map_of_eq_None_iff [THEN iffD2])
  then show f: "file_of d (dataFilePath a) = Some (encode_file recs)" using D by (simp add: describes_def)
  show "activeOffset db = int (length (encode_file recs))" using I a f by (auto simp: db_inv_def active_ok_def)
  show "\<forall>rec \<in> set recs. record_ok rec" using D by (auto simp: describes_def file_ok_def record_fits_def)
qed

text \<open>What one appended record does, to the engine and to the layout of its directory.\<close>

definition written :: "DB \<Rightarrow> dir \<Rightarrow> layout \<Rightarrow> decodedRecord \<Rightarrow> DB \<Rightarrow> dir \<Rightarrow> layout \<Rightarrow> KeyDirEntry \<Rightarrow> bool" where
  "written db d fs rec db' d' fs' e \<longleftrightarrow> db_inv db' d' \<and> describes fs' d' \<and> keydir db' = keydir db \<and> opts db' = opts db
     \<and> activeFileID db' = fst (last fs') \<and> nextFileID db' = fst (last fs') + 1 \<and> all_records fs' = all_records fs @ [rec]
     \<and> all_updates fs' = all_updates fs @ [(dr_key rec, e, is_tombstone (dr_value rec))]
     \<and> entry_at d' e rec \<and> (\<forall>e r. entry_at d e r \<longrightarrow> entry_at d' e r)"

definition entry_here :: "DB \<Rightarrow> decodedRecord \<Rightarrow> KeyDirEntry" where
  "entry_here db rec = \<lparr>FileID = activeFileID db, FileOffset = activeOffset db,
     RecordSize = word_of_nat (length (encodeRecord rec)), TimeStamp = dr_timestamp rec\<rparr>"

definition advance :: "decodedRecord \<Rightarrow> DB \<Rightarrow> DB" where
  "advance rec db = db\<lparr>activeOffset := activeOffset db + int (length (encodeRecord rec))\<rparr>"

lemma write_log:
  assumes I: "db_inv db d" and D: "describes (gs @ [(a, recs)]) d" and a: "activeFileID db = a" "nextFileID db = a + 1"
    and r: "record_fits rec" "int (length (encode_file (recs @ [rec]))) < 2 ^ 63"
  shows "\<exists>d'. write_file no_faults (dataFilePath a) (encodeRecord rec) d = (d', None)
    \<and> written db d (gs @ [(a, recs)]) rec (advance rec db) d' (gs @ [(a, recs @ [rec])]) (entry_here db rec)"
proof -
  let ?d = "put_file (dataFilePath a) (encode_file (recs @ [rec])) d"
  note f = described_active [OF I D a(1)]
  have w: "write_file no_faults (dataFilePath a) (encodeRecord rec) d = (?d, None)" using f(1) by (simp add: write_file_def)
  have "db_inv (advance rec db) ?d \<and> entry_at ?d (entry_here db rec) rec \<and> (\<forall>e r. entry_at d e r \<longrightarrow> entry_at ?d e r)"
    using append_here [OF I, of rec] r(1) w a unfolding record_fits_def entry_here_def advance_def by auto
  moreover have "describes (gs @ [(a, recs @ [rec])]) ?d" by (rule describes_append [OF D r]) simp
  moreover have "updates_of a 0 (recs @ [rec]) = updates_of a 0 recs @ [(dr_key rec, entry_here db rec, is_tombstone (dr_value rec))]"
    by (simp add: updates_of_append entry_here_def a f(2))
  ultimately have "written db d (gs @ [(a, recs)]) rec (advance rec db) ?d (gs @ [(a, recs @ [rec])]) (entry_here db rec)"
    using a by (simp add: written_def advance_def)
  with w show ?thesis by blast
qed

lemma written_after:
  assumes "written db1 d1 fs1 rec db' d' fs' e" "keydir db1 = keydir db" "opts db1 = opts db"
    "all_records fs1 = all_records fs" "all_updates fs1 = all_updates fs" "\<And>e r. entry_at d e r \<Longrightarrow> entry_at d1 e r"
  shows "written db d fs rec db' d' fs' e"
  using assms unfolding written_def by simp

lemma append_log:
  assumes L: "log_inv db d fs" and r: "record_fits rec" and nw: "nextFileID db \<noteq> max_id"
  shows "\<exists>db' d' fs' e. appendRecordLocked no_faults (encodeRecord rec) (dr_timestamp rec) (db, d) = ((db', d'), Inr e)
    \<and> written db d fs rec db' d' fs' e \<and> nextFileID db' \<in> {nextFileID db, nextFileID db + 1}"
proof -
  from L have I: "db_inv db d" and D: "describes fs d" and a: "activeFileID db = fst (last fs)"
    "nextFileID db = fst (last fs) + 1" and mx: "MaxDataFileSizeBytes (opts db) < 2 ^ 63" by (simp_all add: log_inv_def)
  obtain gs b recs where fs: "fs = gs @ [(b, recs)]" using D by (cases fs rule: rev_cases) (auto simp: describes_def)
  have act: "activeFile db = Some (dataFilePath b)" "activeFileID db = b" "nextFileID db = b + 1"
    using I a by (simp_all add: db_inv_def active_ok_def fs)
  have D': "describes (gs @ [(b, recs)]) d" using D by (simp add: fs)
  have small: "int (length (encodeRecord rec)) < 2 ^ 32" using r by (simp add: record_fits_def)
  note f = described_active [OF I D' act(2)]
  show ?thesis
  proof (cases "activeOffset db + int (length (encodeRecord rec)) > MaxDataFileSizeBytes (opts db) \<and> activeOffset db > 0")
    case True
    define db1 where "db1 = db\<lparr>activeFile := Some (dataFilePath (nextFileID db)),
       activeFileID := nextFileID db, activeOffset := 0, nextFileID := nextFileID db + 1\<rparr>"
    obtain d1 where rot: "rotateActiveFileLocked no_faults (db, d) = ((db1, d1), None)"
      and m: "map_of d1 = (map_of d)(hintFilePath b @ tmpFileSuffix := None,
        hintFilePath b \<mapsto> File (encode_hints (hints_of 0 recs)), dataFilePath (nextFileID db) \<mapsto> File [])"
      using rotate_spec [OF I _ f(3)] f(1) unfolding db1_def act(2) by blast
    note J = rotate_inv [OF I nw m [folded act(2)] db1_def]
    have lt: "b < nextFileID db" using I act(2) by (simp add: db_inv_def ids_fresh_def)
    have D1: "describes (fs @ [(nextFileID db, [])]) d1" using describes_rotate [OF D' lt m] by (simp add: fs)
    have n1f: "activeFile db1 = Some (dataFilePath (nextFileID db))" by (simp add: db1_def)
    have n1: "activeFileID db1 = nextFileID db" "nextFileID db1 = nextFileID db + 1"
      "int (length (encode_file ([] @ [rec]))) < 2 ^ 63" using small by (simp_all add: db1_def)
    obtain d2 where w: "write_file no_faults (dataFilePath (nextFileID db)) (encodeRecord rec) d1 = (d2, None)"
      "written db1 d1 (fs @ [(nextFileID db, [])]) rec (advance rec db1) d2 (fs @ [(nextFileID db, [] @ [rec])]) (entry_here db1 rec)"
      using write_log [OF J(1) D1 n1(1,2) r n1(3)] by blast
    have "written db d fs rec (advance rec db1) d2 (fs @ [(nextFileID db, [rec])]) (entry_here db1 rec)"
      by (rule written_after [OF w(2) [unfolded append_Nil]]) (use J(2) in \<open>simp_all add: db1_def\<close>)
    moreover have "appendRecordLocked no_faults (encodeRecord rec) (dr_timestamp rec) (db, d) = ((advance rec db1, d2), Inr (entry_here db1 rec))"
      using True act(1) rot w(1) n1(1) n1f by (simp add: appendRecordLocked_def Let_def advance_def entry_here_def)
    moreover have "nextFileID (advance rec db1) = nextFileID db + 1" by (simp add: advance_def db1_def)
    ultimately show ?thesis by blast
  next
    case False
    have "int (length (encode_file (recs @ [rec]))) < 2 ^ 63" using False mx f(2) small by auto
    from write_log [OF I D' act(2,3) r this] obtain d2 where
      w: "write_file no_faults (dataFilePath b) (encodeRecord rec) d = (d2, None)"
      "written db d fs rec (advance rec db) d2 (gs @ [(b, recs @ [rec])]) (entry_here db rec)"
      unfolding fs by blast
    have "appendRecordLocked no_faults (encodeRecord rec) (dr_timestamp rec) (db, d) = ((advance rec db, d2), Inr (entry_here db rec))"
      using False act w(1) by (auto simp: appendRecordLocked_def Let_def advance_def entry_here_def)
    moreover have "nextFileID (advance rec db) = nextFileID db" by (simp add: advance_def)
    ultimately show ?thesis using w(2) by blast
  qed
qed

lemma log_step:
  assumes L: "log_inv db d fs" and W: "written db d fs rec db' d' fs' e"
    and t: "\<forall>x \<in> set (all_records fs). dr_timestamp x \<le> dr_timestamp rec"
    and k: "map_of kd = replay_step (dr_key rec, e, is_tombstone (dr_value rec)) (map_of (keydir db))"
  shows "log_inv (db'\<lparr>keydir := kd\<rparr>) d' fs'"
proof -
  have kr: "map_of kd = replay (all_updates fs')" using L W k by (simp add: log_inv_def written_def replay_snoc)
  have D: "describes fs' d'" using W by (simp add: written_def)
  have "db_inv (db'\<lparr>keydir := kd\<rparr>) d'"
  proof (rule db_inv_keydir)
    show "db_inv db' d'" using W by (simp add: written_def)
    show "map_of kd k = Some e \<Longrightarrow> entry_ok d' k e" for k e using update_entry_ok [OF D replay_in] by (simp add: kr)
  qed
  moreover have "clocked fs'" using L W t by (auto simp: log_inv_def clocked_def written_def sorted_wrt_append key_clock_def)
  ultimately show ?thesis using L W D kr by (simp add: log_inv_def written_def)
qed

lemma log_inv_db: "log_inv db d fs \<Longrightarrow> db_inv db d"
  by (simp add: log_inv_def)

lemma log_inv_readers: "log_inv db d fs \<Longrightarrow> log_inv (db\<lparr>readers := rs\<rparr>) d fs"
proof -
  have "db_inv (db\<lparr>readers := rs\<rparr>) d = db_inv db d" by (simp add: db_inv_def active_ok_def ids_fresh_def)
  then show "log_inv db d fs \<Longrightarrow> log_inv (db\<lparr>readers := rs\<rparr>) d fs" by (simp add: log_inv_def)
qed

definition stamped :: "int \<Rightarrow> layout \<Rightarrow> bool" where
  "stamped t fs \<longleftrightarrow> (\<forall>x \<in> set (all_records fs). dr_timestamp x \<le> t)"

lemma put_log:
  assumes L: "log_inv db d fs" and t: "stamped t fs" "t \<le> now" and nw: "nextFileID db \<noteq> max_id" and v: "value \<noteq> tombstoneValue"
    and fit: "fits now k (length value)"
  shows "\<exists>db' d' fs'. DB_Put no_faults now k value (db, d) = ((db', d'), None) \<and> log_inv db' d' fs' \<and> stamped now fs'
    \<and> contents (db', d') = (contents (db, d))(k \<mapsto> bytes_of value) \<and> nextFileID db' \<in> {nextFileID db, nextFileID db + 1}"
proof -
  let ?rec = "\<lparr>dr_timestamp = now, dr_key = k, dr_value = bytes_of value\<rparr>"
  have fits: "record_fits ?rec" using fits_record [of now k "bytes_of value"] fit by (simp add: record_fits_def)
  have nt: "\<not> is_tombstone (bytes_of value)" using v by (simp add: is_tombstone_def)
  obtain db1 d1 fs1 e where app: "appendRecordLocked no_faults (encodeRecord ?rec) now (db, d) = ((db1, d1), Inr e)"
    and W: "written db d fs ?rec db1 d1 fs1 e"
    using append_log [OF L fits nw] by auto
  have "log_inv (db1\<lparr>keydir := AList.update k e (keydir db1)\<rparr>) d1 fs1"
    by (rule log_step [OF L W]) (use W t nt in \<open>auto simp: stamped_def update_conv' written_def\<close>)
  moreover have "stamped now fs1" using W t by (auto simp: stamped_def written_def)
  moreover have "DB_Put no_faults now k value (db, d) = ((db1\<lparr>keydir := AList.update k e (keydir db1)\<rparr>, d1), None)"
    using log_inv_db [OF L] v app by (simp add: DB_Put_def ensureOpen_def mustReadWrite_def db_inv_def encodeRecord_def)
  ultimately show ?thesis using DB_Put_spec [OF log_inv_db [OF L] nw v fit] by auto
qed

lemma delete_log:
  assumes L: "log_inv db d fs" and t: "stamped t fs" "t \<le> now" and nw: "nextFileID db \<noteq> max_id" and fit: "fits now k 21"
  shows "\<exists>db' d' fs'. DB_Delete no_faults now k (db, d) = ((db', d'), None) \<and> log_inv db' d' fs' \<and> stamped now fs'
    \<and> contents (db', d') = (contents (db, d))(k := None) \<and> nextFileID db' \<in> {nextFileID db, nextFileID db + 1}"
proof -
  let ?rec = "\<lparr>dr_timestamp = now, dr_key = k, dr_value = bytes_of tombstoneValue\<rparr>"
  have fits: "record_fits ?rec" using fits_record [of now k "bytes_of tombstoneValue"] fit by (simp add: record_fits_def)
  have nt: "is_tombstone (bytes_of tombstoneValue)" by (simp add: is_tombstone_def)
  obtain db1 d1 fs1 e where app: "appendRecordLocked no_faults (encodeRecord ?rec) now (db, d) = ((db1, d1), Inr e)"
    and W: "written db d fs ?rec db1 d1 fs1 e"
    using append_log [OF L fits nw] by auto
  have "log_inv (db1\<lparr>keydir := AList.delete k (keydir db1)\<rparr>) d1 fs1"
    by (rule log_step [OF L W]) (use W t nt in \<open>auto simp: stamped_def delete_conv' written_def\<close>)
  moreover have "stamped now fs1" using W t by (auto simp: stamped_def written_def)
  moreover have "DB_Delete no_faults now k (db, d) = ((db1\<lparr>keydir := AList.delete k (keydir db1)\<rparr>, d1), None)"
    using log_inv_db [OF L] app by (simp add: DB_Delete_def ensureOpen_def mustReadWrite_def db_inv_def encodeRecord_def)
  ultimately show ?thesis using DB_Delete_spec [OF log_inv_db [OF L] nw fit] by auto
qed

section \<open>Sequences of operations\<close>

text \<open>The contract of a key-value store, on an abstract state, and what it gives for whole runs.\<close>

datatype store_op = OpPut int string string | OpDelete int string | OpGet string

type_synonym store_out = "error + byte list option"

fun spec_op :: "store_op \<Rightarrow> (string \<rightharpoonup> byte list) \<Rightarrow> (string \<rightharpoonup> byte list) \<times> store_out" where
  "spec_op (OpPut now k v) m = (if v = tombstoneValue then (m, Inl ReservedValue) else (m(k \<mapsto> bytes_of v), Inr None))"
| "spec_op (OpDelete now k) m = (m(k := None), Inr None)"
| "spec_op (OpGet k) m = (m, case m k of None \<Rightarrow> Inl ErrKeyNotFound | Some v \<Rightarrow> Inr (Some v))"

fun run_with :: "('o \<Rightarrow> 's \<Rightarrow> 's \<times> 'r) \<Rightarrow> 'o list \<Rightarrow> 's \<Rightarrow> 's \<times> 'r list" where
  "run_with f [] s = (s, [])"
| "run_with f (x # xs) s = (let (s, r) = f x s; (s, rs) = run_with f xs s in (s, r # rs))"

fun admissible :: "int \<Rightarrow> store_op list \<Rightarrow> bool" where
  "admissible t [] = True"
| "admissible t (OpPut now k v # ops) = (t \<le> now \<and> fits now k (length v) \<and> admissible now ops)"
| "admissible t (OpDelete now k # ops) = (t \<le> now \<and> fits now k 21 \<and> admissible now ops)"
| "admissible t (OpGet k # ops) = admissible t ops"

fun clock_after :: "int \<Rightarrow> store_op \<Rightarrow> int" where
  "clock_after t (OpPut now k v) = now"
| "clock_after t (OpDelete now k) = now"
| "clock_after t (OpGet k) = t"

lemma admissible_Cons: "admissible t (x # ops) \<longleftrightarrow> admissible t [x] \<and> admissible (clock_after t x) ops"
  by (cases x) auto

lemma admissible_append: "admissible t (xs @ ys) \<longleftrightarrow> admissible t xs \<and> admissible (foldl clock_after t xs) ys"
proof (induction xs arbitrary: t)
  case (Cons x xs)
  show ?case using Cons.IH [of "clock_after t x"] admissible_Cons [of t x] by (metis append_Cons foldl_Cons)
qed simp

lemma run_with_append:
  "run_with f (xs @ ys) s = (let (s, rs) = run_with f xs s; (s, rs') = run_with f ys s in (s, rs @ rs'))"
  by (induction xs arbitrary: s) (auto simp: Let_def case_prod_beta)

locale kv_store =
  fixes ok :: "int \<Rightarrow> nat \<Rightarrow> 's \<Rightarrow> bool"
    and view :: "'s \<Rightarrow> string \<rightharpoonup> byte list"
    and exec :: "store_op \<Rightarrow> 's \<Rightarrow> 's \<times> store_out"
  assumes exec_refines: "ok t (Suc n) s \<Longrightarrow> admissible t [x] \<Longrightarrow>
      \<exists>s'. exec x s = (s', snd (spec_op x (view s))) \<and> view s' = fst (spec_op x (view s)) \<and> ok (clock_after t x) n s'"
begin

lemma run_refines:
  "ok t (n + length ops) s \<Longrightarrow> admissible t ops \<Longrightarrow>
     \<exists>s'. run_with exec ops s = (s', snd (run_with spec_op ops (view s)))
       \<and> view s' = fst (run_with spec_op ops (view s)) \<and> ok (foldl clock_after t ops) n s'"
proof (induction ops arbitrary: s t)
  case Nil
  then show ?case by auto
next
  case (Cons x ops)
  have "admissible t [x]" and rest: "admissible (clock_after t x) ops"
    using Cons.prems(2) unfolding admissible_Cons [of t x ops] by auto
  then obtain s1 where s1: "exec x s = (s1, snd (spec_op x (view s)))" "view s1 = fst (spec_op x (view s))"
    "ok (clock_after t x) (n + length ops) s1"
    using exec_refines [of t "n + length ops" s x] Cons.prems(1) by auto
  from Cons.IH [OF s1(3) rest] obtain s' where
    "run_with exec ops s1 = (s', snd (run_with spec_op ops (view s1)))"
    "view s' = fst (run_with spec_op ops (view s1))" "ok (foldl clock_after (clock_after t x) ops) n s'" by blast
  then show ?case using s1 by (auto simp: case_prod_beta Let_def)
qed

end

text \<open>The operations of the engine.\<close>

fun exec_op :: "os_env \<Rightarrow> store_op \<Rightarrow> world \<Rightarrow> world \<times> store_out" where
  "exec_op os (OpPut now k v) w = (case DB_Put os now k v w of (w, Some e) \<Rightarrow> (w, Inl e) | (w, None) \<Rightarrow> (w, Inr None))"
| "exec_op os (OpDelete now k) w = (case DB_Delete os now k w of (w, Some e) \<Rightarrow> (w, Inl e) | (w, None) \<Rightarrow> (w, Inr None))"
| "exec_op os (OpGet k) w = (case DB_Get os k w of (w, Inl e) \<Rightarrow> (w, Inl e) | (w, Inr v) \<Rightarrow> (w, Inr (Some v)))"

definition store_ok :: "int \<Rightarrow> nat \<Rightarrow> world \<Rightarrow> bool" where
  "store_ok t n w \<longleftrightarrow> (\<exists>fs. log_inv (fst w) (snd w) fs \<and> stamped t fs) \<and> unat (nextFileID (fst w)) + n < 2 ^ 64"

lemma room_step:
  assumes "unat (a :: u64) + Suc n < 2 ^ 64" "b \<in> {a, a + 1}"
  shows "unat b + n < 2 ^ 64" "a \<noteq> max_id"
proof -
  have "unat (- 1 :: u64) = 2 ^ 64 - 1" by (simp add: unsigned_minus_1_eq_mask mask_eq_exp_minus_1)
  then show "a \<noteq> max_id" using assms(1) by (auto simp: max_id_def)
  have "unat (a + 1) \<le> unat a + 1" by (simp add: unat_plus_if_size)
  then show "unat b + n < 2 ^ 64" using assms by auto
qed

lemma get_keeps:
  assumes "store_ok t n w"
  shows "\<exists>w'. DB_Get no_faults k w = (w', case contents w k of None \<Rightarrow> Inl ErrKeyNotFound | Some v \<Rightarrow> Inr v)
    \<and> contents w' = contents w \<and> store_ok t n w'"
proof -
  obtain db d where w: "w = (db, d)" by (cases w)
  from assms obtain fs where L: "log_inv db d fs" and t: "stamped t fs" and room: "unat (nextFileID db) + n < 2 ^ 64"
    by (auto simp: store_ok_def w)
  obtain rs where g: "DB_Get no_faults k (db, d) = ((db\<lparr>readers := rs\<rparr>, d),
      case contents (db, d) k of None \<Rightarrow> Inl ErrKeyNotFound | Some v \<Rightarrow> Inr v)"
    using DB_Get_spec [OF log_inv_db [OF L]] by blast
  have "contents (db\<lparr>readers := rs\<rparr>, d) k' = contents (db, d) k'" for k'
    by (rule contents_cong [OF log_inv_db [OF L]]) (use log_inv_db [OF L] in \<open>simp_all add: db_inv_def\<close>)
  then have "contents (db\<lparr>readers := rs\<rparr>, d) = contents (db, d)" by blast
  moreover have "store_ok t n (db\<lparr>readers := rs\<rparr>, d)"
    using log_inv_readers [OF L] t room by (auto simp: store_ok_def)
  ultimately show ?thesis using g by (auto simp: w)
qed

lemma exec_op_refines:
  assumes "store_ok t (Suc n) w" "admissible t [x]"
  shows "\<exists>w'. exec_op no_faults x w = (w', snd (spec_op x (contents w))) \<and> contents w' = fst (spec_op x (contents w))
    \<and> store_ok (clock_after t x) n w'"
proof -
  obtain db d where w: "w = (db, d)" by (cases w)
  from assms(1) obtain fs where L: "log_inv db d fs" and t: "stamped t fs" and room: "unat (nextFileID db) + Suc n < 2 ^ 64"
    by (auto simp: store_ok_def w)
  note nw = room_step(2) [OF room, of "nextFileID db", simplified]
  show ?thesis
  proof (cases x)
    case (OpPut now k v)
    show ?thesis
    proof (cases "v = tombstoneValue")
      case True
      have "stamped now fs" using t assms(2) by (auto simp: OpPut stamped_def)
      then have "store_ok now n w" using L room by (auto simp: store_ok_def w)
      then show ?thesis using True log_inv_db [OF L]
        by (simp add: OpPut w DB_Put_def ensureOpen_def mustReadWrite_def db_inv_def)
    next
      case False
      then obtain db' d' fs' where "DB_Put no_faults now k v (db, d) = ((db', d'), None)" "log_inv db' d' fs'" "stamped now fs'"
        "contents (db', d') = (contents (db, d))(k \<mapsto> bytes_of v)" "nextFileID db' \<in> {nextFileID db, nextFileID db + 1}"
        using put_log [OF L t _ nw, of now v k] assms(2) by (auto simp: OpPut)
      then show ?thesis using False room_step(1) [OF room] by (auto simp: OpPut w store_ok_def)
    qed
  next
    case (OpDelete now k)
    then obtain db' d' fs' where "DB_Delete no_faults now k (db, d) = ((db', d'), None)" "log_inv db' d' fs'" "stamped now fs'"
      "contents (db', d') = (contents (db, d))(k := None)" "nextFileID db' \<in> {nextFileID db, nextFileID db + 1}"
      using delete_log [OF L t _ nw, of now k] assms(2) by auto
    then show ?thesis using room_step(1) [OF room] by (auto simp: OpDelete w store_ok_def)
  next
    case (OpGet k)
    have "store_ok t n w" using L t room by (auto simp: store_ok_def w)
    from get_keeps [OF this, of k] show ?thesis by (auto simp: OpGet split: option.splits)
  qed
qed

interpretation db_store: kv_store store_ok contents "exec_op no_faults"
  by unfold_locales (rule exec_op_refines)

end
