(* ===== verification/Durability.thy ===== *)
theory Durability
  imports LogStore
begin

text \<open>
  What survives a restart. A session opens a directory, runs operations and closes it; a sequence of
  sessions behaves as one run of a finite map. A record torn by a stopped writer is cut off at the next
  open, a damaged one is reported.
\<close>

section \<open>Opening an empty directory\<close>

lemma replay_Nil [simp]: "replay [] = Map.empty"
  by (simp add: replay_def)

definition fresh_dir :: dir where
  "fresh_dir = put_file (dataFilePath 1) [] (put_file writerLockFileName [] [])"

definition fresh_db :: "OpenOptions \<Rightarrow> DB" where
  "fresh_db opts0 = (newDB (normal_opts opts0))\<lparr>lockFile := True, activeFile := Some (dataFilePath 1), activeFileID := 1,
     activeOffset := 0, nextFileID := 2\<rparr>"

lemma open_empty:
  assumes rw: "ReadWrite opts0"
  shows "OpenWithOptions no_faults False opts0 [] = (fresh_dir, Inr (fresh_db opts0))"
proof -
  let ?o = "normal_opts opts0" and ?p = "dataFilePath 1" and ?d = "put_file writerLockFileName [] []"
  have "validateLayout no_faults True [] = ([], None)" by (simp add: validateLayout_def ReadDir_def)
  moreover have "acquireWriterLock no_faults False (newDB ?o, []) = (((newDB ?o)\<lparr>lockFile := True\<rparr>, ?d), None)"
    by (simp add: acquireWriterLock_def open_create_def is_dir_def file_of_def)
  moreover have "listDataFileIDs no_faults ?d = Inr []"
    by (rule listDataFileIDs_canonical) (auto simp: canonical_def names_free_def is_dir_def file_of_def)
  moreover have "createNewActiveFile no_faults 1 ((newDB ?o)\<lparr>lockFile := True\<rparr>, ?d)
      = (((newDB ?o)\<lparr>lockFile := True, activeFile := Some ?p, activeFileID := 1, activeOffset := 0\<rparr>, fresh_dir), None)"
    by (simp add: createNewActiveFile_def open_create_def fresh_dir_def is_dir_def file_of_def Let_def)
  ultimately show ?thesis
    using rw unfolding OpenWithOptions_def normal_opts_def [symmetric] Let_def by (simp add: fresh_db_def)
qed

lemma describes_fresh: "describes [(1, [])] fresh_dir"
proof -
  have m: "map_of fresh_dir = [dataFilePath 1 \<mapsto> File [], writerLockFileName \<mapsto> File []]" by (auto simp: fresh_dir_def)
  show ?thesis by (auto simp: describes_def names_free_def is_dir_def m canonical_def file_of_def file_ok_def)
qed

lemma log_fresh:
  assumes "ReadWrite opts0" "MaxDataFileSizeBytes opts0 < 2 ^ 63"
  shows "log_inv (fresh_db opts0) fresh_dir [(1, [])]"
proof -
  have "db_inv (fresh_db opts0) fresh_dir"
    by (rule db_inv_described [OF describes_fresh]) (auto simp: fresh_db_def assms max_id_def)
  then show ?thesis
    using assms(2) describes_fresh by (auto simp: log_inv_def clocked_def fresh_db_def normal_opts_def defaultMaxDataFileSize_def)
qed

lemma store_ok_fresh:
  assumes "ReadWrite opts0" "MaxDataFileSizeBytes opts0 < 2 ^ 63" "2 + n < 2 ^ 64"
  shows "store_ok t n (fresh_db opts0, fresh_dir)"
  using log_fresh [OF assms(1,2)] assms(3) by (auto simp: store_ok_def stamped_def fresh_db_def)

section \<open>Closing and opening again\<close>

lemma entry_at_described:
  assumes "describes fs d" "describes fs d'" "entry_at d e r"
  shows "entry_at d' e r"
  using assms by (simp add: entry_at_def describes_def)

lemma contents_described:
  assumes L: "log_inv db d fs" and D: "describes fs d'" and k: "\<not> closed db'" "map_of (keydir db') = replay (all_updates fs)"
  shows "contents (db', d') = contents (db, d)"
proof
  show "contents (db', d') k = contents (db, d) k" for k
    using L D k entry_at_described [of fs d d'] by (intro contents_cong) (auto simp: log_inv_def)
qed

lemma last_not_max: "log_inv db d fs \<Longrightarrow> fst (last fs) \<noteq> max_id"
  by (auto simp: log_inv_def db_inv_def ids_fresh_def max_id_def)

lemma normal_opts_max: "MaxDataFileSizeBytes opts0 < 2 ^ 63 \<Longrightarrow> MaxDataFileSizeBytes (normal_opts opts0) < 2 ^ 63"
  by (simp add: normal_opts_def defaultMaxDataFileSize_def)

text \<open>
  A database reopened from the directory of another one, whether that one was closed or stopped, and
  also when it stopped inside a record that the decoder sees as torn.
\<close>

lemma reopen_tail:
  assumes L: "log_inv db d fs" and T: "describes_tail fs torn d1" and rw: "ReadWrite opts0" and mx: "MaxDataFileSizeBytes opts0 < 2 ^ 63"
    and e: "torn = [] \<or> decodeDataRecord torn = Inl UnexpectedEOF"
  shows "\<exists>db' d'. OpenWithOptions no_faults False opts0 d1 = (d', Inr db') \<and> log_inv db' d' fs
    \<and> contents (db', d') = contents (db, d)"
proof -
  have C: "clocked fs" using L by (simp add: log_inv_def)
  define err where "err = (if torn = [] then EOF else UnexpectedEOF)"
  have dec: "decodeDataRecord torn = Inl err" and err: "err = EOF \<or> err = UnexpectedEOF" using e by (auto simp: err_def)
  have left: "(if err = EOF then torn else []) = []" by (simp add: err_def)
  obtain db' d' where o: "OpenWithOptions no_faults False opts0 d1 = (d', Inr db')"
    "describes fs d'" "map_of (keydir db') = replay (all_updates fs)" "opts db' = normal_opts opts0" "\<not> closed db'"
    "activeFile db' = Some (dataFilePath (fst (last fs)))" "activeOffset db' = int (length (encode_file (snd (last fs))))"
    "activeFileID db' = fst (last fs)" "nextFileID db' = fst (last fs) + 1"
    using open_tail [OF T rw dec err, unfolded left append_Nil2 describes_tail_Nil] rebuilt_replay [OF T C, of opts0] by metis
  have "db_inv db' d'" by (rule db_inv_described [OF o(2,3,5) _ o(8,9,6,7) last_not_max [OF L]]) (simp add: o rw)
  then have "log_inv db' d' fs" using o C normal_opts_max [OF mx] by (simp add: log_inv_def)
  moreover have "contents (db', d') = contents (db, d)" by (rule contents_described [OF L o(2,5,3)])
  ultimately show ?thesis using o(1) by blast
qed

lemma reopen_described:
  assumes D: "describes fs d" and C: "clocked fs" and nw: "fst (last fs) \<noteq> max_id" and rw: "ReadWrite opts0"
    and mx: "MaxDataFileSizeBytes opts0 < 2 ^ 63"
  shows "\<exists>db' d'. OpenWithOptions no_faults False opts0 d = (d', Inr db') \<and> log_inv db' d' fs \<and> opts db' = normal_opts opts0
    \<and> cleaned d d'"
  using open_spec [OF D C nw rw] normal_opts_max [OF mx] C by (fastforce simp: log_inv_def)

lemma reopen_log:
  assumes L: "log_inv db d fs" and "ReadWrite opts0" and "MaxDataFileSizeBytes opts0 < 2 ^ 63"
  shows "\<exists>db' d'. OpenWithOptions no_faults False opts0 d = (d', Inr db') \<and> log_inv db' d' fs
    \<and> contents (db', d') = contents (db, d)"
  using reopen_tail [OF L, of "[]" d opts0] assms by (simp add: log_inv_def)

lemma contents_empty: "log_inv db d [(1, [])] \<Longrightarrow> contents (db, d) = Map.empty"
  by (rule ext) (simp add: log_inv_def db_inv_def contents_absent)

text \<open>
  A session on a directory: open it for writing, run operations, close. Opening finds what the sessions
  before left, since nothing but the lock is kept outside the directory.
\<close>

definition session :: "OpenOptions \<Rightarrow> store_op list \<Rightarrow> dir \<Rightarrow> dir \<times> store_out list result" where
  "session opts0 ops d =
     (case OpenWithOptions no_faults False opts0 d of
        (d, Inl e) \<Rightarrow> (d, Inl e)
      | (d, Inr db) \<Rightarrow>
          (case run_with (exec_op no_faults) ops (db, d) of
             ((db, d), outs) \<Rightarrow>
               (case DB_Close no_faults db of (db, Some e) \<Rightarrow> (d, Inl e) | (db, None) \<Rightarrow> (d, Inr outs))))"

lemma DB_Close_no_faults: "\<exists>db'. DB_Close no_faults db = (db', None)"
  by (auto simp: DB_Close_def Let_def split: option.splits)

text \<open>What a directory holds between sessions.\<close>

definition dir_holds :: "int \<Rightarrow> nat \<Rightarrow> dir \<Rightarrow> (string \<rightharpoonup> byte list) \<Rightarrow> bool" where
  "dir_holds t n d m \<longleftrightarrow> d = [] \<and> m = Map.empty \<and> 2 + n < 2 ^ 64
     \<or> (\<exists>db. store_ok t n (db, d) \<and> contents (db, d) = m)"

lemma open_holds:
  assumes H: "dir_holds t n d m" and rw: "ReadWrite opts0" and mx: "MaxDataFileSizeBytes opts0 < 2 ^ 63"
  shows "\<exists>d1 db1. OpenWithOptions no_faults False opts0 d = (d1, Inr db1) \<and> store_ok t n (db1, d1) \<and> contents (db1, d1) = m"
proof -
  consider (empty) "d = []" "m = Map.empty" "2 + n < 2 ^ 64" | (log) db where "store_ok t n (db, d)" "contents (db, d) = m"
    using H by (auto simp: dir_holds_def)
  then show ?thesis
  proof cases
    case empty
    show ?thesis
      using open_empty [OF rw] store_ok_fresh [OF rw mx empty(3)] contents_empty [OF log_fresh [OF rw mx]] empty(1,2) by blast
  next
    case log
    then obtain fs where L: "log_inv db d fs" and s: "stamped t fs" and room: "unat (nextFileID db) + n < 2 ^ 64"
      by (auto simp: store_ok_def)
    obtain db1 d1 where o: "OpenWithOptions no_faults False opts0 d = (d1, Inr db1)" "log_inv db1 d1 fs" "contents (db1, d1) = contents (db, d)"
      using reopen_log [OF L rw mx] by blast
    have "nextFileID db1 = nextFileID db" using L o(2) by (simp add: log_inv_def)
    then have "store_ok t n (db1, d1)" using o(2) s room by (auto simp: store_ok_def)
    then show ?thesis using o log(2) by blast
  qed
qed

lemma session_holds:
  assumes H: "dir_holds t (n + length ops) d m" and adm: "admissible t ops"
    and rw: "ReadWrite opts0" and mx: "MaxDataFileSizeBytes opts0 < 2 ^ 63"
  shows "\<exists>d'. session opts0 ops d = (d', Inr (snd (run_with spec_op ops m)))
    \<and> dir_holds (foldl clock_after t ops) n d' (fst (run_with spec_op ops m))"
proof -
  obtain db1 d1 where o: "OpenWithOptions no_faults False opts0 d = (d1, Inr db1)" "store_ok t (n + length ops) (db1, d1)"
    "contents (db1, d1) = m" using open_holds [OF H rw mx] by blast
  obtain db2 d2 where r: "run_with (exec_op no_faults) ops (db1, d1) = ((db2, d2), snd (run_with spec_op ops m))"
    "contents (db2, d2) = fst (run_with spec_op ops m)" "store_ok (foldl clock_after t ops) n (db2, d2)"
    using db_store.run_refines [OF o(2) adm] unfolding o(3) by fastforce
  have "session opts0 ops d = (d2, Inr (snd (run_with spec_op ops m)))"
    using o(1) r(1) DB_Close_no_faults [of db2] by (auto simp: session_def)
  then show ?thesis using r(2,3) by (auto simp: dir_holds_def)
qed

fun sessions :: "OpenOptions \<Rightarrow> store_op list list \<Rightarrow> dir \<Rightarrow> dir \<times> store_out list result" where
  "sessions opts0 [] d = (d, Inr [])"
| "sessions opts0 (ops # opss) d =
     (case session opts0 ops d of
        (d, Inl e) \<Rightarrow> (d, Inl e)
      | (d, Inr outs) \<Rightarrow>
          (case sessions opts0 opss d of (d, Inl e) \<Rightarrow> (d, Inl e) | (d, Inr outs') \<Rightarrow> (d, Inr (outs @ outs'))))"

lemma sessions_holds:
  assumes "ReadWrite opts0" "MaxDataFileSizeBytes opts0 < 2 ^ 63"
    and "dir_holds t (n + length (concat opss)) d m" "admissible t (concat opss)"
  shows "\<exists>d'. sessions opts0 opss d = (d', Inr (snd (run_with spec_op (concat opss) m)))
    \<and> dir_holds (foldl clock_after t (concat opss)) n d' (fst (run_with spec_op (concat opss) m))"
  using assms(3,4)
proof (induction opss arbitrary: t d m)
  case (Cons ops opss)
  have adm: "admissible t ops" "admissible (foldl clock_after t ops) (concat opss)"
    using Cons.prems(2) by (simp_all add: admissible_append)
  have "dir_holds t ((n + length (concat opss)) + length ops) d m" using Cons.prems(1) by (simp add: add.commute add.left_commute)
  from session_holds [OF this adm(1) assms(1,2)] obtain d1 where
    d1: "session opts0 ops d = (d1, Inr (snd (run_with spec_op ops m)))"
    "dir_holds (foldl clock_after t ops) (n + length (concat opss)) d1 (fst (run_with spec_op ops m))" by blast
  from Cons.IH [OF d1(2) adm(2)] show ?case
    using d1(1) by (auto simp: run_with_append Let_def case_prod_beta)
qed auto

section \<open>Sessions refine a map\<close>

text \<open>
  C8: starting from an empty directory, any sequence of \<open>Put\<close>, \<open>Delete\<close> and \<open>Get\<close> split in any way into
  sessions (open, operations, close) succeeds and returns, operation by operation, what the same
  sequence returns on a finite map: nothing is lost or changed by rotating files, writing hint files,
  closing and opening again. The clock must not run backwards and records must fit their length fields.
\<close>

theorem sessions_refine_map:
  assumes "ReadWrite opts0" "MaxDataFileSizeBytes opts0 < 2 ^ 63"
    and "admissible t (concat opss)" "2 + length (concat opss) < 2 ^ 64"
  shows "\<exists>d. sessions opts0 opss [] = (d, Inr (snd (run_with spec_op (concat opss) Map.empty)))"
proof -
  have "dir_holds t (0 + length (concat opss)) [] Map.empty" using assms(4) by (simp add: dir_holds_def)
  from sessions_holds [OF assms(1,2) this assms(3)] show ?thesis by blast
qed

definition small_files :: OpenOptions where
  "small_files = \<lparr>ReadWrite = True, SyncOnPut = True, MaxDataFileSizeBytes = 40\<rparr>"

theorem sessions_refine_map_witness:
  "\<exists>d. sessions small_files [[OpPut 1 ''a'' ''x'', OpPut 2 ''b'' ''y'', OpDelete 3 ''a''], [OpGet ''a'', OpGet ''b''],
      [OpPut 4 ''a'' tombstoneValue, OpGet ''a'']] []
    = (d, Inr [Inr None, Inr None, Inr None, Inl ErrKeyNotFound, Inr (Some (bytes_of ''y'')), Inl ReservedValue, Inl ErrKeyNotFound])"
proof -
  have "''x'' \<noteq> tombstoneValue" "''y'' \<noteq> tombstoneValue" by (simp_all add: tombstoneValue_def)
  then show ?thesis
    using sessions_refine_map [of small_files 0 "[[OpPut 1 ''a'' ''x'', OpPut 2 ''b'' ''y'', OpDelete 3 ''a''],
      [OpGet ''a'', OpGet ''b''], [OpPut 4 ''a'' tombstoneValue, OpGet ''a'']]"]
    by (simp add: small_files_def fits_def is_int64_def)
qed

section \<open>Torn and damaged records\<close>

lemma store_ok_tail:
  assumes "store_ok t n (db, d)"
  shows "\<exists>fs b. log_inv db d fs \<and> stamped t fs \<and> fst (last fs) = activeFileID db
    \<and> file_of d (dataFilePath (activeFileID db)) = Some b \<and> b = encode_file (snd (last fs))"
proof -
  obtain fs where L: "log_inv db d fs" "stamped t fs" using assms by (auto simp: store_ok_def)
  then have D: "describes fs d" and a: "activeFileID db = fst (last fs)" by (simp_all add: log_inv_def)
  have "file_of d (dataFilePath (activeFileID db)) = Some (encode_file (snd (last fs)))" using described_last [OF D] a by simp
  then show ?thesis using L a by auto
qed

lemma tail_of_log:
  assumes L: "log_inv db d fs" and f: "file_of d (dataFilePath (activeFileID db)) = Some b" "b = encode_file (snd (last fs))"
  shows "describes_tail fs torn (put_file (dataFilePath (activeFileID db)) (b @ torn) d)"
proof -
  have D: "describes fs d" and a: "activeFileID db = fst (last fs)" using L by (simp_all add: log_inv_def)
  have m: "map_of (whole fs (put_file (dataFilePath (activeFileID db)) (b @ torn) d)) = map_of d"
    using f by (auto simp: whole_def a file_of_map_of)
  have "describes fs (whole fs (put_file (dataFilePath (activeFileID db)) (b @ torn) d))"
    by (rule describes_cong [OF D]) (simp_all add: m)
  then show ?thesis using f by (simp add: describes_tail_def a)
qed

text \<open>
  C12: a writer that stops in the middle of a record loses that record only. The next read-write open
  finds the torn bytes, cuts them off and has exactly the contents from before the write, unless the
  cut is at one of the three field boundaries inside the record.
\<close>

theorem torn_write_recovered:
  assumes ok: "store_ok t n (db, d)" and f: "file_of d (dataFilePath (activeFileID db)) = Some b"
    and e: "encodable ts k v" and m: "m < 20 + length k + length v" "m \<notin> {4, 20, 20 + length k}"
    and opts: "ReadWrite opts0" "MaxDataFileSizeBytes opts0 < 2 ^ 63"
  shows "\<exists>db' d'. OpenWithOptions no_faults False opts0
      (put_file (dataFilePath (activeFileID db)) (b @ take m (encodeDataRecord ts k v)) d) = (d', Inr db')
    \<and> store_ok t n (db', d') \<and> contents (db', d') = contents (db, d)
    \<and> file_of d' (dataFilePath (activeFileID db)) = Some b"
proof -
  let ?torn = "take m (encodeDataRecord ts k v)"
  obtain fs where L: "log_inv db d fs" and s: "stamped t fs" and a: "fst (last fs) = activeFileID db" and b: "b = encode_file (snd (last fs))"
    using store_ok_tail [OF ok] f by auto
  have dec: "?torn = [] \<or> decodeDataRecord ?torn = Inl UnexpectedEOF" using decodeDataRecord_torn [OF e m(1)] m(2) by auto
  obtain db' d' where o: "OpenWithOptions no_faults False opts0
      (put_file (dataFilePath (activeFileID db)) (b @ ?torn) d) = (d', Inr db')"
    "log_inv db' d' fs" "contents (db', d') = contents (db, d)"
    using reopen_tail [OF L tail_of_log [OF L f b] opts dec] by blast
  have "nextFileID db' = nextFileID db" "describes fs d'" using L o(2) by (simp_all add: log_inv_def)
  then have "store_ok t n (db', d')" "file_of d' (dataFilePath (activeFileID db)) = Some b"
    using s ok o(2) described_last [of fs d'] by (auto simp: store_ok_def a b)
  then show ?thesis using o by blast
qed

theorem torn_write_recovered_witness:
  "\<exists>db' d'. OpenWithOptions no_faults False small_files
      (put_file (dataFilePath 1) (take 21 (encodeDataRecord 7 ''key'' [1, 2])) fresh_dir) = (d', Inr db')
    \<and> contents (db', d') = contents (fresh_db small_files, fresh_dir) \<and> file_of d' (dataFilePath 1) = Some []"
proof -
  have "store_ok 0 5 (fresh_db small_files, fresh_dir)" by (rule store_ok_fresh) (simp_all add: small_files_def)
  from torn_write_recovered [OF this, of "[]" 7 "''key''" "[1, 2]" 21 small_files] show ?thesis
    by (auto simp: fresh_db_def fresh_dir_def encodable_def is_int64_def small_files_def)
qed

text \<open>
  C14: damage to a stored record is reported. When any byte of the key or the value of a record in the
  newest file is changed, a read-write open returns \<open>ErrCorruptData\<close> whatever follows the record, and
  neither repairs nor shortens the file.
\<close>

theorem damage_reported:
  assumes ok: "store_ok t n (db, d)" and f: "file_of d (dataFilePath (activeFileID db)) = Some b"
    and e: "encodable ts k v" "bytes_of k @ v = xs @ y # ys" "y \<noteq> y'" and rw: "ReadWrite opts0"
    and bad: "bad = b @ take 20 (encodeDataRecord ts k v) @ xs @ y' # ys @ rest"
  shows "\<exists>d'. OpenWithOptions no_faults False opts0 (put_file (dataFilePath (activeFileID db)) bad d) = (d', Inl ErrCorruptData)
    \<and> file_of d' (dataFilePath (activeFileID db)) = Some bad"
proof -
  obtain fs where L: "log_inv db d fs" and a: "fst (last fs) = activeFileID db" and b: "b = encode_file (snd (last fs))"
    using store_ok_tail [OF ok] f by auto
  obtain d' where "OpenWithOptions no_faults False opts0 (put_file (dataFilePath (activeFileID db)) bad d) = (d', Inl ErrCorruptData)"
    "describes_tail fs (take 20 (encodeDataRecord ts k v) @ xs @ y' # ys @ rest) d'"
    using open_corrupt [OF tail_of_log [OF L f b] rw decodeDataRecord_flipped [OF e, of rest]] unfolding bad by blast
  then show ?thesis by (auto simp: describes_tail_def a b bad)
qed

theorem damage_reported_witness:
  "\<exists>d'. OpenWithOptions no_faults False small_files
     (put_file (dataFilePath 1) (take 20 (encodeDataRecord 7 ''k'' [1, 2]) @ bytes_of ''k'' @ [1, 3]) fresh_dir) = (d', Inl ErrCorruptData)"
proof -
  have "store_ok 0 5 (fresh_db small_files, fresh_dir)" by (rule store_ok_fresh) (simp_all add: small_files_def)
  from damage_reported [OF this, of "[]" 7 "''k''" "[1, 2]" "bytes_of ''k'' @ [1]" 2 "[]" 3 small_files _ "[]"] show ?thesis
    by (auto simp: fresh_db_def fresh_dir_def encodable_def is_int64_def small_files_def)
qed

end
