(* ===== verification/OpenModes.thy ===== *)
theory OpenModes
  imports Durability
begin

text \<open>
  The ways of opening a database: one writer at a time, read-only handles that change nothing, and hint
  files as a faster way to the same index.
\<close>

section \<open>One writer\<close>

text \<open>
  C19: while another process holds the writer lock, a read-write open fails with \<open>ErrWriterLocked\<close>. It has
  by then removed every temporary file of the directory, the half-written hint file of the running
  writer included; all other files are untouched.
\<close>

theorem second_writer_rejected:
  assumes rw: "ReadWrite opts0" and can: "\<forall>n. map_of d n \<noteq> None \<longrightarrow> canonical d n" and lk: "\<not> is_dir d writerLockFileName"
  shows "\<exists>d'. OpenWithOptions no_faults True opts0 d = (d', Inl ErrWriterLocked)
    \<and> (\<forall>n. n \<noteq> writerLockFileName \<longrightarrow> map_of d' n = (if is_tmp d n then None else map_of d n))"
proof -
  obtain d1 where d1: "validateLayout no_faults True d = (d1, None)" "map_of d1 = (\<lambda>n. if is_tmp d n then None else map_of d n)"
    using validateLayout_canonical [OF can] by blast
  define d2 where "d2 = (case file_of d1 writerLockFileName of None \<Rightarrow> put_file writerLockFileName [] d1 | Some _ \<Rightarrow> d1)"
  have "\<not> is_dir d1 writerLockFileName" using lk by (auto simp: d1(2) is_dir_def is_tmp_def)
  then have "acquireWriterLock no_faults True (db, d1) = ((db, d2), Some ErrWriterLocked)" for db
    by (auto simp: acquireWriterLock_def open_create_def d2_def split: option.splits)
  then have "OpenWithOptions no_faults True opts0 d = (d2, Inl ErrWriterLocked)"
    using rw d1(1) unfolding OpenWithOptions_def normal_opts_def [symmetric] Let_def by simp
  moreover have "map_of d2 n = (if is_tmp d n then None else map_of d n)" if "n \<noteq> writerLockFileName" for n
    using that by (auto simp: d2_def d1(2) split: option.splits)
  ultimately show ?thesis by blast
qed

theorem second_writer_rejected_witness:
  "\<exists>d'. OpenWithOptions no_faults True small_files (put_file (hintFilePath 1 @ tmpFileSuffix) [1] fresh_dir) = (d', Inl ErrWriterLocked)
    \<and> map_of d' (hintFilePath 1 @ tmpFileSuffix) = None \<and> map_of d' (dataFilePath 1) = Some (File [])"
proof -
  let ?tmp = "hintFilePath 1 @ tmpFileSuffix"
  let ?d = "put_file ?tmp [1] fresh_dir"
  have m: "map_of ?d n = (if n = ?tmp then Some (File [1]) else map_of fresh_dir n)" for n by simp
  have "HasSuffix ?tmp tmpFileSuffix" by (rule HasSuffix_append)
  then have "canonical ?d n" if "map_of ?d n \<noteq> None" for n
    using describes_fresh canonical_cong [of ?d n fresh_dir] that by (cases "n = ?tmp") (auto simp: canonical_def describes_def)
  moreover have "\<not> is_dir ?d writerLockFileName" using describes_fresh by (simp add: describes_def)
  moreover have "?tmp \<noteq> writerLockFileName" using HasSuffix_append [of "hintFilePath 1" tmpFileSuffix] by (metis suffix_names)
  moreover have "ReadWrite small_files" by (simp add: small_files_def)
  moreover have "is_tmp ?d ?tmp" "\<not> is_tmp ?d (dataFilePath 1)" by (auto simp: is_tmp_def is_dir_def HasSuffix_append)
  moreover have "map_of ?d (dataFilePath 1) = Some (File [])" by (simp add: fresh_dir_def)
  ultimately show ?thesis using second_writer_rejected [of small_files ?d] by (metis lock_name(2))
qed

section \<open>Read-only handles\<close>

lemma validateEntries_read_only: "fst (validateEntries False ns d) = d"
  by (induction ns) auto

lemma scanDataLoop_read_only: "snd (fst (scanDataLoop os fid False r off g w)) = snd w"
proof (induction os fid "False" r off g w rule: scanDataLoop.induct)
  case (1 os fid r off g w)
  then show ?case by (subst scanDataLoop.simps) (auto simp: Let_def split: prod.splits sum.splits)
qed

lemma scanDataFile_read_only: "scanDataFile os fid False w = (w', e) \<Longrightarrow> snd w' = snd w"
  using scanDataLoop_read_only [of os fid _ 0 0 w] by (auto simp: scanDataFile_def split: sum.splits) (metis fst_conv snd_conv)

lemma scanHintFile_dir: "scanHintFile os fid w = (w', e) \<Longrightarrow> snd w' = snd w"
  by (auto simp: scanHintFile_def split: prod.splits sum.splits)

lemma openScan_read_only: "openScan os False ids w = (w', e) \<Longrightarrow> snd w' = snd w"
proof (induction ids arbitrary: w)
  case (Cons fid ids)
  obtain w1 e1 where d1: "scanDataFile os fid False w = (w1, e1)" by fastforce
  obtain w2 e2 where d2: "scanHintFile os fid w = (w2, e2)" by fastforce
  obtain w3 e3 where d3: "scanDataFile os fid False w2 = (w3, e3)" by fastforce
  note dirs = scanDataFile_read_only [OF d1] scanHintFile_dir [OF d2] scanDataFile_read_only [OF d3]
  show ?case using Cons.prems Cons.IH [of w1] Cons.IH [of w2] Cons.IH [of w3] dirs d1 d2 d3
    by (auto split: if_splits option.splits)
qed simp

text \<open>Scanning leaves the options of the handle alone and does not close it.\<close>

definition mode :: "DB \<Rightarrow> OpenOptions \<times> bool" where
  "mode db = (opts db, closed db)"

lemma mode_update [simp]: "mode (applyKeydirUpdate k e t db) = mode db"
  by (simp add: mode_def)

lemma scanDataLoop_mode: "mode (fst (fst (scanDataLoop os fid a r off g w))) = mode (fst w)"
proof (induction os fid a r off g w rule: scanDataLoop.induct)
  case (1 os fid a r off g w)
  then show ?case by (subst scanDataLoop.simps) (auto simp: Let_def split: prod.splits sum.splits)
qed

lemma scanHintLoop_mode: "mode (fst (scanHintLoop fid r db)) = mode db"
proof (induction fid r db rule: scanHintLoop.induct)
  case (1 fid r db)
  then show ?case by (subst scanHintLoop.simps) (auto simp: Let_def split: prod.splits sum.splits)
qed

lemma scanDataFile_mode: "scanDataFile os fid a w = (w', e) \<Longrightarrow> mode (fst w') = mode (fst w)"
  using scanDataLoop_mode [of os fid a _ 0 0 w] by (auto simp: scanDataFile_def split: sum.splits) (metis fst_conv)

lemma scanHintFile_mode: "scanHintFile os fid w = (w', e) \<Longrightarrow> mode (fst w') = mode (fst w)"
  using scanHintLoop_mode [of fid _ "fst w"] by (auto simp: scanHintFile_def split: sum.splits prod.splits) (metis fst_conv)+

lemma openScan_mode: "openScan os rw ids w = (w', e) \<Longrightarrow> mode (fst w') = mode (fst w)"
proof (induction ids arbitrary: w)
  case (Cons fid ids)
  obtain w1 e1 where d1: "scanDataFile os fid rw w = (w1, e1)" by fastforce
  obtain w2 e2 where d2: "scanHintFile os fid w = (w2, e2)" by fastforce
  obtain w3 e3 where d3: "scanDataFile os fid False w2 = (w3, e3)" by fastforce
  show ?case using Cons.prems Cons.IH [of w1] Cons.IH [of w2] Cons.IH [of w3] d1 d2 d3
      scanDataFile_mode [OF d1] scanHintFile_mode [OF d2] scanDataFile_mode [OF d3]
    by (auto split: if_splits option.splits)
qed simp

lemma open_read_only:
  assumes ro: "\<not> ReadWrite opts0" and op: "OpenWithOptions os held opts0 d = (d', r)"
  shows "d' = d" "r = Inr db \<Longrightarrow> mode db = (normal_opts opts0, False)"
proof -
  have new: "mode (newDB x) = (x, False)" for x by (simp add: mode_def)
  obtain d1 e1 where v: "validateLayout os False d = (d1, e1)" by fastforce
  have d1: "d1 = d" using validateEntries_read_only [of "ReadDir d" d] v by (auto simp: validateLayout_def split: if_splits)
  have "d' = d \<and> (r = Inr db \<longrightarrow> mode db = (normal_opts opts0, False))"
  proof (cases "listDataFileIDs os d")
    case (Inr ids)
    let ?db = "(newDB (normal_opts opts0))\<lparr>activeFileID := last ids, nextFileID := last ids + 1\<rparr>"
    obtain w2 e2 where s: "openScan os False ids (?db, d) = (w2, e2)" by fastforce
    have "mode ?db = (normal_opts opts0, False)" by (simp add: mode_def)
    then show ?thesis
      using op ro v Inr s openScan_read_only [OF s] openScan_mode [OF s] new
      unfolding OpenWithOptions_def normal_opts_def [symmetric] Let_def d1
      by (cases w2) (auto split: if_splits option.splits list.splits simp del: openScan.simps)
  qed (use op ro v in \<open>auto simp: OpenWithOptions_def normal_opts_def [symmetric] Let_def d1 split: if_splits option.splits\<close>)
  then show "d' = d" "r = Inr db \<Longrightarrow> mode db = (normal_opts opts0, False)" by blast+
qed

text \<open>
  C18: a read-only open never changes the directory, whatever system calls fail and however damaged the
  files are, and on the handle it returns \<open>Put\<close> and \<open>Delete\<close> fail with \<open>ErrReadOnly\<close> and change
  nothing.
\<close>

theorem read_only_inert:
  assumes "\<not> ReadWrite opts0" "OpenWithOptions os held opts0 d = (d', r)"
  shows "d' = d \<and> (\<forall>db. r = Inr db \<longrightarrow> DB_Put os' now k v (db, d) = ((db, d), Some ErrReadOnly)
    \<and> DB_Delete os' now k (db, d) = ((db, d), Some ErrReadOnly))"
  using open_read_only [OF assms] assms(1)
  by (auto simp: mode_def DB_Put_def DB_Delete_def ensureOpen_def mustReadWrite_def)

definition read_only :: OpenOptions where
  "read_only = \<lparr>ReadWrite = False, SyncOnPut = False, MaxDataFileSizeBytes = 100\<rparr>"

theorem read_only_inert_witness:
  "OpenWithOptions no_faults False read_only [] = ([], Inr (newDB read_only))
   \<and> DB_Put no_faults 1 ''k'' ''v'' (newDB read_only, []) = ((newDB read_only, []), Some ErrReadOnly)"
proof -
  have o: "OpenWithOptions no_faults False read_only [] = ([], Inr (newDB read_only))"
    by (simp add: OpenWithOptions_def read_only_def validateLayout_def ReadDir_def listDataFileIDs_def List.map_filter_simps)
  show ?thesis using o read_only_inert [OF _ o, of no_faults 1 "''k''" "''v''"] by (simp add: read_only_def)
qed

section \<open>Hint files\<close>

text \<open>
  C20: opening through a hint file gives the same index as opening through the data file. After the
  engine has written the hint file of a data file, scanning the one and scanning the other change any
  handle in the same way.
\<close>

theorem hint_scan_equals_data_scan:
  assumes f: "file_of d (dataFilePath fid) = Some (encode_file recs)" "file_ok recs" and nf: "names_free d"
    and w: "writeHintForDataFile no_faults fid d = (d', err)"
  shows "err = None \<and> scanHintFile no_faults fid (db, d') = scanDataFile no_faults fid rw (db, d')"
proof -
  have ok: "\<forall>rec \<in> set recs. record_ok rec" using f(2) by (auto simp: file_ok_def record_fits_def)
  have d': "err = None" "map_of d' = (map_of d)(hintFilePath fid @ tmpFileSuffix := None,
      hintFilePath fid \<mapsto> File (encode_hints (hints_of 0 recs)))"
    using writeHintForDataFile_records [OF nf f(1) ok] w by auto
  have "file_of d' (dataFilePath fid) = Some (encode_file recs)" "file_of d' (hintFilePath fid) = Some (encode_hints (hints_of 0 recs))"
    using f(1) by (simp_all add: file_of_def d'(2))
  then show ?thesis using scan_file [of d' fid recs] scan_hint [of d' fid recs] f(2) d'(1) by simp
qed

definition one_record :: decodedRecord where
  "one_record = \<lparr>dr_timestamp = 7, dr_key = ''k'', dr_value = [1, 2]\<rparr>"

theorem hint_scan_equals_data_scan_witness:
  "\<exists>d'. writeHintForDataFile no_faults 1 (put_file (dataFilePath 1) (encode_file [one_record]) fresh_dir) = (d', None)
     \<and> scanHintFile no_faults 1 (fresh_db small_files, d') = scanDataFile no_faults 1 True (fresh_db small_files, d')"
proof -
  let ?d = "put_file (dataFilePath 1) (encode_file [one_record]) fresh_dir"
  obtain d' err where w: "writeHintForDataFile no_faults 1 ?d = (d', err)" by fastforce
  have "file_ok [one_record]" by (simp add: file_ok_def record_fits_def record_ok_def encodable_def is_int64_def one_record_def)
  moreover have "names_free ?d" using describes_fresh by (simp add: describes_def names_free_def)
  moreover have "file_of ?d (dataFilePath 1) = Some (encode_file [one_record])" by simp
  ultimately show ?thesis using hint_scan_equals_data_scan [OF _ _ _ w, of "[one_record]"] w by blast
qed

end
