(* ===== verification/StoreFaults.thy ===== *)
theory StoreFaults
  imports Durability
begin

text \<open>
  Where the storage engine falls short of what its callers expect: short writes, torn records cut at a
  field boundary, a clock that is set back, a rotation that fails.
\<close>

section \<open>Records read from the wrong offset\<close>

lemma bit_le_word_cast:
  "bit (le_word (le_bytes n (w :: 'a::len word)) :: 'b::len word) i \<longleftrightarrow> i < LENGTH('b) \<and> i < 8 * n \<and> bit w i"
proof (induction n arbitrary: w i)
  case (Suc n)
  show ?case by (auto simp: bit_simps Suc.IH not_less dest: bit_imp_le_length)
qed simp

lemma drop_le_bytes: "drop m (le_bytes n w) = le_bytes (n - m) (drop_bit (8 * m) w)"
  by (induction m arbitrary: n w) (simp, case_tac n, simp_all add: add.commute)

text \<open>
  Four bytes before a record shift its fields: the upper half of the timestamp is read as the length of
  the key. For the nanosecond clock of a present-day machine that is a number of about four hundred
  million, so the decoder runs into the end of the file.
\<close>

definition clock_high :: "int \<Rightarrow> nat" where
  "clock_high now = unat (ucast (drop_bit 32 (word_of_int now :: u64)) :: u32)"

lemma decode_shifted:
  assumes c: "length c = 4" and hi: "4 + length k + length v < clock_high now" and j: "16 < j"
  shows "decodeDataRecord (c @ take j (encodeDataRecord now k v)) = Inl UnexpectedEOF"
proof -
  let ?ts = "le_bytes 8 (word_of_int now :: u64)"
  define crc where "crc = le_bytes 4 (ChecksumIEEE (metaOf now (length k) (length v) @ bytes_of k @ v))"
  define m where "m = crc @ ?ts @ le_bytes 4 (word_of_nat (length k) :: u32)"
  define r where "r = take (j - 16) (le_bytes 4 (word_of_nat (length v) :: u32) @ bytes_of k @ v)"
  have [simp]: "length m = 16" "length crc = 4" by (simp_all add: m_def crc_def)
  have "encodeDataRecord now k v = m @ le_bytes 4 (word_of_nat (length v) :: u32) @ bytes_of k @ v"
    unfolding encodeDataRecord_metaOf m_def crc_def metaOf_def by simp
  then have enc: "take j (encodeDataRecord now k v) = m @ r" using j by (simp add: r_def)
  have "take 4 (drop 8 m) = le_bytes 4 (drop_bit 32 (word_of_int now :: u64))"
    by (simp add: m_def drop_le_bytes)
  moreover have "(le_word (le_bytes 4 (drop_bit 32 (word_of_int now :: u64))) :: u32) = ucast (drop_bit 32 (word_of_int now :: u64))"
    by (rule bit_word_eqI) (simp add: bit_le_word_cast bit_simps)
  ultimately have ks: "unat (le_word (take 4 (drop 8 m)) :: u32) = clock_high now" by (simp add: clock_high_def)
  have "length r = min (4 + length k + length v) (j - 16)" unfolding r_def length_take by simp
  then have "length r < clock_high now" "0 < length r" using hi j by linarith+
  then have "ReadFull (unat (le_word (take 4 (drop 8 m)) :: u32)) r = Inl UnexpectedEOF"
    unfolding ks by (simp add: ReadFull_short)
  then show ?thesis using c unfolding enc by (simp add: decodeDataRecord_def Let_def)
qed

lemma put_no_rotate:
  assumes "activeFile db = Some p" "\<not> closed db" "ReadWrite (opts db)" "v \<noteq> tombstoneValue" "file_of d p = Some b"
    "activeOffset db + (20 + int (length k) + int (length v)) \<le> MaxDataFileSizeBytes (opts db)"
  shows "DB_Put no_faults now k v (db, d) =
    ((db\<lparr>activeOffset := activeOffset db + (20 + int (length k) + int (length v)),
         keydir := AList.update k \<lparr>FileID = activeFileID db, FileOffset = activeOffset db,
           RecordSize = word_of_nat (20 + length k + length v), TimeStamp = now\<rparr> (keydir db)\<rparr>,
      put_file p (b @ encodeDataRecord now k (bytes_of v)) d), None)"
  using assms by (simp add: DB_Put_def ensureOpen_def mustReadWrite_def appendRecordLocked_def Let_def write_file_def)

lemma entry_atI:
  assumes "file_of d (dataFilePath (FileID e)) = Some (pre @ encodeRecord rec @ post)" "FileOffset e = int (length pre)"
    "record_ok rec" "length (encodeRecord rec) < 2 ^ 32" "TimeStamp e = dr_timestamp rec"
    "RecordSize e = word_of_nat (length (encodeRecord rec))"
  shows "entry_at d e rec"
  using assms unfolding entry_at_def by blast

text \<open>
  C13: a writer that stopped exactly after the checksum of a record leaves four bytes that the next open
  takes for the end of the file and keeps. A \<open>Put\<close> after that open succeeds and is visible, and is lost
  without an error at the following open: the decoder reads the record at the wrong offset, reports a
  torn tail, and the tail is cut off.
\<close>

theorem boundary_tear_loses_put:
  assumes e: "encodable ts0 k0 v0" and fit: "fits now k (length v)" "v \<noteq> tombstoneValue" and hi: "4 + length k + length v < clock_high now"
    and opts: "ReadWrite opts0" "24 + int (length k) + int (length v) \<le> MaxDataFileSizeBytes opts0" "MaxDataFileSizeBytes opts0 < 2 ^ 63"
  shows "snd (sessions opts0 [[OpPut now k v, OpGet k], [OpGet k]]
      (put_file (dataFilePath 1) (take 4 (encodeDataRecord ts0 k0 v0)) fresh_dir))
    = Inr [Inr None, Inr (Some (bytes_of v)), Inl ErrKeyNotFound]"
proof -
  let ?c = "take 4 (encodeDataRecord ts0 k0 v0)" and ?p = "dataFilePath 1" and ?fs = "[(1, [])] :: layout"
  let ?rec = "\<lparr>dr_timestamp = now, dr_key = k, dr_value = bytes_of v\<rparr>"
  have no: "normal_opts opts0 = opts0" using opts(2) by (simp add: normal_opts_def)
  have T: "describes_tail ?fs x (put_file ?p x fresh_dir)" for x
    using tail_of_log [OF log_fresh [OF opts(1,3)], of "[]" x] by (simp add: fresh_db_def fresh_dir_def)
  have "decodeDataRecord ?c = Inl EOF" using decodeDataRecord_torn [OF e, of 4] by simp
  from open_tail [OF T opts(1) this] obtain db1 d1 where o1: "OpenWithOptions no_faults False opts0 (put_file ?p ?c fresh_dir) = (d1, Inr db1)"
    "describes_tail ?fs ?c d1" "keydir db1 = []" "opts db1 = opts0" "\<not> closed db1" "activeFile db1 = Some ?p"
    "activeOffset db1 = 4" "activeFileID db1 = 1"
    by (auto simp: no rebuilt_def openedDB_def)
  define e2 where "e2 = \<lparr>FileID = 1, FileOffset = 4, RecordSize = word_of_nat (20 + length k + length v), TimeStamp = now\<rparr>"
  define d2 where "d2 = put_file ?p (?c @ encodeDataRecord now k (bytes_of v)) d1"
  define db2 where "db2 = db1\<lparr>activeOffset := 24 + (int (length k) + int (length v)), keydir := [(k, e2)]\<rparr>"
  have f1: "file_of d1 ?p = Some ?c" using o1(2) by (simp add: describes_tail_def)
  have put: "DB_Put no_faults now k v (db1, d1) = ((db2, d2), None)"
    using put_no_rotate [OF o1(6,5) _ fit(2) f1, of k now] o1 opts by (simp add: db2_def d2_def e2_def)
  have "file_of d2 (dataFilePath (FileID e2)) = Some (?c @ encodeRecord ?rec @ [])" "FileOffset e2 = int (length ?c)"
    by (simp_all add: d2_def e2_def encodeRecord_def)
  then have at: "entry_at d2 e2 ?rec"
    by (rule entry_atI) (use fits_record [of now k "bytes_of v"] fit(1) in \<open>simp_all add: e2_def\<close>)
  have "\<not> is_tombstone (bytes_of v)" using fit(2) by (simp add: is_tombstone_def)
  then obtain rs where get: "DB_Get no_faults k (db2, d2) = ((db2\<lparr>readers := rs\<rparr>, d2), Inr (bytes_of v))"
    using DB_Get_entry [of db2 ?rec e2 d2] at o1(5) by (auto simp: db2_def)
  have m: "map_of (whole ?fs d2) = map_of (whole ?fs d1)" by (simp add: whole_def d2_def)
  have "describes ?fs (whole ?fs d2)" by (rule describes_cong [of _ "whole ?fs d1"]) (use o1(2) m in \<open>simp_all add: describes_tail_def\<close>)
  then have T2: "describes_tail ?fs (?c @ encodeDataRecord now k (bytes_of v)) d2" by (simp add: describes_tail_def d2_def)
  have "decodeDataRecord (?c @ encodeDataRecord now k (bytes_of v)) = Inl UnexpectedEOF"
    using decode_shifted [of ?c k "bytes_of v" now "20 + length k + length v"] hi by simp
  from open_tail [OF T2 opts(1) this] obtain db3 d3 where o3: "OpenWithOptions no_faults False opts0 d2 = (d3, Inr db3)"
    "keydir db3 = []" "\<not> closed db3" by (auto simp: rebuilt_def openedDB_def)
  have "DB_Get no_faults k (db3, d3) = ((db3, d3), Inl ErrKeyNotFound)" using o3 by (simp add: DB_Get_absent)
  then show ?thesis
    using o1(1) put get o3(1) DB_Close_no_faults [of "db2\<lparr>readers := rs\<rparr>"] DB_Close_no_faults [of db3]
    by (auto simp: session_def)
qed

definition large_files :: OpenOptions where
  "large_files = \<lparr>ReadWrite = True, SyncOnPut = False, MaxDataFileSizeBytes = 0x4000000\<rparr>"

theorem boundary_tear_loses_put_witness:
  "snd (sessions large_files [[OpPut 1700000000000000000 ''k'' ''v'', OpGet ''k''], [OpGet ''k'']]
      (put_file (dataFilePath 1) (take 4 (encodeDataRecord 5 ''a'' [1])) fresh_dir))
    = Inr [Inr None, Inr (Some (bytes_of ''v'')), Inl ErrKeyNotFound]"
proof -
  have "clock_high 1700000000000000000 = 395812094" by (simp add: clock_high_def)
  then show ?thesis
    by (intro boundary_tear_loses_put)
      (simp_all add: encodable_def is_int64_def fits_def large_files_def tombstoneValue_def)
qed

section \<open>A clock that is set back\<close>

lemma get_here:
  assumes "\<not> closed db" "map_of (keydir db) k = Some e" "v \<noteq> tombstoneValue" "fits now k (length v)"
    "file_of d (dataFilePath (FileID e)) = Some (pre @ encodeDataRecord now k (bytes_of v) @ post)" "FileOffset e = int (length pre)"
    "TimeStamp e = now" "RecordSize e = word_of_nat (20 + length k + length v)"
  shows "\<exists>rs. DB_Get no_faults k (db, d) = ((db\<lparr>readers := rs\<rparr>, d), Inr (bytes_of v))"
proof -
  let ?rec = "\<lparr>dr_timestamp = now, dr_key = k, dr_value = bytes_of v\<rparr>"
  have "entry_at d e ?rec" by (rule entry_atI [of _ _ pre _ post])
    (use assms(5-8) fits_record [of now k "bytes_of v"] assms(4) in \<open>simp_all add: encodeRecord_def\<close>)
  moreover have "\<not> is_tombstone (dr_value ?rec)" using assms(3) by (simp add: is_tombstone_def)
  ultimately show ?thesis using DB_Get_entry [of db ?rec e d] assms(1,2) by simp
qed

text \<open>
  C15: when the clock of the machine is set back between two writes of a key, the second value is
  acknowledged and returned until the database is closed; the next open orders the two records by their
  timestamps and returns the first value again.
\<close>

theorem clock_set_back_reverts:
  assumes t: "t2 < t1" and fit: "fits t1 k (length v1)" "fits t2 k (length v2)" "v1 \<noteq> tombstoneValue" "v2 \<noteq> tombstoneValue"
    and opts: "ReadWrite opts0" "40 + 2 * int (length k) + int (length v1) + int (length v2) \<le> MaxDataFileSizeBytes opts0"
      "MaxDataFileSizeBytes opts0 < 2 ^ 63"
  shows "snd (sessions opts0 [[OpPut t1 k v1, OpPut t2 k v2, OpGet k], [OpGet k]] [])
    = Inr [Inr None, Inr None, Inr (Some (bytes_of v2)), Inr (Some (bytes_of v1))]"
proof -
  let ?p = "dataFilePath 1" and ?b1 = "encodeDataRecord t1 k (bytes_of v1)" and ?b2 = "encodeDataRecord t2 k (bytes_of v2)"
  let ?r1 = "\<lparr>dr_timestamp = t1, dr_key = k, dr_value = bytes_of v1\<rparr>" and ?r2 = "\<lparr>dr_timestamp = t2, dr_key = k, dr_value = bytes_of v2\<rparr>"
  have no: "normal_opts opts0 = opts0" using opts(2) by (simp add: normal_opts_def)
  have rf: "record_fits ?r1" "record_fits ?r2" using fits_record [of t1 k "bytes_of v1"] fits_record [of t2 k "bytes_of v2"] fit
    by (simp_all add: record_fits_def)
  define e1 where "e1 = \<lparr>FileID = 1, FileOffset = 0, RecordSize = word_of_nat (20 + length k + length v1), TimeStamp = t1\<rparr>"
  define e2 where "e2 = \<lparr>FileID = 1, FileOffset = 20 + int (length k) + int (length v1),
    RecordSize = word_of_nat (20 + length k + length v2), TimeStamp = t2\<rparr>"
  define d1 where "d1 = put_file ?p ?b1 fresh_dir"
  define d2 where "d2 = put_file ?p (?b1 @ ?b2) d1"
  define db1 where "db1 = (fresh_db opts0)\<lparr>activeOffset := 20 + int (length k) + int (length v1), keydir := [(k, e1)]\<rparr>"
  define db2 where "db2 = db1\<lparr>activeOffset := activeOffset db1 + (20 + int (length k) + int (length v2)), keydir := [(k, e2)]\<rparr>"
  have p1: "DB_Put no_faults t1 k v1 (fresh_db opts0, fresh_dir) = ((db1, d1), None)"
    using put_no_rotate [of "fresh_db opts0" ?p v1 fresh_dir "[]" k t1] fit(3) opts
    by (simp add: fresh_db_def fresh_dir_def newDB_def no db1_def d1_def e1_def)
  have p2: "DB_Put no_faults t2 k v2 (db1, d1) = ((db2, d2), None)"
    using put_no_rotate [of db1 ?p v2 d1 ?b1 k t2] fit(4) opts
    by (simp add: db1_def db2_def d1_def d2_def e2_def fresh_db_def newDB_def no)
  obtain rs where g: "DB_Get no_faults k (db2, d2) = ((db2\<lparr>readers := rs\<rparr>, d2), Inr (bytes_of v2))"
    using get_here [of db2 k e2 v2 t2 d2 ?b1 "[]"] fit by (auto simp: db2_def db1_def e2_def d2_def fresh_db_def newDB_def)
  have D1: "describes ([] @ [(1, [] @ [?r1])]) d1" using describes_fresh
    by (intro describes_append [of _ _ "[]" fresh_dir]) (use rf opts in \<open>auto simp: d1_def encodeRecord_def\<close>)
  have "describes ([] @ [(1, [?r1] @ [?r2])]) d2"
    by (rule describes_append [of _ _ "[?r1]" d1]) (use D1 rf opts in \<open>auto simp: d2_def encodeRecord_def\<close>)
  then have T: "describes_tail [(1, [?r1, ?r2])] [] d2" by simp
  have nt: "\<not> is_tombstone (bytes_of v1)" "\<not> is_tombstone (bytes_of v2)" using fit by (simp_all add: is_tombstone_def)
  have kd: "rebuilt opts0 [(1, [?r1, ?r2])] = [(k, e1)]"
    using t by (simp add: rebuilt_def openedDB_def applyKeydirUpdate_def shouldReplace_def nt e1_def)
  obtain db3 d3 where o: "OpenWithOptions no_faults False opts0 d2 = (d3, Inr db3)" "file_of d3 ?p = Some (?b1 @ ?b2)"
    "keydir db3 = [(k, e1)]" "\<not> closed db3"
    using open_tail [OF T opts(1), of EOF] kd by (auto simp: describes_tail_def encodeRecord_def simp del: describes_tail_Nil)
  obtain rs' where "DB_Get no_faults k (db3, d3) = ((db3\<lparr>readers := rs'\<rparr>, d3), Inr (bytes_of v1))"
    using get_here [of db3 k e1 v1 t1 d3 "[]" ?b2] o fit by (auto simp: e1_def)
  then show ?thesis
    using open_empty [OF opts(1)] p1 p2 g o(1) DB_Close_no_faults [of "db2\<lparr>readers := rs\<rparr>"] DB_Close_no_faults [of "db3\<lparr>readers := rs'\<rparr>"]
    by (auto simp: session_def)
qed

theorem clock_set_back_reverts_witness:
  "snd (sessions large_files [[OpPut 10 ''k'' ''new'', OpPut 9 ''k'' ''newer'', OpGet ''k''], [OpGet ''k'']] [])
    = Inr [Inr None, Inr None, Inr (Some (bytes_of ''newer'')), Inr (Some (bytes_of ''new''))]"
  by (rule clock_set_back_reverts) (simp_all add: is_int64_def fits_def large_files_def tombstoneValue_def)

section \<open>A write that stops half way\<close>

definition short_write :: "string \<Rightarrow> byte list \<Rightarrow> nat \<Rightarrow> os_env" where
  "short_write p bs m = \<lparr>fails = (\<lambda>c. c = SWrite p bs), partial = (\<lambda>_. m)\<rparr>"

text \<open>What \<open>Get\<close> makes of the bytes its index entry points at.\<close>

definition read_back :: "string \<Rightarrow> nat \<Rightarrow> byte list \<Rightarrow> byte list result" where
  "read_back k rsz bs =
     (case decodeDataRecord (take rsz bs) of
        Inl e \<Rightarrow> Inl e
      | Inr (rec, n, _) \<Rightarrow>
          if dr_key rec \<noteq> k \<or> (word_of_nat n :: u32) \<noteq> word_of_nat rsz then Inl ErrCorruptData
          else if is_tombstone (dr_value rec) then Inl ErrKeyNotFound
          else Inr (dr_value rec))"

lemma get_read_back:
  assumes "\<not> closed db" "map_of (keydir db) k = Some e" "file_of d (dataFilePath (FileID e)) = Some (pre @ bs)"
    "FileOffset e = int (length pre)" "RecordSize e = word_of_nat rsz" "rsz < 2 ^ 32"
  shows "snd (DB_Get no_faults k (db, d)) = read_back k rsz bs"
proof -
  have "unat (RecordSize e) = rsz" using assms(5,6) unat_u32_of_nat [of rsz] by simp
  then have "section_reader (pre @ bs) e = take rsz bs" using assms(4) by (simp add: section_reader_def)
  then show ?thesis
    using assms by (auto simp: DB_Get_def readRecordAtEntry_def openReader_def open_existing_def read_back_def
        split: option.splits sum.splits prod.splits)
qed

text \<open>
  C16: when the write of a record fails after \<open>m\<close> bytes, \<open>Put\<close> returns the error but the bytes stay in the
  file, which is opened for appending, while the offset the engine keeps does not move. The next \<open>Put\<close>
  returns no error, and its index entry points at the bytes left over, whatever their number: \<open>Get\<close> decodes
  them followed by the beginning of the new record. When four bytes were left and the clock reads a
  present-day time, \<open>Get\<close> fails with an unexpected end of file; when the write failed after the whole record
  and both records have the same key and size, \<open>Get\<close> returns the value whose \<open>Put\<close> reported an error instead
  of the new one.
\<close>

theorem short_write_shifts_next_put:
  assumes I: "db_inv db d" and v: "v1 \<noteq> tombstoneValue" "v \<noteq> tombstoneValue" and fit: "fits t1 k1 (length v1)" "fits now k (length v)"
    and mx: "activeOffset db + (20 + int (length k1) + int (length v1)) \<le> MaxDataFileSizeBytes (opts db)"
      "activeOffset db + (20 + int (length k) + int (length v)) \<le> MaxDataFileSizeBytes (opts db)"
  defines "lost \<equiv> encodeDataRecord t1 k1 (bytes_of v1)" and "new \<equiv> encodeDataRecord now k (bytes_of v)"
  shows "\<exists>d1 w2. DB_Put (short_write (dataFilePath (activeFileID db)) lost m) t1 k1 v1 (db, d) = ((db, d1), Some OSError)
    \<and> DB_Put no_faults now k v (db, d1) = (w2, None)
    \<and> snd (DB_Get no_faults k w2) = read_back k (length new) (take m lost @ new)
    \<and> (m = 4 \<and> 0 < length k + length v \<and> 4 + length k + length v < clock_high now \<longrightarrow> snd (DB_Get no_faults k w2) = Inl UnexpectedEOF)
    \<and> (length lost \<le> m \<and> k1 = k \<and> length v1 = length v \<longrightarrow> snd (DB_Get no_faults k w2) = Inr (bytes_of v1))"
proof -
  let ?p = "dataFilePath (activeFileID db)" and ?c = "take m lost" and ?size = "20 + length k + length v"
  obtain recs where act: "activeFile db = Some ?p" "file_of d ?p = Some (encode_file recs)" "activeOffset db = int (length (encode_file recs))"
    and opn: "\<not> closed db" "ReadWrite (opts db)" using I by (auto simp: db_inv_def active_ok_def)
  define d1 where "d1 = put_file ?p (encode_file recs @ ?c) d"
  define e where "e = \<lparr>FileID = activeFileID db, FileOffset = activeOffset db, RecordSize = word_of_nat ?size, TimeStamp = now\<rparr>"
  define db2 where "db2 = db\<lparr>activeOffset := activeOffset db + (20 + int (length k) + int (length v)), keydir := AList.update k e (keydir db)\<rparr>"
  define d2 where "d2 = put_file ?p (encode_file recs @ ?c @ new) d1"
  have p1: "DB_Put (short_write ?p lost m) t1 k1 v1 (db, d) = ((db, d1), Some OSError)"
    using act opn v(1) mx(1)
    by (simp add: DB_Put_def ensureOpen_def mustReadWrite_def appendRecordLocked_def Let_def write_file_def short_write_def d1_def lost_def)
  have p2: "DB_Put no_faults now k v (db, d1) = ((db2, d2), None)"
    using put_no_rotate [OF act(1) opn v(2) _ mx(2), of d1 "encode_file recs @ ?c" now] by (simp add: d1_def d2_def db2_def e_def new_def)
  have sz: "length new = ?size" "length lost = 20 + length k1 + length v1" "?size < 2 ^ 32"
    using fit(2) by (simp_all add: new_def lost_def fits_def)
  have g: "snd (DB_Get no_faults k (db2, d2)) = read_back k ?size (?c @ new)"
    by (rule get_read_back [where e = e and pre = "encode_file recs"])
      (use opn act(3) sz(3) in \<open>simp_all add: db2_def d2_def e_def update_conv'\<close>)
  moreover have "read_back k ?size (?c @ new) = Inl UnexpectedEOF"
    if "m = 4" "0 < length k + length v" "4 + length k + length v < clock_high now"
  proof -
    have "take ?size (?c @ new) = ?c @ take (16 + length k + length v) new" "length ?c = 4" using that(1) sz(2) by (simp_all add: add.assoc)
    then show ?thesis
      using decode_shifted [of ?c k "bytes_of v" now "16 + length k + length v"] that(2,3) by (simp add: read_back_def new_def)
  qed
  moreover have "read_back k ?size (?c @ new) = Inr (bytes_of v1)" if "length lost \<le> m" "k1 = k" "length v1 = length v"
  proof -
    have "take ?size (?c @ new) = lost" using that sz(2) by simp
    moreover have "decodeDataRecord lost = Inr (\<lparr>dr_timestamp = t1, dr_key = k1, dr_value = bytes_of v1\<rparr>, ?size, [])"
      using decode_encodeDataRecord [of t1 k1 "bytes_of v1" "[]"] fit(1) that by (simp add: lost_def encodable_def fits_def)
    ultimately show ?thesis using that(2) v(1) by (simp add: read_back_def is_tombstone_def)
  qed
  ultimately show ?thesis using p1 p2 sz(1) by (intro exI [of _ d1] exI [of _ "(db2, d2)"]) auto
qed

theorem short_write_shifts_next_put_witness:
  "\<exists>d1 w2 d3 w4. DB_Put (short_write (dataFilePath 1) (encodeDataRecord 3 ''a'' (bytes_of ''b'')) 4) 3 ''a'' ''b'' (fresh_db large_files, fresh_dir)
      = ((fresh_db large_files, d1), Some OSError)
    \<and> DB_Put no_faults 1700000000000000000 ''k'' ''v'' (fresh_db large_files, d1) = (w2, None)
    \<and> snd (DB_Get no_faults ''k'' w2) = Inl UnexpectedEOF
    \<and> DB_Put (short_write (dataFilePath 1) (encodeDataRecord 3 ''k'' (bytes_of ''b'')) 22) 3 ''k'' ''b'' (fresh_db large_files, fresh_dir)
      = ((fresh_db large_files, d3), Some OSError)
    \<and> DB_Put no_faults 4 ''k'' ''v'' (fresh_db large_files, d3) = (w4, None)
    \<and> snd (DB_Get no_faults ''k'' w4) = Inr (bytes_of ''b'')"
proof -
  have c: "clock_high 1700000000000000000 = 395812094" by (simp add: clock_high_def)
  have I: "db_inv (fresh_db large_files) fresh_dir" by (rule log_inv_db [OF log_fresh]) (simp_all add: large_files_def)
  have o: "activeOffset (fresh_db large_files) = 0" "activeFileID (fresh_db large_files) = 1" "100 \<le> MaxDataFileSizeBytes (opts (fresh_db large_files))"
    by (simp_all add: large_files_def fresh_db_def newDB_def normal_opts_def)
  have v: "''b'' \<noteq> tombstoneValue" "''v'' \<noteq> tombstoneValue" by (simp_all add: tombstoneValue_def)
  have f: "fits 3 ''a'' (length ''b'')" "fits 1700000000000000000 ''k'' (length ''v'')" "fits 3 ''k'' (length ''b'')" "fits 4 ''k'' (length ''v'')"
    by (simp_all add: fits_def is_int64_def)
  show ?thesis
    using short_write_shifts_next_put [OF I v f(1,2), of 4] short_write_shifts_next_put [OF I v f(3,4), of 22] o c by auto
qed

section \<open>A rotation that fails\<close>

text \<open>
  C17: a rotation that cannot create its hint file leaves the database without an active file. The \<open>Put\<close>
  that asked for the rotation returns the error, and every later \<open>Put\<close> fails with \<open>no active file open\<close>
  although the system calls work again; only closing and reopening helps.
\<close>

theorem failed_rotation_blocks_writes:
  assumes I: "db_inv db d" and v: "v \<noteq> tombstoneValue" "v' \<noteq> tombstoneValue"
    and full: "activeOffset db + (20 + int (length k) + int (length v)) > MaxDataFileSizeBytes (opts db)" "0 < activeOffset db"
    and os: "os = \<lparr>fails = (\<lambda>c. c = SOpen (hintFilePath (activeFileID db) @ tmpFileSuffix)), partial = (\<lambda>_. 0)\<rparr>"
  shows "\<exists>db1. DB_Put os now k v (db, d) = ((db1, d), Some OSError)
    \<and> DB_Put no_faults now' k' v' (db1, d) = ((db1, d), Some NoActiveFile)"
proof -
  have act: "activeFile db = Some (dataFilePath (activeFileID db))" "\<not> closed db" "ReadWrite (opts db)"
    "file_of d (dataFilePath (activeFileID db)) \<noteq> None" using I by (auto simp: db_inv_def active_ok_def)
  have "rotateActiveFileLocked os (db, d) = ((db\<lparr>activeFile := None\<rparr>, d), Some OSError)"
    using act by (auto simp: rotateActiveFileLocked_def writeHintForDataFile_def create_trunc_def open_existing_def os Let_def)
  then have "DB_Put os now k v (db, d) = ((db\<lparr>activeFile := None\<rparr>, d), Some OSError)"
    using act full v(1) by (simp add: DB_Put_def ensureOpen_def mustReadWrite_def appendRecordLocked_def Let_def)
  moreover have "DB_Put no_faults now' k' v' (db\<lparr>activeFile := None\<rparr>, d) = ((db\<lparr>activeFile := None\<rparr>, d), Some NoActiveFile)"
    using act v(2) by (simp add: DB_Put_def ensureOpen_def mustReadWrite_def appendRecordLocked_def)
  ultimately show ?thesis by blast
qed

theorem failed_rotation_blocks_writes_witness:
  "\<exists>db d db1 os. DB_Put no_faults 1 ''a'' ''x'' (fresh_db small_files, fresh_dir) = ((db, d), None)
    \<and> DB_Put os 2 ''b'' ''y'' (db, d) = ((db1, d), Some OSError)
    \<and> DB_Put no_faults 3 ''c'' ''z'' (db1, d) = ((db1, d), Some NoActiveFile)"
proof -
  have so: "ReadWrite small_files" "MaxDataFileSizeBytes small_files = 40" "normal_opts small_files = small_files"
    by (simp_all add: small_files_def normal_opts_def)
  have v: "''x'' \<noteq> tombstoneValue" "''y'' \<noteq> tombstoneValue" "''z'' \<noteq> tombstoneValue" by (simp_all add: tombstoneValue_def)
  have ft: "fits 1 ''a'' (length ''x'')" by (simp add: fits_def is_int64_def)
  have I: "db_inv (fresh_db small_files) fresh_dir" by (rule log_inv_db [OF log_fresh]) (simp_all add: so)
  have "nextFileID (fresh_db small_files) \<noteq> max_id" by (simp add: fresh_db_def max_id_def)
  then obtain db d where p: "DB_Put no_faults 1 ''a'' ''x'' (fresh_db small_files, fresh_dir) = ((db, d), None)" "db_inv db d"
    using DB_Put_spec [OF I _ v(1) ft] by blast
  have "activeOffset db = 22" "opts db = small_files"
    using p(1) put_no_rotate [of "fresh_db small_files" "dataFilePath 1" "''x''" fresh_dir "[]" "''a''" 1] v(1)
    by (auto simp: fresh_db_def fresh_dir_def newDB_def so)
  with p(1) failed_rotation_blocks_writes [OF p(2) v(2,3), where k = "''b''"] so(2) show ?thesis by fastforce
qed

end
