(* ===== verification/Merge.thy ===== *)
theory Merge
  imports Durability
begin

text \<open>
  Compaction: \<open>kvstore/merge.go\<close>. \<open>Merge\<close> takes the lock twice. Under the first lock it lists the files
  that are no longer written to and copies the part of the index that points into them; without the
  lock it rewrites those records into new files under temporary names; under the second lock it renames
  the new files, moves the index entries that have not changed meanwhile, and removes the old files. The
  three parts are \<open>mergeStart\<close>, \<open>mergeWrite\<close> and \<open>mergePublish\<close>.
\<close>

section \<open>The files of a merge\<close>

record mergeFile =
  mf_fileID :: u64
  tmpDataPath :: string
  tmpHintPath :: string
  dataPath :: string
  hintPath :: string
  mf_offset :: int

definition newMergeFile :: "os_env \<Rightarrow> world \<Rightarrow> world \<times> mergeFile result" where
  "newMergeFile os w =
     (case w of (db, d) \<Rightarrow>
      case allocateDataFileID db of
        (db, Inl e) \<Rightarrow> ((db, d), Inl e)
      | (db, Inr fileID) \<Rightarrow>
          let dataP = dataFilePath fileID;
              hintP = hintFilePath fileID;
              tmpData = dataP @ tmpFileSuffix;
              tmpHint = hintP @ tmpFileSuffix
          in case create_trunc os tmpData d of
               Inl e \<Rightarrow> ((db, d), Inl e)
             | Inr d \<Rightarrow>
                 (case create_trunc os tmpHint d of
                    Inl e \<Rightarrow> ((db, remove_file tmpData d), Inl e)
                  | Inr d \<Rightarrow>
                      ((db, d), Inr \<lparr>mf_fileID = fileID, tmpDataPath = tmpData, tmpHintPath = tmpHint,
                                     dataPath = dataP, hintPath = hintP, mf_offset = 0\<rparr>)))"

definition closeAndSync :: "os_env \<Rightarrow> mergeFile \<Rightarrow> error option" where
  "closeAndSync os mf =
     (if fails os (SSync (tmpDataPath mf)) then Some OSError
      else if fails os (SSync (tmpHintPath mf)) then Some OSError
      else if fails os (SClose (tmpDataPath mf)) then Some OSError
      else if fails os (SClose (tmpHintPath mf)) then Some OSError
      else None)"

definition cleanupMergeArtifacts :: "mergeFile option \<Rightarrow> dir \<Rightarrow> dir" where
  "cleanupMergeArtifacts mf d =
     (case mf of None \<Rightarrow> d | Some mf \<Rightarrow> remove_file (tmpHintPath mf) (remove_file (tmpDataPath mf) d))"

definition cleanupMergeFiles :: "mergeFile list \<Rightarrow> dir \<Rightarrow> dir" where
  "cleanupMergeFiles files d = fold (\<lambda>mf. cleanupMergeArtifacts (Some mf)) files d"

definition sameEntry :: "KeyDirEntry \<Rightarrow> KeyDirEntry \<Rightarrow> bool" where
  "sameEntry a b \<longleftrightarrow> FileID a = FileID b \<and> FileOffset a = FileOffset b
     \<and> RecordSize a = RecordSize b \<and> TimeStamp a = TimeStamp b"

section \<open>Under the first lock\<close>

text \<open>
  The ids of the files to merge and the part of the index that points into them, as an association list
  in the order of the keys; \<open>None\<close> when there is nothing to merge.
\<close>

definition snapshotOf :: "u64 list \<Rightarrow> keydir \<Rightarrow> keydir" where
  "snapshotOf immutableIDs kd =
     List.map_filter (\<lambda>k. case map_of kd k of
         Some entry \<Rightarrow> if FileID entry \<in> set immutableIDs then Some (k, entry) else None
       | None \<Rightarrow> None) (sortedKeys kd)"

definition mergeStart :: "os_env \<Rightarrow> world \<Rightarrow> (u64 list \<times> keydir) option result" where
  "mergeStart os w =
     (case w of (db, d) \<Rightarrow>
      case ensureOpen db of Some e \<Rightarrow> Inl e | None \<Rightarrow>
      (case mustReadWrite db of Some e \<Rightarrow> Inl e | None \<Rightarrow>
       (case listDataFileIDs os d of
          Inl e \<Rightarrow> Inl e
        | Inr allIDs \<Rightarrow>
            if allIDs = [] then Inr None
            else let immutableIDs = filter (\<lambda>fid. fid \<noteq> activeFileID db) allIDs
                 in if immutableIDs = [] then Inr None
                    else Inr (Some (immutableIDs, snapshotOf immutableIDs (keydir db))))))"

section \<open>Without the lock\<close>

text \<open>
  \<open>mergedFiles\<close> holds pointers in the source; of the files in it only the paths are used after \<open>current\<close>
  has moved on, so the list keeps them as they were created.
\<close>

record mergeState =
  mergedEntries :: keydir
  mergedFiles :: "mergeFile list"
  current :: "mergeFile option"

text \<open>The file the next record goes to: the current one, or a new one when it is full.\<close>

definition mergeTarget :: "os_env \<Rightarrow> int \<Rightarrow> mergeState \<Rightarrow> world \<Rightarrow> world \<times> mergeState \<times> mergeFile result" where
  "mergeTarget os recordLen st w =
     (let fresh = (\<lambda>st.
            case newMergeFile os w of
              (w, Inl e) \<Rightarrow> (w, st\<lparr>current := None\<rparr>, Inl e)
            | (w, Inr mf) \<Rightarrow> (w, st\<lparr>current := Some mf, mergedFiles := mergedFiles st @ [mf]\<rparr>, Inr mf))
      in case current st of
           None \<Rightarrow> fresh st
         | Some mf \<Rightarrow>
             if mf_offset mf + recordLen > MaxDataFileSizeBytes (opts (fst w)) \<and> mf_offset mf > 0
             then (case closeAndSync os mf of Some e \<Rightarrow> (w, st, Inl e) | None \<Rightarrow> fresh st)
             else (w, st, Inr mf))"

fun mergeLoop :: "os_env \<Rightarrow> keydir \<Rightarrow> string list \<Rightarrow> mergeState \<Rightarrow> world \<Rightarrow> world \<times> mergeState \<times> error option" where
  "mergeLoop os snapshot [] st w = (w, st, None)"
| "mergeLoop os snapshot (k # ks) st w =
     (case readRecordAtEntry os k (the (map_of snapshot k)) w of
        (w, Inl e) \<Rightarrow> (w, st, Some e)
      | (w, Inr rec) \<Rightarrow>
          let recBytes = encodeDataRecord (dr_timestamp rec) k (dr_value rec);
              recordLen = int (length recBytes)
          in case mergeTarget os recordLen st w of
               (w, st, Inl e) \<Rightarrow> (w, st, Some e)
             | ((db, d), st, Inr mf) \<Rightarrow>
                 (case write_file os (tmpDataPath mf) recBytes d of
                    (d, Some e) \<Rightarrow> ((db, d), st, Some e)
                  | (d, None) \<Rightarrow>
                      let h = \<lparr>hr_timestamp = dr_timestamp rec, hr_key = k, hr_recordOff = mf_offset mf,
                               hr_recordSize = word_of_nat (length recBytes), hr_tombstone = False\<rparr>
                      in case write_file os (tmpHintPath mf) (encodeHintRecord h) d of
                           (d, Some e) \<Rightarrow> ((db, d), st, Some e)
                         | (d, None) \<Rightarrow>
                             let entry = \<lparr>FileID = mf_fileID mf, FileOffset = mf_offset mf,
                                          RecordSize = word_of_nat (length recBytes), TimeStamp = dr_timestamp rec\<rparr>
                             in mergeLoop os snapshot ks
                                  (st\<lparr>current := Some (mf\<lparr>mf_offset := mf_offset mf + recordLen\<rparr>),
                                      mergedEntries := AList.update k entry (mergedEntries st)\<rparr>)
                                  (db, d)))"

definition mergeWrite :: "os_env \<Rightarrow> keydir \<Rightarrow> world \<Rightarrow> world \<times> mergeState \<times> error option" where
  "mergeWrite os snapshot w =
     (case mergeLoop os snapshot (sortedKeys snapshot) \<lparr>mergedEntries = [], mergedFiles = [], current = None\<rparr> w of
        (w, st, Some e) \<Rightarrow> (w, st, Some e)
      | (w, st, None) \<Rightarrow>
          (w, st, case current st of None \<Rightarrow> None | Some mf \<Rightarrow> closeAndSync os mf))"

section \<open>Under the second lock\<close>

fun renameMerged :: "os_env \<Rightarrow> mergeFile list \<Rightarrow> dir \<Rightarrow> dir \<times> error option" where
  "renameMerged os [] d = (d, None)"
| "renameMerged os (mf # mfs) d =
     (case rename_file os (tmpDataPath mf) (dataPath mf) d of
        Inl e \<Rightarrow> (d, Some e)
      | Inr d \<Rightarrow>
          (case rename_file os (tmpHintPath mf) (hintPath mf) d of
             Inl e \<Rightarrow> (d, Some e)
           | Inr d \<Rightarrow> renameMerged os mfs d))"

definition moveEntry :: "keydir \<Rightarrow> string \<times> KeyDirEntry \<Rightarrow> keydir \<Rightarrow> keydir" where
  "moveEntry snapshot new kd =
     (case map_of kd (fst new) of
        None \<Rightarrow> kd
      | Some currentEntry \<Rightarrow>
          if \<not> sameEntry currentEntry (the (map_of snapshot (fst new))) then kd
          else AList.update (fst new) (snd new) kd)"

definition removeMerged :: "u64 \<Rightarrow> world \<Rightarrow> world" where
  "removeMerged oldID w =
     (case w of (db, d) \<Rightarrow>
      (closeReaderLocked oldID db, remove_file (hintFilePath oldID) (remove_file (dataFilePath oldID) d)))"

definition mergePublish :: "os_env \<Rightarrow> u64 list \<Rightarrow> keydir \<Rightarrow> mergeState \<Rightarrow> world \<Rightarrow> world \<times> error option" where
  "mergePublish os immutableIDs snapshot st w =
     (case w of (db, d) \<Rightarrow>
      case ensureOpen db of Some e \<Rightarrow> ((db, d), Some e) | None \<Rightarrow>
      (case mustReadWrite db of Some e \<Rightarrow> ((db, d), Some e) | None \<Rightarrow>
       (case renameMerged os (mergedFiles st) d of
          (d, Some e) \<Rightarrow> ((db, d), Some e)
        | (d, None) \<Rightarrow>
            let db = db\<lparr>keydir := fold (moveEntry snapshot) (mergedEntries st) (keydir db)\<rparr>
            in (fold removeMerged immutableIDs (db, d), None))))"

section \<open>The whole operation\<close>

text \<open>The deferred clean-up of a merge that was not published.\<close>

definition mergeCleanup :: "mergeState \<Rightarrow> world \<Rightarrow> world" where
  "mergeCleanup st w = (fst w, cleanupMergeArtifacts (current st) (cleanupMergeFiles (mergedFiles st) (snd w)))"

definition DB_Merge :: "os_env \<Rightarrow> world \<Rightarrow> world \<times> error option" where
  "DB_Merge os w =
     (case mergeStart os w of
        Inl e \<Rightarrow> (w, Some e)
      | Inr None \<Rightarrow> (w, None)
      | Inr (Some (immutableIDs, snapshot)) \<Rightarrow>
          (case mergeWrite os snapshot w of
             (w, st, Some e) \<Rightarrow> (mergeCleanup st w, Some e)
           | (w, st, None) \<Rightarrow>
               (case mergePublish os immutableIDs snapshot st w of
                  (w, Some e) \<Rightarrow> (mergeCleanup st w, Some e)
                | (w, None) \<Rightarrow> (w, None))))"

end
