(* ===== verification/MergeInv.thy ===== *)
theory MergeInv
  imports Merge
begin

text \<open>
  What a merge keeps. While the new files are written nothing but temporary files changes; publishing
  moves the index to them and removes the old files, and every key reads as before.
\<close>

section \<open>Temporary names\<close>

abbreviation tmpD :: "u64 \<Rightarrow> string" where "tmpD fid \<equiv> dataFilePath fid @ tmpFileSuffix"
abbreviation tmpH :: "u64 \<Rightarrow> string" where "tmpH fid \<equiv> hintFilePath fid @ tmpFileSuffix"

lemma not_tmp_names:
  "tmpD i \<noteq> dataFilePath j" "tmpD i \<noteq> hintFilePath j" "tmpD i \<noteq> writerLockFileName"
  "tmpH i \<noteq> dataFilePath j" "tmpH i \<noteq> hintFilePath j" "tmpH i \<noteq> writerLockFileName"
  using suffix_names HasSuffix_append by metis+

lemmas tmp_neq [simp] = not_tmp_names not_tmp_names [symmetric]

lemma data_hint_tmp [simp]: "tmpD i \<noteq> tmpH j" "tmpH j \<noteq> tmpD i"
  by simp_all

definition tmp_free :: "dir \<Rightarrow> bool" where
  "tmp_free d \<longleftrightarrow> (\<forall>fid. \<not> is_dir d (tmpD fid))"

section \<open>A merge in progress\<close>

definition mfile :: "u64 \<Rightarrow> int \<Rightarrow> mergeFile" where
  "mfile fid off = \<lparr>mf_fileID = fid, tmpDataPath = tmpD fid, tmpHintPath = tmpH fid, dataPath = dataFilePath fid,
     hintPath = hintFilePath fid, mf_offset = off\<rparr>"

lemma mfile_simps [simp]:
  "mf_fileID (mfile fid off) = fid" "tmpDataPath (mfile fid off) = tmpD fid" "tmpHintPath (mfile fid off) = tmpH fid"
  "dataPath (mfile fid off) = dataFilePath fid" "hintPath (mfile fid off) = hintFilePath fid" "mf_offset (mfile fid off) = off"
  "(mfile fid off)\<lparr>mf_offset := off'\<rparr> = mfile fid off'"
  by (simp_all add: mfile_def)

text \<open>The new files with the records written so far, as a layout.\<close>

definition tmp_layout :: "layout \<Rightarrow> dir \<Rightarrow> bool" where
  "tmp_layout ms d \<longleftrightarrow> (\<forall>(fid, recs) \<in> set ms. file_of d (tmpD fid) = Some (encode_file recs)
     \<and> file_of d (tmpH fid) = Some (encode_hints (hints_of 0 recs)) \<and> file_ok recs)"

lemma tmp_layout_put:
  assumes "tmp_layout ms d" "fid \<notin> fst ` set ms"
  shows "tmp_layout ms (put_file (tmpH fid) a (put_file (tmpD fid) b d))"
  unfolding tmp_layout_def
proof clarify
  fix f recs assume f: "(f, recs) \<in> set ms"
  then have "f \<noteq> fid" using assms(2) by force
  then show "file_of (put_file (tmpH fid) a (put_file (tmpD fid) b d)) (tmpD f) = Some (encode_file recs)
    \<and> file_of (put_file (tmpH fid) a (put_file (tmpD fid) b d)) (tmpH f) = Some (encode_hints (hints_of 0 recs)) \<and> file_ok recs"
    using assms(1) f by (auto simp: tmp_layout_def)
qed

definition merge_ids :: "u64 \<Rightarrow> layout \<Rightarrow> DB \<Rightarrow> dir \<Rightarrow> bool" where
  "merge_ids lo ms db d \<longleftrightarrow> sorted_wrt (<) (map fst ms) \<and> lo \<le> nextFileID db
     \<and> (\<forall>fid \<in> fst ` set ms. lo \<le> fid \<and> fid < nextFileID db \<and> fid \<noteq> activeFileID db \<and> map_of d (dataFilePath fid) = None)"

definition live_record :: "keydir \<Rightarrow> dir \<Rightarrow> decodedRecord \<Rightarrow> bool" where
  "live_record snap d rec \<longleftrightarrow> (\<exists>e. map_of snap (dr_key rec) = Some e \<and> entry_at d e rec \<and> \<not> is_tombstone (dr_value rec))"

definition merging :: "u64 \<Rightarrow> keydir \<Rightarrow> layout \<Rightarrow> mergeState \<Rightarrow> DB \<Rightarrow> dir \<Rightarrow> bool" where
  "merging lo snap ms st db d \<longleftrightarrow> db_inv db d \<and> tmp_free d \<and> tmp_layout ms d \<and> merge_ids lo ms db d
     \<and> (\<forall>rec \<in> set (all_records ms). live_record snap d rec)
     \<and> mergedFiles st = map (\<lambda>(fid, _). mfile fid 0) ms
     \<and> map_of (mergedEntries st) = replay (all_updates ms) \<and> distinct (map fst (mergedEntries st))
     \<and> current st = (if ms = [] then None else Some (mfile (fst (last ms)) (int (length (encode_file (snd (last ms)))))))
     \<and> MaxDataFileSizeBytes (opts db) < 2 ^ 63"

text \<open>Steps of a merge touch temporary files only.\<close>

lemma entry_at_tmp:
  assumes "\<And>n. \<not> HasSuffix n tmpFileSuffix \<Longrightarrow> map_of d' n = map_of d n" "entry_at d e r"
  shows "entry_at d' e r"
  using assms unfolding entry_at_def file_of_def by simp

lemma db_inv_tmp:
  assumes I: "db_inv db d" and m: "\<And>n. \<not> HasSuffix n tmpFileSuffix \<Longrightarrow> map_of d' n = map_of d n"
    and h: "\<And>n. is_dir d' n \<Longrightarrow> is_dir d n"
    and db': "\<not> closed db'" "opts db' = opts db" "keydir db' = keydir db" "activeFile db' = activeFile db"
      "activeFileID db' = activeFileID db" "activeOffset db' = activeOffset db" "nextFileID db \<le> nextFileID db'"
  shows "db_inv db' d'"
proof -
  have "file_of d' (dataFilePath fid) = file_of d (dataFilePath fid)" for fid using m by (simp add: file_of_def)
  then have "active_ok db' d'" using I db' by (simp add: db_inv_def active_ok_def)
  moreover have "ids_fresh db' d'" using I db' m by (auto simp: db_inv_def ids_fresh_def)
  moreover have "names_free d'" using I h unfolding db_inv_def names_free_def by blast
  moreover have "entry_ok d' k e" if "map_of (keydir db') k = Some e" for k e
    using I db'(3) that entry_at_tmp [OF m] unfolding db_inv_def entry_ok_def by metis
  ultimately show ?thesis using I db' by (simp add: db_inv_def)
qed

lemma is_dir_tmp_put: "is_dir (put_file n b d) m \<Longrightarrow> is_dir d m"
  by simp

text \<open>Opening a new file.\<close>

lemma merging_new:
  assumes M: "merging lo snap ms st db d" and nw: "nextFileID db \<noteq> max_id" "nextFileID db \<noteq> 0"
  defines "fid \<equiv> nextFileID db"
  shows "\<exists>d'. newMergeFile no_faults (db, d) = ((db\<lparr>nextFileID := fid + 1\<rparr>, d'), Inr (mfile fid 0))
    \<and> merging lo snap (ms @ [(fid, [])]) (st\<lparr>current := Some (mfile fid 0), mergedFiles := mergedFiles st @ [mfile fid 0]\<rparr>)
        (db\<lparr>nextFileID := fid + 1\<rparr>) d'"
proof -
  let ?db = "db\<lparr>nextFileID := fid + 1\<rparr>"
  define d' where "d' = put_file (tmpH fid) [] (put_file (tmpD fid) [] d)"
  have I: "db_inv db d" and tf: "tmp_free d" using M by (simp_all add: merging_def)
  have nd: "\<not> is_dir d (tmpD fid)" "\<not> is_dir d (tmpH fid)" "\<not> closed db" using I tf by (simp_all add: tmp_free_def db_inv_def names_free_def)
  have new: "newMergeFile no_faults (db, d) = ((?db, d'), Inr (mfile fid 0))"
    using nd nw by (simp add: newMergeFile_def allocateDataFileID_def create_trunc_def Let_def mfile_def d'_def fid_def)
  have frame: "map_of d' n = map_of d n" if "\<not> HasSuffix n tmpFileSuffix" for n using that by (auto simp: d'_def)
  have lt: "fid < fid + 1" using less_add_1 nw(1) by (simp add: fid_def)
  have I': "db_inv ?db d'"
    by (rule db_inv_tmp [OF I frame]) (use nd lt in \<open>auto simp: d'_def fid_def\<close>)
  have fresh: "x < fid" if "x \<in> fst ` set ms" for x using M that by (auto simp: merging_def merge_ids_def fid_def)
  have af: "activeFileID db < fid" "map_of d (dataFilePath fid) = None"
    using I by (auto simp: db_inv_def ids_fresh_def fid_def)
  have ids: "merge_ids lo (ms @ [(fid, [])]) ?db d'"
    using M fresh lt af frame by (auto simp: merging_def merge_ids_def sorted_wrt_append fid_def dest: order.strict_trans)
  have "tmp_layout ms d'" unfolding d'_def by (rule tmp_layout_put) (use M fresh in \<open>auto simp: merging_def\<close>)
  then have "tmp_layout (ms @ [(fid, [])]) d'" by (auto simp: tmp_layout_def d'_def file_ok_def encode_hints_def)
  moreover have "live_record snap d' rec" if "live_record snap d rec" for rec
    using that entry_at_tmp [of d' d, OF frame] unfolding live_record_def by blast
  moreover have "tmp_free d'" using tf by (simp add: tmp_free_def d'_def)
  ultimately have "merging lo snap (ms @ [(fid, [])]) (st\<lparr>current := Some (mfile fid 0), mergedFiles := mergedFiles st @ [mfile fid 0]\<rparr>) ?db d'"
    using M I' ids by (simp add: merging_def)
  with new show ?thesis by blast
qed

text \<open>What the writing part of a merge leaves alone; \<open>n\<close> bounds the number of file ids it takes.\<close>

definition merge_frame :: "nat \<Rightarrow> world \<Rightarrow> world \<Rightarrow> bool" where
  "merge_frame n w w' \<longleftrightarrow> (\<exists>rs i. fst w' = (fst w)\<lparr>readers := rs, nextFileID := i\<rparr>)
     \<and> unat (nextFileID (fst w)) \<le> unat (nextFileID (fst w')) \<and> unat (nextFileID (fst w')) \<le> unat (nextFileID (fst w)) + n
     \<and> (\<forall>name. \<not> HasSuffix name tmpFileSuffix \<longrightarrow> map_of (snd w') name = map_of (snd w) name)"

lemma merge_frame_refl: "merge_frame n (db, d) (db\<lparr>readers := rs\<rparr>, d)"
  by (auto simp: merge_frame_def intro!: exI [of _ rs] exI [of _ "nextFileID db"])

lemma merge_frame_trans:
  assumes "merge_frame n w w'" "merge_frame m w' w''"
  shows "merge_frame (n + m) w w''"
proof -
  obtain rs i rs' i' where "fst w' = (fst w)\<lparr>readers := rs, nextFileID := i\<rparr>"
    "fst w'' = (fst w')\<lparr>readers := rs', nextFileID := i'\<rparr>" using assms unfolding merge_frame_def by blast
  then have "fst w'' = (fst w)\<lparr>readers := rs', nextFileID := i'\<rparr>" by simp
  moreover have "unat (nextFileID (fst w)) \<le> unat (nextFileID (fst w''))" "unat (nextFileID (fst w'')) \<le> unat (nextFileID (fst w)) + (n + m)"
    using assms unfolding merge_frame_def by linarith+
  ultimately show ?thesis using assms unfolding merge_frame_def by metis
qed

lemma merging_readers: "merging lo snap ms st db d \<Longrightarrow> merging lo snap ms st (db\<lparr>readers := rs\<rparr>) d"
  by (simp add: merging_def db_inv_def active_ok_def ids_fresh_def merge_ids_def)

lemma unat_Suc_id: "(a :: u64) \<noteq> max_id \<Longrightarrow> unat (a + 1) = unat a + 1"
  using less_add_1 [of a] by (auto simp: word_less_nat_alt unat_plus_if_size split: if_splits)

lemma merging_target:
  assumes M: "merging lo snap ms st db d" and nw: "nextFileID db \<noteq> max_id" and len: "0 \<le> len" "len < 2 ^ 32"
  shows "\<exists>db1 d1 st1 ns fid recs. mergeTarget no_faults len st (db, d) = ((db1, d1), st1, Inr (mfile fid (int (length (encode_file recs)))))
    \<and> merging lo snap (ns @ [(fid, recs)]) st1 db1 d1 \<and> all_records (ns @ [(fid, recs)]) = all_records ms
    \<and> all_updates (ns @ [(fid, recs)]) = all_updates ms \<and> int (length (encode_file recs)) + len < 2 ^ 63 \<and> merge_frame 1 (db, d) (db1, d1)"
proof -
  have mx: "MaxDataFileSizeBytes (opts db) < 2 ^ 63" using M by (simp add: merging_def)
  have nz: "nextFileID db \<noteq> 0" using M by (auto simp: merging_def db_inv_def ids_fresh_def)
  have fresh: "\<exists>db1 d1 st1 ns fid recs. (case newMergeFile no_faults (db, d) of
        (w, Inl e) \<Rightarrow> (w, st\<lparr>current := None\<rparr>, Inl e)
      | (w, Inr mf) \<Rightarrow> (w, st\<lparr>current := Some mf, mergedFiles := mergedFiles st @ [mf]\<rparr>, Inr mf))
      = ((db1, d1), st1, Inr (mfile fid (int (length (encode_file recs)))))
    \<and> merging lo snap (ns @ [(fid, recs)]) st1 db1 d1 \<and> all_records (ns @ [(fid, recs)]) = all_records ms
    \<and> all_updates (ns @ [(fid, recs)]) = all_updates ms \<and> int (length (encode_file recs)) + len < 2 ^ 63 \<and> merge_frame 1 (db, d) (db1, d1)"
  proof -
    let ?fid = "nextFileID db"
    obtain d' where d': "newMergeFile no_faults (db, d) = ((db\<lparr>nextFileID := ?fid + 1\<rparr>, d'), Inr (mfile ?fid 0))"
      "merging lo snap (ms @ [(?fid, [])]) (st\<lparr>current := Some (mfile ?fid 0), mergedFiles := mergedFiles st @ [mfile ?fid 0]\<rparr>)
        (db\<lparr>nextFileID := ?fid + 1\<rparr>) d'"
      using merging_new [OF M nw nz] by blast
    have "map_of d' n = map_of d n" if "\<not> HasSuffix n tmpFileSuffix" for n
      using d'(1) that M by (auto simp: newMergeFile_def allocateDataFileID_def create_trunc_def Let_def split: if_splits)
    then have "merge_frame 1 (db, d) (db\<lparr>nextFileID := ?fid + 1\<rparr>, d')"
      using unat_Suc_id [OF nw] by (auto simp: merge_frame_def intro!: exI [of _ "readers db"] exI [of _ "?fid + 1"])
    then show ?thesis using d' len by (intro exI [of _ "db\<lparr>nextFileID := ?fid + 1\<rparr>"] exI [of _ d']
      exI [of _ "st\<lparr>current := Some (mfile ?fid 0), mergedFiles := mergedFiles st @ [mfile ?fid 0]\<rparr>"]
      exI [of _ ms] exI [of _ ?fid] exI [of _ "[]"]) simp
  qed
  show ?thesis
  proof (cases ms rule: rev_cases)
    case Nil
    then have "current st = None" using M by (simp add: merging_def)
    then show ?thesis using fresh by (simp add: mergeTarget_def)
  next
    case (snoc ns f)
    obtain fid recs where f: "f = (fid, recs)" by (cases f)
    then have cur: "current st = Some (mfile fid (int (length (encode_file recs))))" using M by (simp add: merging_def snoc)
    show ?thesis
    proof (cases "int (length (encode_file recs)) + len > MaxDataFileSizeBytes (opts db) \<and> 0 < length (encode_file recs)")
      case True
      then have "mergeTarget no_faults len st (db, d) = (case newMergeFile no_faults (db, d) of
        (w, Inl e) \<Rightarrow> (w, st\<lparr>current := None\<rparr>, Inl e)
      | (w, Inr mf) \<Rightarrow> (w, st\<lparr>current := Some mf, mergedFiles := mergedFiles st @ [mf]\<rparr>, Inr mf))"
        using cur by (auto simp: mergeTarget_def closeAndSync_def Let_def)
      then show ?thesis using fresh by simp
    next
      case False
      then have "mergeTarget no_faults len st (db, d) = ((db, d), st, Inr (mfile fid (int (length (encode_file recs)))))"
        using cur by (auto simp: mergeTarget_def)
      moreover have "int (length (encode_file recs)) + len < 2 ^ 63" using False mx len by auto
      moreover have "merge_frame 1 (db, d) (db, d)" using merge_frame_refl [of 1 db d "readers db"] by simp
      ultimately show ?thesis using M by (intro exI [of _ db] exI [of _ d] exI [of _ st] exI [of _ ns] exI [of _ fid] exI [of _ recs])
          (simp add: snoc f)
    qed
  qed
qed

lemma hints_of_snoc: "hints_of off (recs @ [rec]) = hints_of off recs @ [hint_of (off + int (length (encode_file recs))) rec]"
  by (induction recs arbitrary: off) (simp_all add: add.assoc)

definition merged_entry :: "u64 \<Rightarrow> decodedRecord list \<Rightarrow> decodedRecord \<Rightarrow> KeyDirEntry" where
  "merged_entry fid recs rec = \<lparr>FileID = fid, FileOffset = int (length (encode_file recs)),
     RecordSize = word_of_nat (length (encodeRecord rec)), TimeStamp = dr_timestamp rec\<rparr>"

lemma merging_write:
  assumes M: "merging lo snap (ns @ [(fid, recs)]) st db d" and r: "record_fits rec" "live_record snap d rec"
    and sz: "int (length (encode_file recs)) + int (length (encodeRecord rec)) < 2 ^ 63"
  shows "\<exists>d1 d'. write_file no_faults (tmpD fid) (encodeRecord rec) d = (d1, None)
    \<and> write_file no_faults (tmpH fid) (encodeHintRecord (hint_of (int (length (encode_file recs))) rec)) d1 = (d', None)
    \<and> merging lo snap (ns @ [(fid, recs @ [rec])])
        (st\<lparr>current := Some (mfile fid (int (length (encode_file recs)) + int (length (encodeRecord rec)))),
            mergedEntries := AList.update (dr_key rec) (merged_entry fid recs rec) (mergedEntries st)\<rparr>) db d'
    \<and> merge_frame 0 (db, d) (db, d')"
proof -
  define d1 where "d1 = put_file (tmpD fid) (encode_file (recs @ [rec])) d"
  define d' where "d' = put_file (tmpH fid) (encode_hints (hints_of 0 (recs @ [rec]))) d1"
  let ?st = "st\<lparr>current := Some (mfile fid (int (length (encode_file recs)) + int (length (encodeRecord rec)))),
      mergedEntries := AList.update (dr_key rec) (merged_entry fid recs rec) (mergedEntries st)\<rparr>"
  have t: "file_of d (tmpD fid) = Some (encode_file recs)" "file_of d (tmpH fid) = Some (encode_hints (hints_of 0 recs))" "file_ok recs"
    and I: "db_inv db d" using M by (simp_all add: merging_def tmp_layout_def)
  have w: "write_file no_faults (tmpD fid) (encodeRecord rec) d = (d1, None)"
    "write_file no_faults (tmpH fid) (encodeHintRecord (hint_of (int (length (encode_file recs))) rec)) d1 = (d', None)"
    using t by (simp_all add: write_file_def d1_def d'_def hints_of_snoc encode_hints_def)
  have frame: "map_of d' n = map_of d n" if "\<not> HasSuffix n tmpFileSuffix" for n using that by (auto simp: d'_def d1_def)
  have I': "db_inv db d'"
    by (rule db_inv_tmp [OF I frame]) (use I in \<open>auto simp: d'_def d1_def db_inv_def\<close>)
  have live: "live_record snap d' x" if "live_record snap d x" for x
    using that entry_at_tmp [of d' d, OF frame] unfolding live_record_def by blast
  have nf: "fid \<notin> fst ` set ns" using M by (auto simp: merging_def merge_ids_def sorted_wrt_append)
  have "tmp_layout ns d" using M by (simp add: merging_def tmp_layout_def)
  then have "tmp_layout ns d'" unfolding d'_def d1_def by (rule tmp_layout_put) (rule nf)
  then have "tmp_layout (ns @ [(fid, recs @ [rec])]) d'"
    using t(3) r(1) sz by (auto simp: tmp_layout_def d'_def d1_def file_ok_def)
  moreover have "merge_ids lo (ns @ [(fid, recs @ [rec])]) db d'" using M frame by (simp add: merging_def merge_ids_def)
  moreover have "updates_of fid 0 (recs @ [rec]) = updates_of fid 0 recs @ [(dr_key rec, merged_entry fid recs rec, False)]"
    using r(2) by (auto simp: updates_of_append merged_entry_def live_record_def)
  then have "map_of (mergedEntries ?st) = replay (all_updates (ns @ [(fid, recs @ [rec])]))"
    using M replay_snoc [of "all_updates (ns @ [(fid, recs)])" "(dr_key rec, merged_entry fid recs rec, False)"]
    by (simp add: merging_def update_conv')
  moreover have "tmp_free d'" using M by (simp add: merging_def tmp_free_def d'_def d1_def)
  ultimately have "merging lo snap (ns @ [(fid, recs @ [rec])]) ?st db d'"
    using M I' live r(2) by (auto simp: merging_def distinct_update)
  moreover have "merge_frame 0 (db, d) (db, d')"
    using frame by (auto simp: merge_frame_def intro!: exI [of _ "readers db"] exI [of _ "nextFileID db"])
  ultimately show ?thesis using w by blast
qed

text \<open>The loop over the keys of the snapshot.\<close>

lemma live_read:
  assumes "db_inv db d" "map_of snap k = Some e" "entry_at d e rec" "dr_key rec = k"
  shows "\<exists>rs. readRecordAtEntry no_faults k e (db, d) = ((db\<lparr>readers := rs\<rparr>, d), Inr rec)"
  using read_entry_at [OF assms(3), of db] assms(1,4) by (auto simp: db_inv_def)

lemma live_record_frame:
  "merge_frame n (db, d) (db', d') \<Longrightarrow> live_record snap d rec \<Longrightarrow> live_record snap d' rec"
  using entry_at_tmp [of d' d] unfolding live_record_def merge_frame_def by (metis snd_conv)

lemma mergeLoop_spec:
  assumes "merging lo snap ms st db d" "unat (nextFileID db) + length ks < 2 ^ 64 - 1"
    and "\<forall>k \<in> set ks. \<exists>rec. dr_key rec = k \<and> live_record snap d rec"
  shows "\<exists>db' d' st' ms'. mergeLoop no_faults snap ks st (db, d) = ((db', d'), st', None) \<and> merging lo snap ms' st' db' d'
    \<and> map dr_key (all_records ms') = map dr_key (all_records ms) @ ks \<and> merge_frame (length ks) (db, d) (db', d')"
  using assms
proof (induction ks arbitrary: ms st db d)
  case Nil
  then show ?case using merge_frame_refl [of 0 db d "readers db"] by auto
next
  case (Cons k ks)
  obtain rec e where rec: "dr_key rec = k" "map_of snap k = Some e" "entry_at d e rec" "\<not> is_tombstone (dr_value rec)"
    using Cons.prems(3) by (auto simp: live_record_def)
  have fits: "record_fits rec" using rec(3) by (simp add: entry_at_def record_fits_def)
  have len: "int (length (encodeRecord rec)) < 2 ^ 32" using fits by (simp add: record_fits_def)
  have I: "db_inv db d" using Cons.prems(1) by (simp add: merging_def)
  obtain rs where rd: "readRecordAtEntry no_faults k e (db, d) = ((db\<lparr>readers := rs\<rparr>, d), Inr rec)"
    using live_read [OF I rec(2,3,1)] by blast
  define db0 where "db0 = db\<lparr>readers := rs\<rparr>"
  have M0: "merging lo snap ms st db0 d" using merging_readers [OF Cons.prems(1)] by (simp add: db0_def)
  have nw: "nextFileID db0 \<noteq> max_id"
    using Cons.prems(2) by (auto simp: db0_def max_id_def unsigned_minus_1_eq_mask mask_eq_exp_minus_1)
  obtain db1 d1 st1 ns fid recs where T: "mergeTarget no_faults (int (length (encodeRecord rec))) st (db0, d)
      = ((db1, d1), st1, Inr (mfile fid (int (length (encode_file recs)))))"
    "merging lo snap (ns @ [(fid, recs)]) st1 db1 d1" "all_records (ns @ [(fid, recs)]) = all_records ms"
    "int (length (encode_file recs)) + int (length (encodeRecord rec)) < 2 ^ 63" "merge_frame 1 (db0, d) (db1, d1)"
    using merging_target [OF M0 nw, of "int (length (encodeRecord rec))"] len by (metis of_nat_0_le_iff)
  have "live_record snap d rec" using rec by (auto simp: live_record_def)
  then have "live_record snap d1 rec" using live_record_frame [OF T(5)] by blast
  from merging_write [OF T(2) fits this T(4)] obtain d2 d3 st2 where
    W: "write_file no_faults (tmpD fid) (encodeRecord rec) d1 = (d2, None)"
    "write_file no_faults (tmpH fid) (encodeHintRecord (hint_of (int (length (encode_file recs))) rec)) d2 = (d3, None)"
    "st2 = st1\<lparr>current := Some (mfile fid (int (length (encode_file recs)) + int (length (encodeRecord rec)))),
            mergedEntries := AList.update (dr_key rec) (merged_entry fid recs rec) (mergedEntries st1)\<rparr>"
    "merging lo snap (ns @ [(fid, recs @ [rec])]) st2 db1 d3" "merge_frame 0 (db1, d1) (db1, d3)" by blast
  have F: "merge_frame 1 (db, d) (db1, d3)"
    using merge_frame_trans [OF merge_frame_trans [OF merge_frame_refl [of 0 db d rs] T(5) [unfolded db0_def]] W(5)] by simp
  have room: "unat (nextFileID db1) + length ks < 2 ^ 64 - 1" using F Cons.prems(2) by (simp add: merge_frame_def)
  have "\<forall>k \<in> set ks. \<exists>rec. dr_key rec = k \<and> live_record snap d3 rec"
    using Cons.prems(3) live_record_frame [OF F] by (metis list.set_intros(2))
  from Cons.IH [OF W(4) room this] obtain db' d' st' ms' where
    L: "mergeLoop no_faults snap ks st2 (db1, d3) = ((db', d'), st', None)" "merging lo snap ms' st' db' d'"
    "map dr_key (all_records ms') = map dr_key (all_records (ns @ [(fid, recs @ [rec])])) @ ks" "merge_frame (length ks) (db1, d3) (db', d')"
    by blast
  have "mergeLoop no_faults snap (k # ks) st (db, d) = ((db', d'), st', None)"
    using rd T(1) W(1,2) L(1) rec(2,1,4)
    by (simp add: Let_def encodeRecord_def W(3) merged_entry_def hint_of_def db0_def)
  moreover have "map dr_key (all_records ms') = map dr_key (all_records ms) @ k # ks" using L(3) T(3) [symmetric] rec(1) by simp
  moreover have "merge_frame (length (k # ks)) (db, d) (db', d')" using merge_frame_trans [OF F L(4)] by simp
  ultimately show ?case using L(2) by blast
qed

section \<open>Publishing\<close>

definition renamed :: "layout \<Rightarrow> dir \<Rightarrow> dir \<Rightarrow> bool" where
  "renamed ms d d' \<longleftrightarrow> (\<forall>(fid, recs) \<in> set ms. file_of d' (dataFilePath fid) = Some (encode_file recs)
       \<and> file_of d' (hintFilePath fid) = Some (encode_hints (hints_of 0 recs)))
     \<and> (\<forall>fid. fid \<notin> fst ` set ms \<longrightarrow> map_of d' (dataFilePath fid) = map_of d (dataFilePath fid)
         \<and> map_of d' (hintFilePath fid) = map_of d (hintFilePath fid))
     \<and> (\<forall>n. (\<forall>fid. n \<noteq> dataFilePath fid \<and> n \<noteq> hintFilePath fid) \<longrightarrow> map_of d' n = map_of d n \<or> HasSuffix n tmpFileSuffix \<and> map_of d' n = None)"

lemma renamed_other:
  assumes "renamed ms d d'" "\<forall>fid. n \<noteq> dataFilePath fid \<and> n \<noteq> hintFilePath fid"
  shows "map_of d' n = map_of d n \<or> HasSuffix n tmpFileSuffix \<and> map_of d' n = None"
  using assms unfolding renamed_def by simp

lemma map_of_rename:
  assumes "file_of d a = Some x" "\<not> is_dir d b"
  shows "\<exists>d'. rename_file no_faults a b d = Inr d' \<and> map_of d' = (map_of d)(a := None, b \<mapsto> File x)"
  using assms by (simp add: rename_file_def delete_conv')

lemma renameMerged_spec:
  assumes "tmp_layout ms d" "distinct (map fst ms)" "names_free d"
  shows "\<exists>d'. renameMerged no_faults (map (\<lambda>(fid, _). mfile fid 0) ms) d = (d', None) \<and> renamed ms d d'"
  using assms
proof (induction ms arbitrary: d)
  case Nil
  then show ?case by (simp add: renamed_def)
next
  case (Cons f ms)
  obtain fid recs where f: "f = (fid, recs)" by (cases f)
  have t: "file_of d (tmpD fid) = Some (encode_file recs)" "file_of d (tmpH fid) = Some (encode_hints (hints_of 0 recs))"
    using Cons.prems(1) by (simp_all add: tmp_layout_def f)
  have nd: "\<not> is_dir d (dataFilePath fid)" "\<not> is_dir d (hintFilePath fid)" using Cons.prems(3) by (simp_all add: names_free_def)
  obtain d1 where d1: "rename_file no_faults (tmpD fid) (dataFilePath fid) d = Inr d1"
    "map_of d1 = (map_of d)(tmpD fid := None, dataFilePath fid \<mapsto> File (encode_file recs))"
    using map_of_rename [OF t(1) nd(1)] by blast
  have "file_of d1 (tmpH fid) = Some (encode_hints (hints_of 0 recs))" "\<not> is_dir d1 (hintFilePath fid)"
    using t(2) nd(2) by (simp_all add: file_of_def is_dir_def d1(2))
  from map_of_rename [OF this] obtain d2 where d2: "rename_file no_faults (tmpH fid) (hintFilePath fid) d1 = Inr d2"
    "map_of d2 = (map_of d1)(tmpH fid := None, hintFilePath fid \<mapsto> File (encode_hints (hints_of 0 recs)))" by blast
  have m2: "map_of d2 = (map_of d)(tmpD fid := None, dataFilePath fid \<mapsto> File (encode_file recs), tmpH fid := None,
      hintFilePath fid \<mapsto> File (encode_hints (hints_of 0 recs)))" by (simp add: d1 d2)
  have "file_of d2 (tmpD x) = file_of d (tmpD x)" "file_of d2 (tmpH x) = file_of d (tmpH x)" if "x \<in> fst ` set ms" for x
    using that Cons.prems(2) by (auto simp: file_of_def m2 f)
  then have "tmp_layout ms d2" using Cons.prems(1) unfolding tmp_layout_def f by fastforce
  moreover have "names_free d2" using Cons.prems(3) by (simp add: names_free_def is_dir_def m2)
  ultimately obtain d3 where d3: "renameMerged no_faults (map (\<lambda>(fid, _). mfile fid 0) ms) d2 = (d3, None)" "renamed ms d2 d3"
    using Cons.IH Cons.prems(2) by auto
  have nf: "fid \<notin> fst ` set ms" using Cons.prems(2) by (simp add: f)
  have "renamed (f # ms) d d3" unfolding renamed_def
  proof (intro conjI allI impI ballI)
    fix g assume "g \<in> set (f # ms)"
    moreover have "map_of d3 (dataFilePath fid) = Some (File (encode_file recs))"
      "map_of d3 (hintFilePath fid) = Some (File (encode_hints (hints_of 0 recs)))"
      using d3(2) nf by (simp_all add: renamed_def m2)
    ultimately show "case g of (fid, recs) \<Rightarrow> file_of d3 (dataFilePath fid) = Some (encode_file recs)
        \<and> file_of d3 (hintFilePath fid) = Some (encode_hints (hints_of 0 recs))"
      using d3(2) by (auto simp: renamed_def f file_of_map_of)
  next
    fix x assume x: "x \<notin> fst ` set (f # ms)"
    then show "map_of d3 (dataFilePath x) = map_of d (dataFilePath x)" "map_of d3 (hintFilePath x) = map_of d (hintFilePath x)"
      using d3(2) by (auto simp: renamed_def m2 f)
  next
    fix n assume "\<forall>fid. n \<noteq> dataFilePath fid \<and> n \<noteq> hintFilePath fid"
    moreover from this have "map_of d3 n = map_of d2 n \<or> HasSuffix n tmpFileSuffix \<and> map_of d3 n = None"
      by (rule renamed_other [OF d3(2)])
    ultimately show "map_of d3 n = map_of d n \<or> HasSuffix n tmpFileSuffix \<and> map_of d3 n = None"
      by (auto simp: m2 split: if_splits)
  qed
  then show ?case using d1(1) d2(1) d3(1) by (auto simp: f)
qed

lemma sameEntry_eq: "sameEntry a b \<longleftrightarrow> a = b"
  by (auto simp: sameEntry_def)

lemma map_of_moveEntries:
  assumes "distinct (map fst es)"
  shows "map_of (fold (moveEntry snap) es kd) k =
    (case map_of es k of None \<Rightarrow> map_of kd k
     | Some new \<Rightarrow> if map_of kd k \<noteq> None \<and> the (map_of kd k) = the (map_of snap k) then Some new else map_of kd k)"
  using assms
proof (induction es arbitrary: kd)
  case (Cons x es)
  have m: "map_of (moveEntry snap x kd) k = (if k = fst x \<and> map_of kd k \<noteq> None \<and> the (map_of kd k) = the (map_of snap k)
      then Some (snd x) else map_of kd k)"
    by (auto simp: moveEntry_def sameEntry_eq update_conv' split: option.splits)
  have n: "map_of es (fst x) = None" using Cons.prems by (simp add: map_of_eq_None_iff)
  have e: "map_of (x # es) k = (if k = fst x then Some (snd x) else map_of es k)" by (cases x) simp
  have IH: "map_of (fold (moveEntry snap) (x # es) kd) k = (case map_of es k of None \<Rightarrow> map_of (moveEntry snap x kd) k
     | Some new \<Rightarrow> if map_of (moveEntry snap x kd) k \<noteq> None \<and> the (map_of (moveEntry snap x kd) k) = the (map_of snap k)
         then Some new else map_of (moveEntry snap x kd) k)"
    using Cons.IH [of "moveEntry snap x kd"] Cons.prems by simp
  show ?case unfolding IH e m using n by (cases "k = fst x") simp_all
qed simp

lemma removeMerged_fold:
  "\<exists>rs d'. fold removeMerged imm (db, d) = (db\<lparr>readers := rs\<rparr>, d')
     \<and> (\<forall>n. map_of d' n = (if (\<exists>fid \<in> set imm. n = dataFilePath fid \<or> n = hintFilePath fid) \<and> \<not> is_dir d n then None else map_of d n))"
proof (induction imm arbitrary: db d)
  case Nil
  then show ?case by (auto intro!: exI [of _ "readers db"])
next
  case (Cons fid imm)
  let ?db = "closeReaderLocked fid db" and ?d = "remove_file (hintFilePath fid) (remove_file (dataFilePath fid) d)"
  have m: "map_of ?d n = (if (n = dataFilePath fid \<or> n = hintFilePath fid) \<and> \<not> is_dir d n then None else map_of d n)" for n
    by (auto simp: map_of_remove_file is_dir_def)
  then have dir: "is_dir ?d n = is_dir d n" for n by (auto simp: is_dir_def)
  obtain rs d' where "fold removeMerged imm (?db, ?d) = (?db\<lparr>readers := rs\<rparr>, d')"
    "\<forall>n. map_of d' n = (if (\<exists>fid \<in> set imm. n = dataFilePath fid \<or> n = hintFilePath fid) \<and> \<not> is_dir ?d n then None else map_of ?d n)"
    using Cons.IH [of ?db ?d] by blast
  moreover have "removeMerged fid (db, d) = (?db, ?d)" by (simp add: removeMerged_def)
  moreover have "?db\<lparr>readers := rs\<rparr> = db\<lparr>readers := rs\<rparr>" by (simp add: closeReaderLocked_def)
  ultimately show ?case by (intro exI [of _ rs] exI [of _ d']) (auto simp: m dir)
qed

lemma replay_live:
  assumes "\<forall>u \<in> set us. \<not> snd (snd u)" "k \<in> fst ` set us"
  shows "\<exists>e. replay us k = Some e"
  using assms
proof (induction us rule: rev_induct)
  case (snoc u us)
  obtain k' e t where u: "u = (k', e, t)" by (cases u)
  show ?case using snoc by (auto simp: replay_snoc u)
qed simp

lemma updates_of_value:
  "u \<in> set (updates_of fid off recs) \<Longrightarrow> \<exists>rec \<in> set recs. fst u = dr_key rec \<and> snd (snd u) = is_tombstone (dr_value rec)"
  by (induction recs arbitrary: off) fastforce+

lemma keys_of_updates: "fst ` set (all_updates ms) = dr_key ` set (all_records ms)"
proof (induction ms)
  case (Cons f ms)
  have "fst ` set (updates_of fid off recs) = dr_key ` set recs" for fid off recs by (induction recs arbitrary: off) simp_all
  then show ?case using Cons by (cases f) (simp add: image_Un)
qed simp

lemma merged_record:
  assumes r: "renamed ms d0 d" and ok: "\<forall>(fid, recs) \<in> set ms. file_ok recs" and e: "replay (all_updates ms) k = Some e"
  shows "FileID e \<in> fst ` set ms" "\<exists>rec \<in> set (all_records ms). dr_key rec = k \<and> entry_at d e rec"
proof -
  from replay_in [OF e] obtain fid recs where f: "(fid, recs) \<in> set ms" and u: "(k, e, False) \<in> set (updates_of fid 0 recs)"
    by (auto simp: all_updates_def)
  obtain pre rec post where s: "recs = pre @ rec # post" "k = dr_key rec"
    "e = \<lparr>FileID = fid, FileOffset = int (length (encode_file pre)),
           RecordSize = word_of_nat (length (encodeRecord rec)), TimeStamp = dr_timestamp rec\<rparr>"
    using updates_of_split [OF u] by auto
  show "FileID e \<in> fst ` set ms" using f s(3) by force
  have "record_fits rec" using ok f s(1) by (auto simp: file_ok_def)
  moreover have "file_of d (dataFilePath fid) = Some (encode_file pre @ encodeRecord rec @ encode_file post)"
    using r f s(1) by (auto simp: renamed_def)
  ultimately have "entry_at d e rec" unfolding entry_at_def s(3) record_fits_def by auto
  moreover have "rec \<in> set (all_records ms)" using f s(1) by (force simp: all_records_def)
  ultimately show "\<exists>rec \<in> set (all_records ms). dr_key rec = k \<and> entry_at d e rec" using s(2) by blast
qed

text \<open>
  What publishing needs to know of the handle at that moment: every entry that points into a file about
  to be removed is the one of the snapshot, and the snapshot has been rewritten completely.
\<close>

definition publishable :: "u64 list \<Rightarrow> keydir \<Rightarrow> layout \<Rightarrow> DB \<Rightarrow> dir \<Rightarrow> bool" where
  "publishable imm snap ms db d \<longleftrightarrow> activeFileID db \<notin> set imm
     \<and> (\<forall>fid \<in> set imm. map_of d (dataFilePath fid) \<noteq> None)
     \<and> (\<forall>k e. map_of snap k = Some e \<longrightarrow> FileID e \<in> set imm \<and> k \<in> dr_key ` set (all_records ms))
     \<and> (\<forall>k e. map_of (keydir db) k = Some e \<longrightarrow> FileID e \<in> set imm \<longrightarrow> map_of snap k = Some e)"

lemma replay_snap:
  assumes live: "\<forall>rec \<in> set (all_records ms). live_record snap d rec" and P: "publishable imm snap ms db d" and k: "map_of snap k \<noteq> None"
  shows "\<exists>e. replay (all_updates ms) k = Some e"
proof (rule replay_live)
  show "k \<in> fst ` set (all_updates ms)" unfolding keys_of_updates using P k unfolding publishable_def by blast
  show "\<forall>u \<in> set (all_updates ms). \<not> snd (snd u)"
  proof
    fix u assume "u \<in> set (all_updates ms)"
    then obtain fid recs where f: "(fid, recs) \<in> set ms" and u: "u \<in> set (updates_of fid 0 recs)" by (auto simp: all_updates_def)
    obtain rec where "rec \<in> set recs" "snd (snd u) = is_tombstone (dr_value rec)" using updates_of_value [OF u] by blast
    moreover from this f have "live_record snap d rec" using live by (force simp: all_records_def)
    ultimately show "\<not> snd (snd u)" by (auto simp: live_record_def)
  qed
qed

text \<open>The files after the merge.\<close>

lemma merged_files:
  assumes r: "renamed ms d d1" and P: "publishable imm snap ms db d" and ids: "merge_ids lo ms db d" and nf: "names_free d"
    and d': "\<forall>n. map_of d' n = (if (\<exists>fid \<in> set imm. n = dataFilePath fid \<or> n = hintFilePath fid) \<and> \<not> is_dir d1 n then None else map_of d1 n)"
  shows "map_of d' n = (if (\<exists>fid \<in> set imm. n = dataFilePath fid \<or> n = hintFilePath fid) then None else map_of d1 n)"
    "fid \<notin> set imm \<Longrightarrow> fid \<notin> fst ` set ms \<Longrightarrow> file_of d' (dataFilePath fid) = file_of d (dataFilePath fid)"
    "fid \<in> fst ` set ms \<Longrightarrow> file_of d' (dataFilePath fid) = file_of d1 (dataFilePath fid)" "fid \<in> fst ` set ms \<Longrightarrow> fid \<notin> set imm"
    "is_dir d1 n' \<Longrightarrow> is_dir d n'"
proof -
  have dir: "\<not> is_dir d1 (dataFilePath fid)" "\<not> is_dir d1 (hintFilePath fid)" for fid
  proof -
    have "fid \<in> fst ` set ms \<Longrightarrow> file_of d1 (dataFilePath fid) \<noteq> None \<and> file_of d1 (hintFilePath fid) \<noteq> None"
      using r unfolding renamed_def by fastforce
    moreover have "fid \<notin> fst ` set ms \<Longrightarrow> is_dir d1 (dataFilePath fid) = is_dir d (dataFilePath fid) \<and> is_dir d1 (hintFilePath fid) = is_dir d (hintFilePath fid)"
      using r unfolding renamed_def is_dir_def by simp
    moreover have "\<not> is_dir d (dataFilePath fid)" "\<not> is_dir d (hintFilePath fid)" using nf by (simp_all add: names_free_def)
    ultimately show "\<not> is_dir d1 (dataFilePath fid)" "\<not> is_dir d1 (hintFilePath fid)"
      using not_is_dir_file [of d1] by (metis option.exhaust)+
  qed
  show m: "map_of d' n = (if (\<exists>fid \<in> set imm. n = dataFilePath fid \<or> n = hintFilePath fid) then None else map_of d1 n)" for n
    using d' dir by auto
  show disj: "fid \<in> fst ` set ms \<Longrightarrow> fid \<notin> set imm" for fid using P ids unfolding publishable_def merge_ids_def by blast
  show "fid \<notin> set imm \<Longrightarrow> fid \<notin> fst ` set ms \<Longrightarrow> file_of d' (dataFilePath fid) = file_of d (dataFilePath fid)" for fid
    using r unfolding renamed_def by (auto simp: file_of_def m)
  show "fid \<in> fst ` set ms \<Longrightarrow> file_of d' (dataFilePath fid) = file_of d1 (dataFilePath fid)" for fid
    using disj [of fid] by (auto simp: file_of_def m)
  show "is_dir d1 n' \<Longrightarrow> is_dir d n'"
  proof -
    assume n: "is_dir d1 n'"
    then have "\<forall>fid. n' \<noteq> dataFilePath fid \<and> n' \<noteq> hintFilePath fid" using dir by blast
    then have "map_of d1 n' = map_of d n' \<or> HasSuffix n' tmpFileSuffix \<and> map_of d1 n' = None" using renamed_other [OF r] by blast
    then show "is_dir d n'" using n by (auto simp: is_dir_def)
  qed
qed

lemma merged_keydir:
  assumes M: "merging lo snap ms st db d" and P: "publishable imm snap ms db d"
  shows "map_of (fold (moveEntry snap) (mergedEntries st) (keydir db)) k =
    (case map_of (keydir db) k of None \<Rightarrow> None
     | Some e \<Rightarrow> if FileID e \<in> set imm then replay (all_updates ms) k else Some e)"
proof -
  have m: "map_of (mergedEntries st) = replay (all_updates ms)" "distinct (map fst (mergedEntries st))"
    using M by (simp_all add: merging_def)
  have live: "\<forall>rec \<in> set (all_records ms). live_record snap d rec" using M by (simp add: merging_def)
  have snap: "\<exists>e. map_of snap k = Some e" if "replay (all_updates ms) k \<noteq> None"
  proof -
    have "k \<in> fst ` set (all_updates ms)" using that replay_in by force
    then show ?thesis using live unfolding keys_of_updates by (auto simp: live_record_def)
  qed
  have rep: "\<exists>e. replay (all_updates ms) k = Some e" if "map_of snap k \<noteq> None"
    using replay_snap [OF live P] that by blast
  show ?thesis
  proof (cases "map_of (keydir db) k")
    case None
    then show ?thesis by (simp add: map_of_moveEntries [OF m(2)] split: option.splits)
  next
    case (Some e)
    show ?thesis
    proof (cases "FileID e \<in> set imm")
      case True
      then have "map_of snap k = Some e" using P Some unfolding publishable_def by blast
      then show ?thesis using rep Some True by (auto simp: map_of_moveEntries [OF m(2)] m(1))
    next
      case False
      then have "map_of snap k \<noteq> Some e" using P unfolding publishable_def by blast
      then show ?thesis using snap Some False by (auto simp: map_of_moveEntries [OF m(2)] m(1) split: option.splits)
    qed
  qed
qed

lemma publish_spec:
  assumes M: "merging lo snap ms st db d" and P: "publishable imm snap ms db d"
  shows "\<exists>db' d'. mergePublish no_faults imm snap st (db, d) = ((db', d'), None) \<and> db_inv db' d' \<and> contents (db', d') = contents (db, d)
    \<and> (\<exists>rs. db' = db\<lparr>keydir := keydir db', readers := rs\<rparr>) \<and> (\<exists>d1. renamed ms d d1 \<and>
      (\<forall>n. map_of d' n = (if (\<exists>fid \<in> set imm. n = dataFilePath fid \<or> n = hintFilePath fid) then None else map_of d1 n)))
    \<and> (\<forall>k. map_of (keydir db') k = (case map_of (keydir db) k of None \<Rightarrow> None
         | Some e \<Rightarrow> if FileID e \<in> set imm then replay (all_updates ms) k else Some e))"
proof -
  have I: "db_inv db d" and tl: "tmp_layout ms d" and ids: "merge_ids lo ms db d"
    and mf: "mergedFiles st = map (\<lambda>(fid, _). mfile fid 0) ms" using M by (simp_all add: merging_def)
  have opn: "\<not> closed db" "ReadWrite (opts db)" and nf: "names_free d" using I by (simp_all add: db_inv_def)
  have "distinct (map fst ms)" using ids by (simp add: merge_ids_def strict_sorted_iff)
  from renameMerged_spec [OF tl this nf] obtain d1 where d1: "renameMerged no_faults (mergedFiles st) d = (d1, None)" "renamed ms d d1"
    unfolding mf by blast
  define db1 where "db1 = db\<lparr>keydir := fold (moveEntry snap) (mergedEntries st) (keydir db)\<rparr>"
  obtain rs d' where d': "fold removeMerged imm (db1, d1) = (db1\<lparr>readers := rs\<rparr>, d')"
    "\<forall>n. map_of d' n = (if (\<exists>fid \<in> set imm. n = dataFilePath fid \<or> n = hintFilePath fid) \<and> \<not> is_dir d1 n then None else map_of d1 n)"
    using removeMerged_fold [of imm db1 d1] by blast
  have pub: "mergePublish no_faults imm snap st (db, d) = ((db1\<lparr>readers := rs\<rparr>, d'), None)"
    using opn d1(1) d'(1) by (simp add: mergePublish_def ensureOpen_def mustReadWrite_def db1_def)
  define db2 where "db2 = db1\<lparr>readers := rs\<rparr>"
  note F = merged_files [OF d1(2) P ids nf d'(2)]
  have kd: "map_of (keydir db2) k = (case map_of (keydir db) k of None \<Rightarrow> None
     | Some e \<Rightarrow> if FileID e \<in> set imm then replay (all_updates ms) k else Some e)" for k
    using merged_keydir [OF M P] by (simp add: db2_def db1_def)
  have ent: "\<exists>e' rec. map_of (keydir db2) k = Some e' \<and> entry_at d' e' rec \<and> entry_at d e rec \<and> dr_key rec = k \<and> \<not> is_tombstone (dr_value rec)"
    if k: "map_of (keydir db) k = Some e" for k e
  proof (cases "FileID e \<in> set imm")
    case True
    have live: "\<forall>rec \<in> set (all_records ms). live_record snap d rec" using M by (simp add: merging_def)
    have se: "map_of snap k = Some e" using P k True unfolding publishable_def by blast
    obtain e' where e': "replay (all_updates ms) k = Some e'" using replay_snap [OF live P] se by blast
    have ok: "\<forall>(fid, recs) \<in> set ms. file_ok recs" using tl unfolding tmp_layout_def by blast
    obtain rec where rec: "rec \<in> set (all_records ms)" "dr_key rec = k" "entry_at d1 e' rec" and fm: "FileID e' \<in> fst ` set ms"
      using merged_record [OF d1(2) ok e'] by blast
    have "entry_at d' e' rec" using rec(3) F(3) [OF fm] by (simp add: entry_at_def)
    moreover have "entry_at d e rec" "\<not> is_tombstone (dr_value rec)" using live rec(1,2) se by (auto simp: live_record_def)
    ultimately show ?thesis using e' rec(2) k True by (auto simp: kd)
  next
    case False
    obtain rec where rec: "entry_at d e rec" "dr_key rec = k" "\<not> is_tombstone (dr_value rec)"
      using I k unfolding db_inv_def entry_ok_def by blast
    have "FileID e \<notin> fst ` set ms" using rec(1) ids unfolding merge_ids_def entry_at_def by (auto simp: file_of_map_of)
    then have "entry_at d' e rec" using rec(1) F(2) False by (simp add: entry_at_def)
    then show ?thesis using rec k False by (auto simp: kd)
  qed
  have "contents (db2, d') = contents (db, d)"
  proof
    fix k
    show "contents (db2, d') k = contents (db, d) k"
    proof (cases "map_of (keydir db) k")
      case None
      then show ?thesis using opn kd [of k] by (simp add: contents_absent db2_def db1_def)
    next
      case (Some e)
      then obtain e' rec where "map_of (keydir db2) k = Some e'" "entry_at d' e' rec" "entry_at d e rec" "dr_key rec = k" "\<not> is_tombstone (dr_value rec)"
        using ent by blast
      then show ?thesis using contents_entry [of db2 rec e' d'] contents_entry [of db rec e d] opn Some by (simp add: db2_def db1_def)
    qed
  qed
  moreover have "db_inv db2 d'"
  proof -
    have "activeFileID db \<notin> set imm" "activeFileID db \<notin> fst ` set ms" using P ids unfolding publishable_def merge_ids_def by blast+
    then have "active_ok db2 d'" using I F(2) [of "activeFileID db"] by (simp add: db_inv_def active_ok_def db2_def db1_def)
    moreover have "ids_fresh db2 d'"
    proof -
      have "fid < nextFileID db" if "map_of d' (dataFilePath fid) \<noteq> None" for fid
      proof (cases "fid \<in> fst ` set ms")
        case False
        then have "map_of d (dataFilePath fid) \<noteq> None" using that d1(2) by (auto simp: F(1) renamed_def split: if_splits)
        then show ?thesis using I by (auto simp: db_inv_def ids_fresh_def)
      qed (use ids in \<open>auto simp: merge_ids_def\<close>)
      then show ?thesis using I by (simp add: db_inv_def ids_fresh_def db2_def db1_def)
    qed
    moreover have "is_dir d n" if "is_dir d' n" for n using that F(5) [of n] by (auto simp: is_dir_def F(1) split: if_splits)
    then have "names_free d'" using nf unfolding names_free_def by blast
    moreover have "entry_ok d' k e" if "map_of (keydir db2) k = Some e" for k e
    proof -
      have "\<exists>e0. map_of (keydir db) k = Some e0" using that kd [of k] by (simp split: option.splits)
      then show ?thesis using ent that unfolding entry_ok_def by (metis option.inject)
    qed
    ultimately show ?thesis using opn by (simp add: db_inv_def db2_def db1_def)
  qed
  ultimately show ?thesis using pub kd F(1) d1(2) unfolding db2_def [symmetric]
    by (intro exI [of _ db2] exI [of _ d'] conjI exI [of _ rs] exI [of _ d1]) (simp_all add: db2_def db1_def)
qed

section \<open>The whole merge\<close>

lemma set_sortedKeys [simp]: "set (sortedKeys kd) = dom (map_of kd)"
  by (simp add: sortedKeys_def dom_map_of_conv_image_fst)

lemma distinct_sortedKeys [simp]: "distinct (sortedKeys kd)"
  by (simp add: sortedKeys_def)

lemma length_sortedKeys: "length (sortedKeys kd) \<le> length kd"
  unfolding sortedKeys_def length_sort by (metis length_remdups_leq length_map)

lemma map_of_keyed_filter:
  assumes "distinct ks"
  shows "map_of (List.map_filter (\<lambda>k. map_option (Pair k) (f k)) ks) k = (if k \<in> set ks then f k else None)"
  using assms by (induction ks) (auto simp: List.map_filter_simps split: option.splits)

lemma map_of_snapshotOf:
  "map_of (snapshotOf imm kd) k = (case map_of kd k of Some e \<Rightarrow> if FileID e \<in> set imm then Some e else None | None \<Rightarrow> None)"
proof -
  let ?f = "\<lambda>k. case map_of kd k of Some e \<Rightarrow> if FileID e \<in> set imm then Some e else None | None \<Rightarrow> None"
  have "snapshotOf imm kd = List.map_filter (\<lambda>k. map_option (Pair k) (?f k)) (sortedKeys kd)"
    unfolding snapshotOf_def by (rule arg_cong [where f = "\<lambda>g. List.map_filter g (sortedKeys kd)"]) (auto split: option.splits)
  then show ?thesis using map_of_keyed_filter [of "sortedKeys kd" ?f k] by (auto simp: domIff split: option.splits)
qed

lemma length_map_filter: "length (List.map_filter f xs) \<le> length xs"
  by (induction xs) (auto simp: List.map_filter_simps split: option.splits)

lemma length_snapshot_keys: "length (sortedKeys (snapshotOf imm kd)) \<le> length kd"
  using length_sortedKeys [of "snapshotOf imm kd"] length_sortedKeys [of kd]
    length_map_filter [of "\<lambda>k. case map_of kd k of Some e \<Rightarrow> if FileID e \<in> set imm then Some (k, e) else None | None \<Rightarrow> None" "sortedKeys kd"]
  unfolding snapshotOf_def by linarith

definition data_ids :: "dir \<Rightarrow> u64 list" where
  "data_ids d = sorted_list_of_set {fid. file_of d (dataFilePath fid) \<noteq> None}"

lemma listDataFileIDs_ids:
  assumes "\<forall>n. map_of d n \<noteq> None \<longrightarrow> canonical d n" "names_free d"
  shows "listDataFileIDs no_faults d = Inr (data_ids d)"
proof (rule listDataFileIDs_canonical [OF assms])
  have "finite {fid. file_of d (dataFilePath fid) \<noteq> None}" by (rule finite_subset [OF subset_UNIV]) simp
  then show "fid \<in> set (data_ids d) \<longleftrightarrow> file_of d (dataFilePath fid) \<noteq> None" for fid by (simp add: data_ids_def)
  show "sorted_wrt (<) (data_ids d)" by (simp add: data_ids_def)
qed

text \<open>A directory in which a merge can be run.\<close>

definition mergeable :: "DB \<Rightarrow> dir \<Rightarrow> bool" where
  "mergeable db d \<longleftrightarrow> db_inv db d \<and> tmp_free d \<and> (\<forall>n. map_of d n \<noteq> None \<longrightarrow> canonical d n)
     \<and> MaxDataFileSizeBytes (opts db) < 2 ^ 63 \<and> unat (nextFileID db) + length (keydir db) < 2 ^ 64 - 1"

lemma in_data_ids: "fid \<in> set (data_ids d) \<longleftrightarrow> file_of d (dataFilePath fid) \<noteq> None"
proof -
  have "finite {fid. file_of d (dataFilePath fid) \<noteq> None}" by (rule finite_subset [OF subset_UNIV]) simp
  then show ?thesis by (simp add: data_ids_def)
qed

lemma mergeStart_spec:
  assumes "mergeable db d"
  defines "imm \<equiv> filter (\<lambda>fid. fid \<noteq> activeFileID db) (data_ids d)"
  shows "mergeStart no_faults (db, d) = Inr (if imm = [] then None else Some (imm, snapshotOf imm (keydir db)))"
proof -
  have "names_free d" "\<not> closed db" "ReadWrite (opts db)" using assms(1) by (simp_all add: mergeable_def db_inv_def)
  then show ?thesis using listDataFileIDs_ids [of d] assms(1)
    by (auto simp: mergeStart_def ensureOpen_def mustReadWrite_def mergeable_def Let_def imm_def)
qed

definition empty_merge :: mergeState where
  "empty_merge = \<lparr>mergedEntries = [], mergedFiles = [], current = None\<rparr>"

lemma merging_start:
  assumes "db_inv db d" "tmp_free d" "MaxDataFileSizeBytes (opts db) < 2 ^ 63"
  shows "merging (nextFileID db) snap [] empty_merge db d"
  using assms by (simp add: merging_def empty_merge_def tmp_layout_def merge_ids_def)

lemma mergeWrite_spec:
  assumes G: "mergeable db d" and imm: "imm = filter (\<lambda>fid. fid \<noteq> activeFileID db) (data_ids d)" and snap: "snap = snapshotOf imm (keydir db)"
  shows "\<exists>db' d' st ms. mergeWrite no_faults snap (db, d) = ((db', d'), st, None) \<and> merging (nextFileID db) snap ms st db' d'
    \<and> publishable imm snap ms db' d' \<and> map dr_key (all_records ms) = sortedKeys snap \<and> merge_frame (length (sortedKeys snap)) (db, d) (db', d')"
proof -
  let ?ks = "sortedKeys snap"
  have I: "db_inv db d" using G by (simp add: mergeable_def)
  have M: "merging (nextFileID db) snap [] empty_merge db d" by (rule merging_start) (use G in \<open>simp_all add: mergeable_def\<close>)
  have room: "unat (nextFileID db) + length ?ks < 2 ^ 64 - 1"
    using G length_snapshot_keys [of imm "keydir db"] by (simp add: mergeable_def snap)
  have sn: "map_of snap k = Some e \<longleftrightarrow> map_of (keydir db) k = Some e \<and> FileID e \<in> set imm" for k e
    by (auto simp: snap map_of_snapshotOf split: option.splits if_splits)
  have live: "\<forall>k \<in> set ?ks. \<exists>rec. dr_key rec = k \<and> live_record snap d rec"
  proof
    fix k assume "k \<in> set ?ks"
    then obtain e where e: "map_of snap k = Some e" by auto
    then obtain rec where "entry_at d e rec" "dr_key rec = k" "\<not> is_tombstone (dr_value rec)"
      using I sn unfolding db_inv_def entry_ok_def by blast
    then show "\<exists>rec. dr_key rec = k \<and> live_record snap d rec" using e by (auto simp: live_record_def)
  qed
  obtain db' d' st ms where L: "mergeLoop no_faults snap ?ks empty_merge (db, d) = ((db', d'), st, None)" "merging (nextFileID db) snap ms st db' d'"
    "map dr_key (all_records ms) = ?ks" "merge_frame (length ?ks) (db, d) (db', d')"
    using mergeLoop_spec [OF M room live] by auto
  have "mergeWrite no_faults snap (db, d) = ((db', d'), st, None)"
    using L(1) unfolding mergeWrite_def empty_merge_def [symmetric] by (auto simp: closeAndSync_def split: option.splits)
  moreover have "publishable imm snap ms db' d'"
  proof -
    have fr: "keydir db' = keydir db" "activeFileID db' = activeFileID db" "map_of d' (dataFilePath fid) = map_of d (dataFilePath fid)" for fid
      using L(4) by (auto simp: merge_frame_def)
    have "dr_key ` set (all_records ms) = dom (map_of snap)" using arg_cong [OF L(3), of set] by simp
    moreover have "map_of d (dataFilePath fid) \<noteq> None" if "fid \<in> set imm" for fid
      using that by (auto simp: imm in_data_ids file_of_def split: option.splits)
    ultimately show ?thesis using sn unfolding publishable_def fr by (auto simp: imm)
  qed
  ultimately show ?thesis using L by blast
qed

text \<open>The parts of a merge that has something to do, one after the other.\<close>

lemma DB_Merge_parts:
  assumes G: "mergeable db d" and imm: "imm = filter (\<lambda>fid. fid \<noteq> activeFileID db) (data_ids d)" "imm \<noteq> []"
    and snap: "snap = snapshotOf imm (keydir db)"
  shows "\<exists>db1 d1 st ms db' d' d2. DB_Merge no_faults (db, d) = ((db', d'), None) \<and> db_inv db' d' \<and> contents (db', d') = contents (db, d)
    \<and> merging (nextFileID db) snap ms st db1 d1 \<and> map dr_key (all_records ms) = sortedKeys snap
    \<and> merge_frame (length (sortedKeys snap)) (db, d) (db1, d1) \<and> (\<exists>rs. db' = db1\<lparr>keydir := keydir db', readers := rs\<rparr>)
    \<and> renamed ms d1 d2 \<and> (\<forall>n. map_of d' n = (if (\<exists>fid \<in> set imm. n = dataFilePath fid \<or> n = hintFilePath fid) then None else map_of d2 n))
    \<and> (\<forall>k. map_of (keydir db') k = (case map_of (keydir db) k of None \<Rightarrow> None
         | Some e \<Rightarrow> if FileID e \<in> set imm then replay (all_updates ms) k else Some e))"
proof -
  have I: "db_inv db d" using G by (simp add: mergeable_def)
  have start: "mergeStart no_faults (db, d) = Inr (Some (imm, snap))"
    using mergeStart_spec [OF G] imm snap by simp
  obtain db1 d1 st ms where w: "mergeWrite no_faults snap (db, d) = ((db1, d1), st, None)" "merging (nextFileID db) snap ms st db1 d1"
    "publishable imm snap ms db1 d1" "map dr_key (all_records ms) = sortedKeys snap" "merge_frame (length (sortedKeys snap)) (db, d) (db1, d1)"
    using mergeWrite_spec [OF G imm(1) snap] by blast
  obtain db' d' d2 where p: "mergePublish no_faults imm snap st (db1, d1) = ((db', d'), None)" "db_inv db' d'" "contents (db', d') = contents (db1, d1)"
    "\<exists>rs. db' = db1\<lparr>keydir := keydir db', readers := rs\<rparr>" "renamed ms d1 d2"
    "\<forall>n. map_of d' n = (if (\<exists>fid \<in> set imm. n = dataFilePath fid \<or> n = hintFilePath fid) then None else map_of d2 n)"
    "\<forall>k. map_of (keydir db') k = (case map_of (keydir db1) k of None \<Rightarrow> None
         | Some e \<Rightarrow> if FileID e \<in> set imm then replay (all_updates ms) k else Some e)"
    using publish_spec [OF w(2,3)] by blast
  have "contents (db1, d1) k = contents (db, d) k" for k
    by (rule contents_cong [OF I]) (use w(2,5) entry_at_tmp [of d1 d] in \<open>auto simp: merging_def db_inv_def merge_frame_def\<close>)
  then have c: "contents (db1, d1) = contents (db, d)" by blast
  have "DB_Merge no_faults (db, d) = ((db', d'), None)" using start w(1) p(1) by (simp add: DB_Merge_def)
  moreover have "keydir db1 = keydir db" using w(5) by (auto simp: merge_frame_def)
  ultimately show ?thesis using p(2-7) c w(2,4,5)
    by (intro exI [of _ db1] exI [of _ d1] exI [of _ st] exI [of _ ms] exI [of _ db'] exI [of _ d'] exI [of _ d2]) simp
qed

lemma DB_Merge_spec:
  assumes G: "mergeable db d"
  shows "\<exists>db' d'. DB_Merge no_faults (db, d) = ((db', d'), None) \<and> db_inv db' d' \<and> contents (db', d') = contents (db, d)"
proof (cases "filter (\<lambda>fid. fid \<noteq> activeFileID db) (data_ids d) = []")
  case True
  then show ?thesis using mergeStart_spec [OF G] G by (simp add: DB_Merge_def mergeable_def)
next
  case False
  then show ?thesis using DB_Merge_parts [OF G refl False refl] by blast
qed

end
