(* ===== verification/MergeLayout.thy ===== *)
theory MergeLayout
  imports MergeInv
begin

text \<open>
  The directory after a merge, as a list of files and records: the file that was active and the new
  files, from which the next open rebuilds the index.
\<close>

section \<open>Merged directories\<close>

lemma replay_append:
  "replay (us @ vs) k = (if k \<in> fst ` set vs then replay vs k else replay us k)"
proof (induction vs rule: rev_induct)
  case (snoc v vs)
  obtain k' e t where v: "v = (k', e, t)" by (cases v)
  have "replay (us @ vs @ [v]) = replay_step v (replay (us @ vs))" using replay_snoc [of "us @ vs" v] by simp
  then show ?case using snoc by (auto simp: replay_snoc v)
qed simp

lemma data_ids_described:
  assumes "describes fs d"
  shows "data_ids d = map fst fs"
proof -
  have "set (data_ids d) = set (map fst fs)" 
  proof -
    have "\<forall>fid. file_of d (dataFilePath fid) = map_option encode_file (map_of fs fid)" using assms by (simp add: describes_def)
    then have "fid \<in> set (data_ids d) \<longleftrightarrow> map_of fs fid \<noteq> None" for fid by (simp add: in_data_ids)
    then show ?thesis by (simp add: set_eq_iff map_of_eq_None_iff)
  qed
  moreover have "sorted_wrt (<) (data_ids d)" by (simp add: data_ids_def)
  moreover have "sorted_wrt (<) (map fst fs)" using assms by (simp add: describes_def)
  ultimately show ?thesis by (metis sorted_distinct_set_unique strict_sorted_iff)
qed

lemma mergeable_log:
  assumes "log_inv db d fs" "tmp_free d" "unat (nextFileID db) + length (keydir db) < 2 ^ 64 - 1"
  shows "mergeable db d"
  using assms by (simp add: mergeable_def log_inv_def describes_def)

lemma describes_merged:
  assumes D: "describes (gs @ [(a, ra)]) d0" and fr: "\<And>n. \<not> HasSuffix n tmpFileSuffix \<Longrightarrow> map_of d n = map_of d0 n"
    and h: "hint_ok d0 a ra" and r: "renamed ms d d1" and ok: "\<forall>(fid, recs) \<in> set ms. file_ok recs"
    and ids: "sorted_wrt (<) (map fst ms)" "\<forall>fid \<in> fst ` set ms. a < fid"
    and d': "\<forall>n. map_of d' n = (if (\<exists>fid \<in> fst ` set gs. n = dataFilePath fid \<or> n = hintFilePath fid) then None else map_of d1 n)"
    and nf: "names_free d'"
  shows "describes ((a, ra) # ms) d'"
proof -
  have da: "a \<notin> fst ` set gs" and lt: "\<forall>fid \<in> fst ` set gs. fid < a" and okA: "file_ok ra"
    using D by (auto simp: describes_def sorted_wrt_append)
  have am: "a \<notin> fst ` set ms" using ids(2) by auto
  have gm: "fid \<notin> fst ` set gs" if "fid \<in> fst ` set ms" for fid using that ids(2) lt by (meson order.strict_trans order_less_irrefl)
  have dm: "distinct (map fst ms)" using ids(1) by (simp add: strict_sorted_iff)
  have keep: "map_of d' (dataFilePath fid) = map_of d0 (dataFilePath fid)" "map_of d' (hintFilePath fid) = map_of d0 (hintFilePath fid)"
    if "fid \<notin> fst ` set gs" "fid \<notin> fst ` set ms" for fid
    using that r fr d' unfolding renamed_def by auto
  have mfile: "file_of d' (dataFilePath fid) = Some (encode_file recs)" "file_of d' (hintFilePath fid) = Some (encode_hints (hints_of 0 recs))"
    if m: "(fid, recs) \<in> set ms" for fid recs
  proof -
    have "fid \<in> fst ` set ms" using m by force
    then show "file_of d' (dataFilePath fid) = Some (encode_file recs)" "file_of d' (hintFilePath fid) = Some (encode_hints (hints_of 0 recs))"
      using m gm [of fid] r d' unfolding renamed_def file_of_def by auto
  qed
  have files: "file_of d' (dataFilePath fid) = map_option encode_file (map_of ((a, ra) # ms) fid)" for fid
  proof (cases "fid \<in> fst ` set ms")
    case True
    then obtain recs where m: "(fid, recs) \<in> set ms" by force
    then show ?thesis using mfile(1) [OF m] am True dm by auto
  next
    case False
    then have n: "map_of ms fid = None" by (simp add: map_of_eq_None_iff)
    show ?thesis
    proof (cases "fid \<in> fst ` set gs")
      case True
      then show ?thesis using d' n da by (auto simp: file_of_def)
    next
      case g: False
      have "file_of d' (dataFilePath fid) = file_of d0 (dataFilePath fid)" using keep [OF g False] by (simp add: file_of_def)
      then show ?thesis using D n g by (auto simp: describes_def map_add_def map_of_eq_None_iff [THEN iffD2])
    qed
  qed
  have "canonical d' n" if n: "map_of d' n \<noteq> None" for n
  proof (cases "\<forall>fid. n \<noteq> dataFilePath fid \<and> n \<noteq> hintFilePath fid")
    case True
    then have e1: "map_of d' n = map_of d1 n" using d' by auto
    show ?thesis
    proof (cases "HasSuffix n tmpFileSuffix")
      case False
      have "map_of d' n = map_of d0 n" using renamed_other [OF r True] e1 fr [OF False] False by simp
      moreover have "\<forall>n. map_of d0 n \<noteq> None \<longrightarrow> canonical d0 n" using D by (simp add: describes_def)
      ultimately show ?thesis using n canonical_cong by metis
    qed (simp add: canonical_def)
  qed (auto simp: canonical_def)
  moreover have "\<not> is_dir d' writerLockFileName"
  proof -
    have l: "\<forall>fid. writerLockFileName \<noteq> dataFilePath fid \<and> writerLockFileName \<noteq> hintFilePath fid" by simp
    have "map_of d' writerLockFileName = map_of d1 writerLockFileName" using d' by simp
    moreover have "map_of d1 writerLockFileName = map_of d writerLockFileName" using renamed_other [OF r l] by simp
    moreover have "map_of d writerLockFileName = map_of d0 writerLockFileName" using fr by simp
    ultimately show ?thesis using D by (simp add: is_dir_def describes_def)
  qed
  moreover have "\<forall>(fid, recs) \<in> set (butlast ((a, ra) # ms)). hint_ok d' fid recs"
  proof clarify
    fix fid recs assume "(fid, recs) \<in> set (butlast ((a, ra) # ms))"
    then have "(fid, recs) = (a, ra) \<or> (fid, recs) \<in> set ms" by (metis in_set_butlastD set_ConsD)
    then show "hint_ok d' fid recs"
      using mfile(2) [of fid recs] h keep [OF da am] by (auto simp: hint_ok_def file_of_def)
  qed
  moreover have "sorted_wrt (<) (map fst ((a, ra) # ms))" using ids by auto
  ultimately show ?thesis
    unfolding describes_def using files nf okA ok by (simp del: butlast.simps)
qed

lemma replay_notin: "k \<notin> fst ` set us \<Longrightarrow> replay us k = None"
  using replay_in [of us k] by (cases "replay us k") force+

lemma updates_of_keys: "fst ` set (updates_of fid off recs) = dr_key ` set recs"
  by (induction recs arbitrary: off) simp_all

lemma clocked_merged:
  assumes "sorted_wrt key_clock ra" "dr_key ` set ra \<inter> dr_key ` set (all_records ms) = {}" "map dr_key (all_records ms) = sortedKeys snap"
  shows "clocked ((a, ra) # ms)"
proof -
  have "distinct (map dr_key (all_records ms))" by (simp add: assms(3))
  then have "sorted_wrt key_clock (all_records ms)"
    by (auto simp: sorted_wrt_iff_nth_less key_clock_def distinct_conv_nth)
  then show ?thesis using assms(1,2) by (auto simp: clocked_def sorted_wrt_append key_clock_def)
qed

lemma merged_split:
  assumes kr: "map_of kd = replay (all_updates (gs @ [(a, ra)]))" and da: "a \<notin> fst ` set gs"
    and keys: "dr_key ` set (all_records ms) = dom (map_of snap)"
    and sn: "\<And>k e. map_of snap k = Some e \<longleftrightarrow> map_of kd k = Some e \<and> FileID e \<in> fst ` set gs"
  shows "dr_key ` set ra \<inter> dr_key ` set (all_records ms) = {}"
    "replay (all_updates ((a, ra) # ms)) k = (case map_of kd k of None \<Rightarrow> None
         | Some e \<Rightarrow> if FileID e \<in> fst ` set gs then replay (all_updates ms) k else Some e)"
proof -
  let ?ua = "updates_of a 0 ra"
  have ua: "fst ` set ?ua = dr_key ` set ra" by (rule updates_of_keys)
  have kd: "map_of kd k = (if k \<in> dr_key ` set ra then replay ?ua k else replay (all_updates gs) k)" for k
    by (simp add: kr replay_append ua)
  have fa: "FileID e = a" if "replay ?ua k = Some e" for k e using updates_of_entry [OF replay_in [OF that]] by simp
  have fg: "FileID e \<in> fst ` set gs" if "replay (all_updates gs) k = Some e" for k e
    using all_updates_entry(1) [OF replay_in [OF that]] by simp
  show disj: "dr_key ` set ra \<inter> dr_key ` set (all_records ms) = {}"
  proof (rule ccontr)
    assume "dr_key ` set ra \<inter> dr_key ` set (all_records ms) \<noteq> {}"
    then obtain k where "k \<in> dr_key ` set ra" "k \<in> dom (map_of snap)" unfolding keys by blast
    then obtain e where "replay ?ua k = Some e" "FileID e \<in> fst ` set gs" using sn kd [of k] by auto
    then show False using fa da by metis
  qed
  have rm: "replay (all_updates ((a, ra) # ms)) k = (if k \<in> dr_key ` set (all_records ms) then replay (all_updates ms) k else replay ?ua k)"
    by (simp add: replay_append keys_of_updates)
  show "replay (all_updates ((a, ra) # ms)) k = (case map_of kd k of None \<Rightarrow> None
         | Some e \<Rightarrow> if FileID e \<in> fst ` set gs then replay (all_updates ms) k else Some e)"
  proof (cases "k \<in> dr_key ` set (all_records ms)")
    case True
    then obtain e where "map_of snap k = Some e" unfolding keys by blast
    then show ?thesis unfolding rm using sn True by simp
  next
    case False
    then have ns: "map_of snap k = None" unfolding keys by blast
    show ?thesis
    proof (cases "map_of kd k")
      case None
      then show ?thesis unfolding rm using False kd [of k] replay_notin [of k ?ua] by (auto simp: ua split: if_splits)
    next
      case (Some e)
      then have ng: "FileID e \<notin> fst ` set gs" using sn [of k e] ns by simp
      then have "replay ?ua k = Some e" using kd [of k] Some fg by (auto split: if_splits)
      then show ?thesis unfolding rm using Some ng False by simp
    qed
  qed
qed

text \<open>
  After a merge of a database that had not been merged before, the directory holds the file that was
  active and the new files, and replaying it gives the index again.
\<close>

lemma merge_layout:
  assumes L: "log_inv db d (gs @ [(a, ra)])" and gs: "gs \<noteq> []" and tf: "tmp_free d" and h: "hint_ok d a ra"
    and room: "unat (nextFileID db) + length (keydir db) < 2 ^ 64 - 1"
  shows "\<exists>db' d' ms. DB_Merge no_faults (db, d) = ((db', d'), None) \<and> db_inv db' d' \<and> contents (db', d') = contents (db, d)
    \<and> (\<exists>kd rs i. db' = db\<lparr>keydir := kd, readers := rs, nextFileID := i\<rparr>)
    \<and> describes ((a, ra) # ms) d' \<and> clocked ((a, ra) # ms) \<and> map_of (keydir db') = replay (all_updates ((a, ra) # ms))
    \<and> (\<forall>fid \<in> fst ` set ms. fid < nextFileID db') \<and> unat (nextFileID db') \<le> unat (nextFileID db) + length (keydir db)
    \<and> file_of d' (hintFilePath a) = file_of d (hintFilePath a)
    \<and> (\<forall>(fid, recs) \<in> set ms. file_of d' (hintFilePath fid) = Some (encode_hints (hints_of 0 recs)))
    \<and> (\<forall>rec \<in> set (all_records ms). live_record (snapshotOf (map fst gs) (keydir db)) d rec)
    \<and> map dr_key (all_records ms) = sortedKeys (snapshotOf (map fst gs) (keydir db))"
proof -
  have D: "describes (gs @ [(a, ra)]) d" and I: "db_inv db d" and act: "activeFileID db = a" "nextFileID db = a + 1"
    and kr: "map_of (keydir db) = replay (all_updates (gs @ [(a, ra)]))" and C: "clocked (gs @ [(a, ra)])"
    using L by (simp_all add: log_inv_def)
  have G: "mergeable db d" by (rule mergeable_log [OF L tf room])
  have da: "a \<notin> fst ` set gs" using D by (auto simp: describes_def sorted_wrt_append)
  define imm where "imm = filter (\<lambda>fid. fid \<noteq> activeFileID db) (data_ids d)"
  have imm: "imm = map fst gs"
  proof -
    have "filter (\<lambda>fid. fid \<noteq> a) (map fst gs) = map fst gs" using da by (simp add: filter_id_conv) force
    then show ?thesis using data_ids_described [OF D] by (simp add: imm_def act)
  qed
  define snap where "snap = snapshotOf imm (keydir db)"
  have "imm \<noteq> []" using gs by (simp add: imm)
  from DB_Merge_parts [OF G imm_def this snap_def] obtain db1 d1 st ms db' d' d2 rs where
    p: "DB_Merge no_faults (db, d) = ((db', d'), None)" "db_inv db' d'" "contents (db', d') = contents (db, d)"
    "merging (nextFileID db) snap ms st db1 d1" "map dr_key (all_records ms) = sortedKeys snap"
    "merge_frame (length (sortedKeys snap)) (db, d) (db1, d1)" "db' = db1\<lparr>keydir := keydir db', readers := rs\<rparr>"
    "renamed ms d1 d2" "\<forall>n. map_of d' n = (if (\<exists>fid \<in> set imm. n = dataFilePath fid \<or> n = hintFilePath fid) then None else map_of d2 n)"
    "\<forall>k. map_of (keydir db') k = (case map_of (keydir db) k of None \<Rightarrow> None
         | Some e \<Rightarrow> if FileID e \<in> set imm then replay (all_updates ms) k else Some e)" by blast
  have fr: "map_of d1 n = map_of d n" if "\<not> HasSuffix n tmpFileSuffix" for n using p(6) that by (simp add: merge_frame_def)
  have ids: "sorted_wrt (<) (map fst ms)" "\<forall>fid \<in> fst ` set ms. nextFileID db \<le> fid \<and> fid < nextFileID db1"
    using p(4) by (simp_all add: merging_def merge_ids_def)
  have lt: "a < a + 1" using I act by (simp add: db_inv_def ids_fresh_def)
  have D': "describes ((a, ra) # ms) d'"
  proof (rule describes_merged [OF D fr h p(8) _ ids(1)])
    show "\<forall>(fid, recs) \<in> set ms. file_ok recs" using p(4) unfolding merging_def tmp_layout_def by blast
    show "\<forall>fid \<in> fst ` set ms. a < fid" using ids(2) lt unfolding act by (meson order.strict_trans2)
    show "names_free d'" using p(2) by (simp add: db_inv_def)
  qed (use p(9) in \<open>simp_all add: imm\<close>)
  have sn: "map_of snap k = Some e \<longleftrightarrow> map_of (keydir db) k = Some e \<and> FileID e \<in> fst ` set gs" for k e
    by (auto simp: snap_def map_of_snapshotOf imm split: option.splits if_splits)
  have keys: "dr_key ` set (all_records ms) = dom (map_of snap)" using arg_cong [OF p(5), of set] by simp
  note split = merged_split [OF kr da keys sn, folded keys]
  have "clocked ((a, ra) # ms)"
    using C split(1) p(5) by (intro clocked_merged) (simp_all add: clocked_def sorted_wrt_append)
  moreover have "map_of (keydir db') = replay (all_updates ((a, ra) # ms))"
    using p(10) [unfolded imm set_map] split(2) by (simp add: fun_eq_iff)
  moreover have "\<exists>kd rs i. db' = db\<lparr>keydir := kd, readers := rs, nextFileID := i\<rparr>"
  proof -
    obtain rs' i where "db1 = db\<lparr>readers := rs', nextFileID := i\<rparr>" using p(6) unfolding merge_frame_def by auto
    then have "db' = db\<lparr>keydir := keydir db', readers := rs, nextFileID := i\<rparr>" by (subst p(7)) simp
    then show ?thesis by blast
  qed
  moreover have "nextFileID db' = nextFileID db1" by (subst p(7)) simp
  moreover have am: "a \<notin> fst ` set ms" "fid \<in> fst ` set ms \<Longrightarrow> fid \<notin> fst ` set gs" for fid
  proof -
    have "\<forall>g \<in> fst ` set gs. g < a" using D by (auto simp: describes_def sorted_wrt_append)
    moreover have "\<forall>fid \<in> fst ` set ms. a < fid" using ids(2) lt unfolding act by (meson order.strict_trans2)
    ultimately show "a \<notin> fst ` set ms" "fid \<in> fst ` set ms \<Longrightarrow> fid \<notin> fst ` set gs"
      by (meson order_less_irrefl order.strict_trans)+
  qed
  moreover have "file_of d' (hintFilePath a) = file_of d (hintFilePath a)"
  proof -
    have "map_of d' (hintFilePath a) = map_of d2 (hintFilePath a)" using p(9) da by (auto simp: imm)
    also have "\<dots> = map_of d1 (hintFilePath a)" using p(8) am(1) by (simp add: renamed_def)
    also have "\<dots> = map_of d (hintFilePath a)" by (rule fr) simp
    finally show ?thesis by (simp add: file_of_def)
  qed
  moreover have "file_of d' (hintFilePath fid) = Some (encode_hints (hints_of 0 recs))" if "(fid, recs) \<in> set ms" for fid recs
  proof -
    have "fid \<notin> fst ` set gs" using am(2) that by force
    then have "map_of d' (hintFilePath fid) = map_of d2 (hintFilePath fid)" using p(9) by (auto simp: imm)
    moreover have "file_of d2 (hintFilePath fid) = Some (encode_hints (hints_of 0 recs))" using p(8) that by (auto simp: renamed_def)
    ultimately show ?thesis by (simp add: file_of_def)
  qed
  moreover have "live_record snap d rec" if "rec \<in> set (all_records ms)" for rec
  proof -
    have "live_record snap d1 rec" using p(4) that by (simp add: merging_def)
    then show ?thesis using entry_at_tmp [of d d1] fr unfolding live_record_def by metis
  qed
  moreover have "unat (nextFileID db1) \<le> unat (nextFileID db) + length (keydir db)"
    using p(6) length_snapshot_keys [of imm "keydir db"] by (simp add: merge_frame_def snap_def)
  ultimately show ?thesis using p(1-3,5) D' ids(2) unfolding snap_def imm
    by (intro exI [of _ db'] exI [of _ d'] exI [of _ ms]) auto
qed

end
