(* ===== verification/MergeSafety.thy ===== *)
theory MergeSafety
  imports MergeLayout StoreFaults
begin

text \<open>
  What compaction promises: the contents stay, also across a restart. And what it does not: a delete
  between a merge and the next restart is lost.
\<close>

section \<open>Merging keeps the contents\<close>

text \<open>
  C9: compaction does not change what the database holds. On any state of the engine's invariant, with
  file ids left, \<open>Merge\<close> succeeds, keeps the invariant, and every key reads the same value, or is absent,
  before and after.
\<close>

theorem merge_keeps_contents:
  assumes "mergeable db d"
  shows "\<exists>db' d'. DB_Merge no_faults (db, d) = ((db', d'), None) \<and> db_inv db' d' \<and> contents (db', d') = contents (db, d)"
  using assms by (rule DB_Merge_spec)

text \<open>Two files with a record each, as a rotation leaves them.\<close>

definition rec_a :: decodedRecord where
  "rec_a = \<lparr>dr_timestamp = 1, dr_key = ''a'', dr_value = bytes_of ''x''\<rparr>"

definition rec_b :: decodedRecord where
  "rec_b = \<lparr>dr_timestamp = 2, dr_key = ''b'', dr_value = bytes_of ''y''\<rparr>"

definition two_files :: dir where
  "two_files = [(dataFilePath 1, File (encodeRecord rec_a)), (dataFilePath 2, File (encodeRecord rec_b))]"

abbreviation two_layout :: layout where
  "two_layout \<equiv> [(1, [rec_a]), (2, [rec_b])]"

lemma recs_fit: "record_fits rec_a" "record_fits rec_b" "\<not> is_tombstone (dr_value rec_a)" "\<not> is_tombstone (dr_value rec_b)"
  by (simp_all add: record_fits_def record_ok_def encodable_def rec_a_def rec_b_def is_int64_def is_tombstone_def tombstoneValue_def)

lemma describes_two: "describes two_layout two_files"
proof -
  have m: "map_of two_files = [dataFilePath 1 \<mapsto> File (encodeRecord rec_a), dataFilePath 2 \<mapsto> File (encodeRecord rec_b)]"
    by (auto simp: two_files_def)
  have "int (length (encodeRecord rec_a)) < 2 ^ 63" "int (length (encodeRecord rec_b)) < 2 ^ 63" by (simp_all add: rec_a_def rec_b_def)
  then show ?thesis using recs_fit
    by (auto simp: describes_def names_free_def is_dir_def m canonical_def file_of_def file_ok_def hint_ok_def)
qed

lemma clocked_two: "clocked two_layout"
  by (simp add: clocked_def key_clock_def rec_a_def rec_b_def)

abbreviation e_a :: KeyDirEntry where
  "e_a \<equiv> \<lparr>FileID = 1, FileOffset = 0, RecordSize = word_of_nat (length (encodeRecord rec_a)), TimeStamp = 1\<rparr>"

abbreviation e_b :: KeyDirEntry where
  "e_b \<equiv> \<lparr>FileID = 2, FileOffset = 0, RecordSize = word_of_nat (length (encodeRecord rec_b)), TimeStamp = 2\<rparr>"

lemma large_files_simps [simp]:
  "ReadWrite large_files" "MaxDataFileSizeBytes large_files = 0x4000000" "normal_opts large_files = large_files"
  by (simp_all add: large_files_def normal_opts_def)

lemma keys_ab [simp]: "dr_key rec_a = ''a''" "dr_key rec_b = ''b''" "dr_timestamp rec_a = 1" "dr_timestamp rec_b = 2"
  by (simp_all add: rec_a_def rec_b_def)

lemma open_two:
  "\<exists>db d. OpenWithOptions no_faults False large_files two_files = (d, Inr db) \<and> log_inv db d two_layout \<and> tmp_free d
     \<and> file_of d (hintFilePath 2) = None \<and> keydir db = [(''a'', e_a), (''b'', e_b)] \<and> opts db = large_files
     \<and> activeFile db = Some (dataFilePath 2) \<and> activeOffset db = int (length (encodeRecord rec_b))"
proof -
  have T: "describes_tail two_layout [] two_files" using describes_two by simp
  have kd: "rebuilt large_files two_layout = [(''a'', e_a), (''b'', e_b)]"
    by (simp add: rebuilt_def openedDB_def applyKeydirUpdate_def recs_fit Let_def)
  obtain db d where o: "OpenWithOptions no_faults False large_files two_files = (d, Inr db)" "describes two_layout d" "cleaned two_files d"
    "keydir db = [(''a'', e_a), (''b'', e_b)]" "activeFile db = Some (dataFilePath 2)" "activeOffset db = int (length (encodeRecord rec_b))"
    using open_tail [OF T, of large_files EOF] kd by auto
  have "fst (last two_layout) \<noteq> max_id" by (simp add: max_id_def)
  from reopen_described [OF describes_two clocked_two this, of large_files] o(1)
  have L: "log_inv db d two_layout" "opts db = large_files" by auto
  have m: "map_of d n = map_of two_files n" if "n \<noteq> writerLockFileName" "\<not> HasSuffix n tmpFileSuffix" for n
    using o(3) that by (simp add: cleaned_def is_tmp_def)
  have "\<not> is_dir d (tmpD fid)" for fid
    using o(3) by (auto simp: cleaned_def is_dir_def two_files_def split: if_splits)
  moreover have "file_of d (hintFilePath 2) = None" using m [of "hintFilePath 2"] by (simp add: file_of_def two_files_def)
  ultimately show ?thesis using o L by (auto simp: tmp_free_def)
qed

theorem merge_keeps_contents_witness:
  "\<exists>db d db' d'. OpenWithOptions no_faults False large_files two_files = (d, Inr db)
     \<and> DB_Merge no_faults (db, d) = ((db', d'), None) \<and> contents (db', d') = contents (db, d)"
proof -
  obtain db d where o: "OpenWithOptions no_faults False large_files two_files = (d, Inr db)" "log_inv db d two_layout" "tmp_free d"
    "keydir db = [(''a'', e_a), (''b'', e_b)]" using open_two by blast
  have "mergeable db d" by (rule mergeable_log [OF o(2,3)]) (use o(2,4) in \<open>simp add: log_inv_def\<close>)
  then show ?thesis using merge_keeps_contents [of db d] o(1) by blast
qed

section \<open>Merging and opening again\<close>

text \<open>
  C10: a merge survives a restart. When the file being written has no hint file of an earlier merge,
  merging, closing and opening again gives a database with the contents it had before the merge.
\<close>

theorem merge_then_reopen:
  assumes L: "log_inv db d (gs @ [(a, ra)])" and tf: "tmp_free d" and h: "hint_ok d a ra"
    and room: "unat (nextFileID db) + length (keydir db) < 2 ^ 64 - 1" and opts: "ReadWrite opts0" "MaxDataFileSizeBytes opts0 < 2 ^ 63"
  shows "\<exists>db' d' db'' d'' fs. DB_Merge no_faults (db, d) = ((db', d'), None) \<and> OpenWithOptions no_faults False opts0 d' = (d'', Inr db'')
    \<and> log_inv db'' d'' fs \<and> contents (db'', d'') = contents (db, d)"
proof (cases "gs = []")
  case True
  have D: "describes (gs @ [(a, ra)]) d" and act: "activeFileID db = a" using L by (simp_all add: log_inv_def)
  have "mergeStart no_faults (db, d) = Inr None"
    using mergeStart_spec [OF mergeable_log [OF L tf room]] data_ids_described [OF D] by (simp add: True act)
  then have "DB_Merge no_faults (db, d) = ((db, d), None)" by (simp add: DB_Merge_def)
  then show ?thesis using reopen_log [OF L opts] by blast
next
  case False
  obtain db' d' ms where m: "DB_Merge no_faults (db, d) = ((db', d'), None)" "db_inv db' d'" "contents (db', d') = contents (db, d)"
    "describes ((a, ra) # ms) d'" "clocked ((a, ra) # ms)" "map_of (keydir db') = replay (all_updates ((a, ra) # ms))"
    "\<forall>fid \<in> fst ` set ms. fid < nextFileID db'"
    using merge_layout [OF L False tf h room] by blast
  have "fst (last ((a, ra) # ms)) \<noteq> max_id"
  proof (cases "ms = []")
    case True
    then show ?thesis using last_not_max [OF L] by simp
  next
    case False
    then have "fst (last ms) < nextFileID db'" using m(7) by simp
    then show ?thesis using False by (auto simp: max_id_def)
  qed
  from reopen_described [OF m(4,5) this opts] obtain db'' d'' where
    o: "OpenWithOptions no_faults False opts0 d' = (d'', Inr db'')" "log_inv db'' d'' ((a, ra) # ms)" by blast
  have "contents (db'', d'') k = contents (db', d') k" for k
    using o(2) m(6) entry_at_described [OF m(4), of d''] by (intro contents_cong [OF m(2)]) (auto simp: log_inv_def db_inv_def)
  then have "contents (db'', d'') = contents (db', d')" by blast
  with m(1,3) o show ?thesis by metis
qed

theorem merge_then_reopen_witness:
  "\<exists>db d db' d' db'' d''. OpenWithOptions no_faults False large_files two_files = (d, Inr db)
     \<and> DB_Merge no_faults (db, d) = ((db', d'), None) \<and> OpenWithOptions no_faults False large_files d' = (d'', Inr db'')
     \<and> contents (db'', d'') = contents (db, d)"
proof -
  obtain db d where o: "OpenWithOptions no_faults False large_files two_files = (d, Inr db)" "log_inv db d two_layout" "tmp_free d"
    "file_of d (hintFilePath 2) = None" "keydir db = [(''a'', e_a), (''b'', e_b)]" using open_two by blast
  have L: "log_inv db d ([(1, [rec_a])] @ [(2, [rec_b])])" and h: "hint_ok d 2 [rec_b]" using o by (simp_all add: hint_ok_def)
  have room: "unat (nextFileID db) + length (keydir db) < 2 ^ 64 - 1" using o(2,5) by (simp add: log_inv_def)
  have "ReadWrite large_files" "MaxDataFileSizeBytes large_files < 2 ^ 63" by simp_all
  from merge_then_reopen [OF L o(3) h room this] o(1) show ?thesis by blast
qed

section \<open>Deleting after a merge\<close>

lemma delete_no_rotate:
  assumes "activeFile db = Some p" "\<not> closed db" "ReadWrite (opts db)" "file_of d p = Some b"
    "activeOffset db + (41 + int (length k)) \<le> MaxDataFileSizeBytes (opts db)"
  shows "DB_Delete no_faults now k (db, d) =
    ((db\<lparr>activeOffset := activeOffset db + (41 + int (length k)), keydir := AList.delete k (keydir db)\<rparr>,
      put_file p (b @ encodeDataRecord now k (bytes_of tombstoneValue)) d), None)"
  using assms by (simp add: DB_Delete_def ensureOpen_def mustReadWrite_def appendRecordLocked_def Let_def write_file_def)

text \<open>Appending to a file that is not the newest, as happens between a merge and the next open.\<close>

lemma describes_append_first:
  assumes D: "describes ((a, ra) # ms) d" and ms: "ms \<noteq> []" and h: "file_of d (hintFilePath a) = None"
    and r: "record_fits rec" "int (length (encode_file (ra @ [rec]))) < 2 ^ 63"
  shows "describes ((a, ra @ [rec]) # ms) (put_file (dataFilePath a) (encode_file (ra @ [rec])) d)" (is "describes ?fs ?d")
proof -
  have "canonical ?d n" if n: "map_of ?d n \<noteq> None" for n
  proof (cases "n = dataFilePath a")
    case False
    then have eq: "map_of ?d n = map_of d n" by simp
    have "\<forall>n. map_of d n \<noteq> None \<longrightarrow> canonical d n" using D by (simp add: describes_def)
    then show ?thesis using n unfolding eq canonical_cong [OF eq] by blast
  qed (auto simp: canonical_def)
  moreover have "file_of ?d (dataFilePath fid) = map_option encode_file (map_of ?fs fid)" for fid
    using D by (auto simp: describes_def)
  moreover have "\<forall>(fid, recs) \<in> set (butlast ?fs). hint_ok ?d fid recs"
  proof -
    have "hint_ok ?d fid recs" if "(fid, recs) \<in> set (butlast ms)" for fid recs
    proof -
      have "hint_ok d fid recs" using D ms that by (auto simp: describes_def)
      then show ?thesis by (simp add: hint_ok_def)
    qed
    then show ?thesis using h ms by (auto simp: hint_ok_def)
  qed
  ultimately show ?thesis using D r by (auto simp: describes_def names_free_def file_ok_def)
qed

lemma fold_apply_other:
  "k \<notin> fst ` set us \<Longrightarrow> map_of (keydir (fold apply_update us db)) k = map_of (keydir db) k"
proof (induction us arbitrary: db)
  case (Cons u us)
  obtain k' e t where u: "u = (k', e, t)" by (cases u)
  then have "map_of (keydir (apply_update u db)) k = map_of (keydir db) k"
    using Cons.prems by (auto simp: applyKeydirUpdate_def Let_def update_conv' delete_conv')
  then show ?case using Cons by simp
qed simp

lemma fold_apply_once:
  assumes "distinct (map fst us)" "(k, e, False) \<in> set us" "map_of (keydir db) k = None"
  shows "map_of (keydir (fold apply_update us db)) k = Some e"
proof -
  obtain us1 us2 where us: "us = us1 @ (k, e, False) # us2" using assms(2) by (meson split_list)
  have "map_of (keydir (fold apply_update us1 db)) k = None"
    using fold_apply_other [of k us1 db] assms(1,3) by (simp add: us)
  moreover have "k \<notin> fst ` set us2" using assms(1) by (auto simp: us)
  ultimately show ?thesis by (simp add: us fold_apply_other applyKeydirUpdate_def Let_def update_conv')
qed

lemma all_updates_records:
  "map (\<lambda>u. (fst u, snd (snd u))) (all_updates ms) = map (\<lambda>r. (dr_key r, is_tombstone (dr_value r))) (all_records ms)"
proof -
  have u: "map (\<lambda>u. (fst u, snd (snd u))) (updates_of fid off recs) = map (\<lambda>r. (dr_key r, is_tombstone (dr_value r))) recs" for fid off recs
    by (induction recs arbitrary: off) simp_all
  show ?thesis by (induction ms) (auto simp: u)
qed

text \<open>A key whose newest record is not in the active file has no record there.\<close>

lemma moved_key:
  assumes L: "log_inv db d (gs @ [(a, ra)])" and k: "map_of (keydir db) k = Some e" "FileID e \<noteq> a"
  shows "k \<notin> dr_key ` set ra" "FileID e \<in> fst ` set gs"
proof -
  have r: "replay (all_updates (gs @ [(a, ra)])) k = Some e" using L k(1) by (simp add: log_inv_def)
  have fid: "FileID e = a" if "(k, e, False) \<in> set (updates_of a 0 ra)" using updates_of_split [OF that] by auto
  show n: "k \<notin> dr_key ` set ra"
  proof
    assume "k \<in> dr_key ` set ra"
    then have "replay (updates_of a 0 ra) k = Some e" using r by (simp add: replay_append updates_of_keys)
    then show False using replay_in fid k(2) by blast
  qed
  then have "replay (all_updates gs) k = Some e" using r by (simp add: replay_append updates_of_keys)
  then have "(k, e, False) \<in> set (all_updates gs)" by (rule replay_in)
  then obtain fid recs where "(fid, recs) \<in> set gs" "(k, e, False) \<in> set (updates_of fid 0 recs)" by (auto simp: all_updates_def)
  then show "FileID e \<in> fst ` set gs" using updates_of_split by force
qed

text \<open>The index an open builds when a tombstone was written to the file before the merged ones.\<close>

lemma rebuilt_tombstone_first:
  assumes k: "k \<notin> dr_key ` set ra" and t: "dr_key t = k" "is_tombstone (dr_value t)"
    and ms: "distinct (map dr_key (all_records ms))" "r \<in> set (all_records ms)" "dr_key r = k" "\<not> is_tombstone (dr_value r)"
  shows "\<exists>e. map_of (rebuilt opts0 ((a, ra @ [t]) # ms)) k = Some e \<and> (k, e, False) \<in> set (all_updates ms)"
proof -
  have "map fst (all_updates ms) = map dr_key (all_records ms)"
    using arg_cong [OF all_updates_records [of ms], of "map fst"] by (simp add: comp_def)
  then have d: "distinct (map fst (all_updates ms))" using ms(1) by simp
  have "(k, False) \<in> set (map (\<lambda>u. (fst u, snd (snd u))) (all_updates ms))"
    unfolding all_updates_records using ms(2-4) by force
  then obtain e where e: "(k, e, False) \<in> set (all_updates ms)" by auto
  let ?db = "fold apply_update (updates_of a 0 ra) (openedDB opts0 ((a, ra @ [t]) # ms))"
  have split: "updates_of fid off (ra @ [t]) = updates_of fid off ra @ updates_of fid (off + int (length (encode_file ra))) [t]" for fid off
    by (induction ra arbitrary: off) (simp_all add: add.assoc)
  have "map_of (keydir ?db) k = None"
    using k by (simp add: fold_apply_other updates_of_keys openedDB_def)
  then have "map_of (keydir (fold apply_update (updates_of a 0 (ra @ [t])) (openedDB opts0 ((a, ra @ [t]) # ms)))) k = None"
    using t by (simp add: split applyKeydirUpdate_def Let_def delete_conv')
  from fold_apply_once [OF d e this] show ?thesis using e by (auto simp: rebuilt_def)
qed

text \<open>A delete that goes to such a file is not found by the next open.\<close>

lemma delete_to_older_file:
  assumes I: "db_inv db d" and D: "describes ((a, ra) # ms) d" and act: "activeFileID db = a" and h: "file_of d (hintFilePath a) = None"
    and k: "k \<notin> dr_key ` set ra" and ms: "distinct (map dr_key (all_records ms))" "r \<in> set (all_records ms)" "dr_key r = k" "\<not> is_tombstone (dr_value r)"
    and fit: "fits now k 21" "activeOffset db + (41 + int (length k)) \<le> MaxDataFileSizeBytes (opts db)" "MaxDataFileSizeBytes (opts db) < 2 ^ 63"
    and rw: "ReadWrite opts0"
  shows "\<exists>w2 db3 d3. DB_Delete no_faults now k (db, d) = (w2, None) \<and> contents w2 k = None
     \<and> OpenWithOptions no_faults False opts0 (snd w2) = (d3, Inr db3) \<and> contents (db3, d3) k = Some (dr_value r)"
proof -
  define t where "t = \<lparr>dr_timestamp = now, dr_key = k, dr_value = bytes_of tombstoneValue\<rparr>"
  have ft: "record_fits t" "is_tombstone (dr_value t)" "dr_key t = k"
    using fit(1) by (simp_all add: record_fits_def record_ok_def encodable_def t_def is_tombstone_def fits_def)
  have f: "file_of d (dataFilePath a) = Some (encode_file ra)" using D by (simp add: describes_def)
  then have ao: "activeFile db = Some (dataFilePath a)" "activeOffset db = int (length (encode_file ra))" "\<not> closed db" "ReadWrite (opts db)"
    using I act by (auto simp: db_inv_def active_ok_def)
  define db2 where "db2 = db\<lparr>activeOffset := activeOffset db + (41 + int (length k)), keydir := AList.delete k (keydir db)\<rparr>"
  define d2 where "d2 = put_file (dataFilePath a) (encode_file (ra @ [t])) d"
  have del: "DB_Delete no_faults now k (db, d) = ((db2, d2), None)"
    using delete_no_rotate [OF ao(1,3,4) f fit(2), of now] by (simp add: db2_def d2_def t_def encodeRecord_def)
  have gone: "contents (db2, d2) k = None" using ao(3) by (simp add: contents_absent db2_def delete_conv')
  have "int (length (encode_file (ra @ [t]))) < 2 ^ 63" using fit(2,3) ao(2) by (simp add: t_def encodeRecord_def)
  moreover have "ms \<noteq> []" using ms(2) by auto
  ultimately have D2: "describes ((a, ra @ [t]) # ms) d2" unfolding d2_def using describes_append_first [OF D _ h ft(1)] by simp
  obtain e where e: "map_of (rebuilt opts0 ((a, ra @ [t]) # ms)) k = Some e" "(k, e, False) \<in> set (all_updates ms)"
    using rebuilt_tombstone_first [OF k ft(3,2) ms, of opts0 a] by blast
  from D2 have "describes_tail ((a, ra @ [t]) # ms) [] d2" by simp
  from open_tail [OF this rw, of EOF] e(1) obtain db3 d3 where
    o: "OpenWithOptions no_faults False opts0 d2 = (d3, Inr db3)" "describes ((a, ra @ [t]) # ms) d3"
    "map_of (keydir db3) k = Some e" "\<not> closed db3" by auto
  obtain r' where r': "r' \<in> set (all_records ((a, ra @ [t]) # ms))" "entry_at d3 e r'" "dr_key r' = k" "\<not> is_tombstone (dr_value r')"
    using update_entry_record [OF o(2), of k e] e(2) by auto
  have "r' \<in> set (all_records ms)" using r' k ft(2) by auto
  then have "r' = r" using ms(1-3) r'(3) by (metis distinct_map inj_onD)
  then have "contents (db3, d3) k = Some (dr_value r)" using contents_entry [of db3 r' e d3] o(3,4) r'(2-4) by simp
  with del gone o(1) show ?thesis by (intro exI [of _ "(db2, d2)"]) auto
qed

text \<open>
  C11: a delete can be undone by a restart. After a merge the rewritten records lie in files with higher ids
  than the file still being written. When a key whose newest record was rewritten is deleted, and its
  tombstone still fits in the file being written, the key is gone until the database is opened again; the
  open reads the older file first, finds nothing to delete, takes the record from the merged file, and the
  key is back with the value it had.
\<close>

theorem delete_after_merge_undone:
  assumes L: "log_inv db d (gs @ [(a, ra)])" and tf: "tmp_free d" and h: "file_of d (hintFilePath a) = None"
    and room: "unat (nextFileID db) + length (keydir db) < 2 ^ 64 - 1" and rw: "ReadWrite opts0"
    and k: "map_of (keydir db) k = Some e" "FileID e \<noteq> a"
    and fit: "fits now k 21" "activeOffset db + (41 + int (length k)) \<le> MaxDataFileSizeBytes (opts db)"
  shows "\<exists>w1 w2 db3 d3 v. DB_Merge no_faults (db, d) = (w1, None) \<and> contents (db, d) k = Some v
     \<and> DB_Delete no_faults now k w1 = (w2, None) \<and> contents w2 k = None
     \<and> OpenWithOptions no_faults False opts0 (snd w2) = (d3, Inr db3) \<and> contents (db3, d3) k = Some v"
proof -
  note mk = moved_key [OF L k]
  have gs: "gs \<noteq> []" and hk: "hint_ok d a ra" using mk(2) h by (auto simp: hint_ok_def)
  have I: "db_inv db d" "activeFileID db = a" "MaxDataFileSizeBytes (opts db) < 2 ^ 63" using L by (simp_all add: log_inv_def)
  let ?snap = "snapshotOf (map fst gs) (keydir db)"
  obtain db1 d1 ms where m: "DB_Merge no_faults (db, d) = ((db1, d1), None)" "db_inv db1 d1"
    "\<exists>kd rs i. db1 = db\<lparr>keydir := kd, readers := rs, nextFileID := i\<rparr>" "describes ((a, ra) # ms) d1"
    "file_of d1 (hintFilePath a) = file_of d (hintFilePath a)"
    "\<forall>rec \<in> set (all_records ms). live_record ?snap d rec" "map dr_key (all_records ms) = sortedKeys ?snap"
    using merge_layout [OF L gs tf hk room] by blast
  have sn: "map_of ?snap k = Some e" using k mk(2) by (simp add: map_of_snapshotOf)
  then have "k \<in> set (map dr_key (all_records ms))" unfolding m(7) by (auto simp: dom_def)
  then obtain r where r: "r \<in> set (all_records ms)" "dr_key r = k" by auto
  have live: "entry_at d e r" "\<not> is_tombstone (dr_value r)" using m(6) r sn by (auto simp: live_record_def)
  have "contents (db, d) k = Some (dr_value r)" using contents_entry [of db r e d] k(1) live r(2) I by (simp add: db_inv_def)
  moreover have "activeFileID db1 = a" "activeOffset db1 = activeOffset db" "opts db1 = opts db" using m(3) I(2) by auto
  then have "\<exists>w2 db3 d3. DB_Delete no_faults now k (db1, d1) = (w2, None) \<and> contents w2 k = None
     \<and> OpenWithOptions no_faults False opts0 (snd w2) = (d3, Inr db3) \<and> contents (db3, d3) k = Some (dr_value r)"
    using m(5) h fit I(3) by (intro delete_to_older_file [OF m(2,4) _ _ mk(1) _ r live(2) _ _ _ rw]) (simp_all add: m(7))
  ultimately show ?thesis using m(1) by blast
qed

theorem delete_after_merge_undone_witness:
  "\<exists>db d w1 w2 db3 d3. OpenWithOptions no_faults False large_files two_files = (d, Inr db)
     \<and> DB_Merge no_faults (db, d) = (w1, None) \<and> DB_Delete no_faults 3 ''a'' w1 = (w2, None) \<and> contents w2 ''a'' = None
     \<and> OpenWithOptions no_faults False large_files (snd w2) = (d3, Inr db3) \<and> contents (db3, d3) ''a'' \<noteq> None"
proof -
  obtain db d where o: "OpenWithOptions no_faults False large_files two_files = (d, Inr db)" "log_inv db d two_layout" "tmp_free d"
    "file_of d (hintFilePath 2) = None" "keydir db = [(''a'', e_a), (''b'', e_b)]" "opts db = large_files"
    "activeOffset db = int (length (encodeRecord rec_b))" using open_two by blast
  have L: "log_inv db d ([(1, [rec_a])] @ [(2, [rec_b])])" using o(2) by simp
  have room: "unat (nextFileID db) + length (keydir db) < 2 ^ 64 - 1" using o(2,5) by (simp add: log_inv_def)
  have k: "map_of (keydir db) ''a'' = Some e_a" "FileID e_a \<noteq> 2" by (simp_all add: o(5))
  have fit: "fits 3 ''a'' 21" "activeOffset db + (41 + int (length ''a'')) \<le> MaxDataFileSizeBytes (opts db)"
    by (simp_all add: fits_def is_int64_def o(6,7) rec_b_def encodeRecord_def)
  show ?thesis using delete_after_merge_undone [OF L o(3,4) room _ k fit, of large_files] o(1) by fastforce
qed

end
