(* ===== verification/StoreReads.thy ===== *)
theory StoreReads
  imports MergeSafety
begin

text \<open>
  What the operations that look at the whole store return: \<open>ListKeys\<close> and \<open>Fold\<close> of \<open>kvstore/read.go\<close>.
\<close>

lemma contents_keys:
  assumes "db_inv db d"
  shows "contents (db, d) k \<noteq> None \<longleftrightarrow> k \<in> fst ` set (keydir db)"
proof (cases "map_of (keydir db) k")
  case None
  then show ?thesis using assms by (simp add: contents_absent db_inv_def map_of_eq_None_iff)
next
  case (Some e)
  then obtain rec where "entry_at d e rec" "dr_key rec = k" "\<not> is_tombstone (dr_value rec)"
    using assms by (auto simp: db_inv_def entry_ok_def)
  moreover have "k \<in> fst ` set (keydir db)" using Some map_of_eq_None_iff [of "keydir db" k] by simp
  ultimately show ?thesis using contents_entry [of db rec e d] Some assms by (auto simp: db_inv_def)
qed

lemma ListKeys_spec:
  assumes "db_inv db d"
  shows "sorted_wrt (<) (DB_ListKeys db)" "set (DB_ListKeys db) = dom (contents (db, d))"
  using contents_keys [OF assms] by (auto simp: DB_ListKeys_def strict_sorted_iff dom_def)

text \<open>The callback run over pairs of a key and a value until it fails.\<close>

fun fold_until :: "('s \<Rightarrow> string \<Rightarrow> byte list \<Rightarrow> 's \<times> error option) \<Rightarrow> (string \<times> byte list) list \<Rightarrow> 's \<Rightarrow> 's \<times> error option" where
  "fold_until fn [] s = (s, None)"
| "fold_until fn ((k, v) # kvs) s = (case fn s k v of (s, Some e) \<Rightarrow> (s, Some e) | (s, None) \<Rightarrow> fold_until fn kvs s)"

lemma contents_readers: "db_inv db d \<Longrightarrow> contents (db\<lparr>readers := rs\<rparr>, d) = contents (db, d)"
  by (rule ext, rule contents_cong) (simp_all add: db_inv_def)

lemma db_inv_readers: "db_inv db d \<Longrightarrow> db_inv (db\<lparr>readers := rs\<rparr>) d"
  by (simp add: db_inv_def active_ok_def ids_fresh_def)

lemma foldKeys_spec:
  assumes "db_inv db d" "set ks \<subseteq> dom (contents (db, d))"
  shows "\<exists>rs. foldKeys no_faults fn ks s (db, d)
    = ((db\<lparr>readers := rs\<rparr>, d), fold_until fn (map (\<lambda>k. (k, the (contents (db, d) k))) ks) s)"
  using assms
proof (induction ks arbitrary: db s)
  case Nil
  then show ?case by (auto intro: exI [of _ "readers db"])
next
  case (Cons k ks)
  obtain v where v: "contents (db, d) k = Some v" using Cons.prems(2) by auto
  obtain rs where g: "DB_Get no_faults k (db, d) = ((db\<lparr>readers := rs\<rparr>, d), Inr v)"
    using DB_Get_spec [OF Cons.prems(1), of k] v by auto
  show ?case
  proof (cases "fn s k v")
    case (Pair s' r)
    have "set ks \<subseteq> dom (contents (db\<lparr>readers := rs\<rparr>, d))" using Cons.prems by (simp add: contents_readers)
    from Cons.IH [OF db_inv_readers [OF Cons.prems(1)] this, of s'] obtain rs' where
      "foldKeys no_faults fn ks s' (db\<lparr>readers := rs\<rparr>, d)
        = ((db\<lparr>readers := rs'\<rparr>, d), fold_until fn (map (\<lambda>k. (k, the (contents (db, d) k))) ks) s')"
      by (auto simp: contents_readers [OF Cons.prems(1)])
    then show ?thesis using g v Pair by (cases r) auto
  qed
qed

text \<open>
  C21: \<open>Fold\<close> calls its function once for every key the store holds, in the order of the keys and with the
  value \<open>Get\<close> would return, stops at the first error of the function and returns it, and leaves the store
  as it was but for the files kept open for reading.
\<close>

theorem fold_visits_contents:
  assumes "db_inv db d"
  shows "\<exists>rs keys. sorted_wrt (<) keys \<and> set keys = dom (contents (db, d)) \<and> DB_ListKeys db = keys
    \<and> DB_Fold no_faults fn s (db, d) = ((db\<lparr>readers := rs\<rparr>, d), fold_until fn (map (\<lambda>k. (k, the (contents (db, d) k))) keys) s)"
proof -
  have "\<not> closed db" using assms by (simp add: db_inv_def)
  then show ?thesis
    using foldKeys_spec [OF assms, of "DB_ListKeys db" fn s] ListKeys_spec [OF assms]
    by (auto simp: DB_Fold_def DB_ListKeys_def)
qed

text \<open>A function that notes the keys and fails at one of them.\<close>

definition stop_at :: "string \<Rightarrow> string list \<Rightarrow> string \<Rightarrow> byte list \<Rightarrow> string list \<times> error option" where
  "stop_at stop s k v = (s @ [k], if k = stop then Some ErrClosed else None)"

theorem fold_visits_contents_witness:
  "\<exists>db d w w'. OpenWithOptions no_faults False large_files two_files = (d, Inr db)
     \<and> DB_Fold no_faults (stop_at ''a'') [] (db, d) = (w, [''a''], Some ErrClosed)
     \<and> DB_Fold no_faults (stop_at ''c'') [] (db, d) = (w', [''a'', ''b''], None)"
proof -
  obtain db d where o: "OpenWithOptions no_faults False large_files two_files = (d, Inr db)" "log_inv db d two_layout"
    "keydir db = [(''a'', e_a), (''b'', e_b)]" using open_two by blast
  have ks: "DB_ListKeys db = [''a'', ''b'']" by (simp add: DB_ListKeys_def o(3))
  show ?thesis
    using fold_visits_contents [OF log_inv_db [OF o(2)], of "stop_at ''a''" "[]"]
      fold_visits_contents [OF log_inv_db [OF o(2)], of "stop_at ''c''" "[]"] o(1) ks
    by (auto simp: stop_at_def)
qed

end
