(* ===== verification/RaftRpc.thy ===== *)
theory RaftRpc
  imports Prelude
begin

text \<open>
  The messages of the consensus layer (\<open>raft/rpc.go\<close>) and their conversion to and from the protocol
  buffer messages of \<open>proto/raft.proto\<close>. A Go \<open>int\<close> is an \<open>int\<close>; the \<open>int32\<close> fields of the protocol
  buffer messages are 32-bit words read with \<open>sint\<close>, so that the narrowing conversions wrap as they
  do in Go. The \<open>Command\<close> of a log entry is a pointer in the generated code: \<open>None\<close> is \<open>nil\<close>, and
  following it panics.
\<close>

section \<open>Messages\<close>

record Command =
  cmd_Type :: string
  cmd_Key :: string
  cmd_Value :: string

record LogEntry =
  le_Term :: int
  le_Index :: int
  le_Command :: Command

record RequestVoteArgs =
  rv_Term :: int
  rv_CandidateId :: int
  rv_LastLogIndex :: int
  rv_LastLogTerm :: int

record RequestVoteReply =
  rvr_Term :: int
  rvr_VoteGranted :: bool

record AppendEntriesArgs =
  ae_Term :: int
  ae_LeaderId :: int
  ae_PrevLogIndex :: int
  ae_PrevLogTerm :: int
  ae_Entries :: "LogEntry list"
  ae_LeaderCommit :: int

record AppendEntriesReply =
  aer_Term :: int
  aer_Success :: bool

record ApplyMsg =
  am_Index :: int
  am_Term :: int
  am_Command :: Command

datatype NodeState = Follower | Candidate | Leader

fun NodeState_String :: "NodeState \<Rightarrow> string" where
  "NodeState_String Follower = ''Follower''"
| "NodeState_String Candidate = ''Candidate''"
| "NodeState_String Leader = ''Leader''"

section \<open>Protocol buffer messages\<close>

type_synonym i32 = "32 word"

record PbCommand =
  pb_Type :: string
  pb_Key :: string
  pb_Value :: string

record PbLogEntry =
  pble_Term :: i32
  pble_Index :: i32
  pble_Command :: "PbCommand option"

record PbRequestVoteRequest =
  pbrv_Term :: i32
  pbrv_CandidateId :: i32
  pbrv_LastLogIndex :: i32
  pbrv_LastLogTerm :: i32

record PbRequestVoteResponse =
  pbrvr_Term :: i32
  pbrvr_VoteGranted :: bool

record PbAppendEntriesRequest =
  pbae_Term :: i32
  pbae_LeaderId :: i32
  pbae_PrevLogIndex :: i32
  pbae_PrevLogTerm :: i32
  pbae_Entries :: "PbLogEntry list"
  pbae_LeaderCommit :: i32

record PbAppendEntriesResponse =
  pbaer_Term :: i32
  pbaer_Success :: bool

section \<open>Conversions\<close>

definition int32 :: "int \<Rightarrow> i32" where
  "int32 i = word_of_int i"

definition RequestVoteArgsToProto :: "RequestVoteArgs \<Rightarrow> PbRequestVoteRequest" where
  "RequestVoteArgsToProto a =
     \<lparr>pbrv_Term = int32 (rv_Term a), pbrv_CandidateId = int32 (rv_CandidateId a),
      pbrv_LastLogIndex = int32 (rv_LastLogIndex a), pbrv_LastLogTerm = int32 (rv_LastLogTerm a)\<rparr>"

definition RequestVoteReplyFromProto :: "PbRequestVoteResponse \<Rightarrow> RequestVoteReply" where
  "RequestVoteReplyFromProto r =
     \<lparr>rvr_Term = sint (pbrvr_Term r), rvr_VoteGranted = pbrvr_VoteGranted r\<rparr>"

definition RequestVoteArgsFromProto :: "PbRequestVoteRequest \<Rightarrow> RequestVoteArgs" where
  "RequestVoteArgsFromProto r =
     \<lparr>rv_Term = sint (pbrv_Term r), rv_CandidateId = sint (pbrv_CandidateId r),
      rv_LastLogIndex = sint (pbrv_LastLogIndex r), rv_LastLogTerm = sint (pbrv_LastLogTerm r)\<rparr>"

definition RequestVoteReplyToProto :: "RequestVoteReply \<Rightarrow> PbRequestVoteResponse" where
  "RequestVoteReplyToProto r =
     \<lparr>pbrvr_Term = int32 (rvr_Term r), pbrvr_VoteGranted = rvr_VoteGranted r\<rparr>"

definition LogEntryToProto :: "LogEntry \<Rightarrow> PbLogEntry" where
  "LogEntryToProto e =
     \<lparr>pble_Term = int32 (le_Term e), pble_Index = int32 (le_Index e),
      pble_Command = Some \<lparr>pb_Type = cmd_Type (le_Command e), pb_Key = cmd_Key (le_Command e),
                           pb_Value = cmd_Value (le_Command e)\<rparr>\<rparr>"

definition LogEntryFromProto :: "PbLogEntry \<Rightarrow> LogEntry option" where
  "LogEntryFromProto e =
     (case pble_Command e of
        None \<Rightarrow> None
      | Some c \<Rightarrow> Some \<lparr>le_Term = sint (pble_Term e), le_Index = sint (pble_Index e),
          le_Command = \<lparr>cmd_Type = pb_Type c, cmd_Key = pb_Key c, cmd_Value = pb_Value c\<rparr>\<rparr>)"

definition AppendEntriesArgsToProto :: "AppendEntriesArgs \<Rightarrow> PbAppendEntriesRequest" where
  "AppendEntriesArgsToProto a =
     \<lparr>pbae_Term = int32 (ae_Term a), pbae_LeaderId = int32 (ae_LeaderId a),
      pbae_PrevLogIndex = int32 (ae_PrevLogIndex a), pbae_PrevLogTerm = int32 (ae_PrevLogTerm a),
      pbae_Entries = map LogEntryToProto (ae_Entries a), pbae_LeaderCommit = int32 (ae_LeaderCommit a)\<rparr>"

definition AppendEntriesReplyFromProto :: "PbAppendEntriesResponse \<Rightarrow> AppendEntriesReply" where
  "AppendEntriesReplyFromProto r =
     \<lparr>aer_Term = sint (pbaer_Term r), aer_Success = pbaer_Success r\<rparr>"

fun entriesFromProto :: "PbLogEntry list \<Rightarrow> LogEntry list option" where
  "entriesFromProto [] = Some []"
| "entriesFromProto (e # es) =
     (case LogEntryFromProto e of
        None \<Rightarrow> None
      | Some x \<Rightarrow> map_option ((#) x) (entriesFromProto es))"

definition AppendEntriesArgsFromProto :: "PbAppendEntriesRequest \<Rightarrow> AppendEntriesArgs option" where
  "AppendEntriesArgsFromProto r =
     (case entriesFromProto (pbae_Entries r) of
        None \<Rightarrow> None
      | Some entries \<Rightarrow> Some
         \<lparr>ae_Term = sint (pbae_Term r), ae_LeaderId = sint (pbae_LeaderId r),
          ae_PrevLogIndex = sint (pbae_PrevLogIndex r), ae_PrevLogTerm = sint (pbae_PrevLogTerm r),
          ae_Entries = entries, ae_LeaderCommit = sint (pbae_LeaderCommit r)\<rparr>)"

definition AppendEntriesReplyToProto :: "AppendEntriesReply \<Rightarrow> PbAppendEntriesResponse" where
  "AppendEntriesReplyToProto r =
     \<lparr>pbaer_Term = int32 (aer_Term r), pbaer_Success = aer_Success r\<rparr>"

section \<open>Round trips over the wire\<close>

definition is_int32 :: "int \<Rightarrow> bool" where
  "is_int32 i \<longleftrightarrow> - (2 ^ 31) \<le> i \<and> i < 2 ^ 31"

lemma sint_int32_iff: "sint (int32 i) = i \<longleftrightarrow> is_int32 i"
proof
  assume "sint (int32 i) = i"
  then show "is_int32 i"
    using sint_greater_eq [of "int32 i"] sint_less [of "int32 i"] by (simp add: is_int32_def)
next
  assume "is_int32 i"
  then show "sint (int32 i) = i"
    by (simp add: is_int32_def int32_def sint_sbintrunc' signed_take_bit_int_eq_self)
qed

definition entry_in_range :: "LogEntry \<Rightarrow> bool" where
  "entry_in_range e \<longleftrightarrow> is_int32 (le_Term e) \<and> is_int32 (le_Index e)"

definition ae_in_range :: "AppendEntriesArgs \<Rightarrow> bool" where
  "ae_in_range a \<longleftrightarrow> is_int32 (ae_Term a) \<and> is_int32 (ae_LeaderId a) \<and> is_int32 (ae_PrevLogIndex a)
     \<and> is_int32 (ae_PrevLogTerm a) \<and> is_int32 (ae_LeaderCommit a) \<and> (\<forall>e \<in> set (ae_Entries a). entry_in_range e)"

definition rv_in_range :: "RequestVoteArgs \<Rightarrow> bool" where
  "rv_in_range a \<longleftrightarrow> is_int32 (rv_Term a) \<and> is_int32 (rv_CandidateId a)
     \<and> is_int32 (rv_LastLogIndex a) \<and> is_int32 (rv_LastLogTerm a)"

lemma LogEntry_roundtrip: "LogEntryFromProto (LogEntryToProto e) = Some e \<longleftrightarrow> entry_in_range e"
  by (cases e) (auto simp: LogEntryFromProto_def LogEntryToProto_def entry_in_range_def sint_int32_iff)

lemma LogEntryFromProto_ToProto_neq_None: "LogEntryFromProto (LogEntryToProto e) \<noteq> None"
  by (simp add: LogEntryFromProto_def LogEntryToProto_def)

lemma entries_roundtrip:
  "entriesFromProto (map LogEntryToProto es) = Some es \<longleftrightarrow> (\<forall>e \<in> set es. entry_in_range e)"
proof (induction es)
  case Nil
  then show ?case by simp
next
  case (Cons e es)
  have "\<exists>x. LogEntryFromProto (LogEntryToProto e) = Some x"
    using LogEntryFromProto_ToProto_neq_None by blast
  then show ?case
    using LogEntry_roundtrip [of e] Cons.IH by auto
qed

end
