(* ===== verification/RaftNode.thy ===== *)
theory RaftNode
  imports RaftRpc
begin

text \<open>
  One Raft node (\<open>raft/node.go\<close>). Each section of the code that holds \<open>n.mu\<close> is one function on the
  \<open>Node\<close> record; a function whose code can panic (an index out of range) returns \<open>None\<close> there.
  \<open>replicateToFollower\<close> releases the lock around its RPC and is split there. A missing key of a Go map
  reads as 0, so \<open>nextIndex\<close> and \<open>matchIndex\<close> are total functions with 0 as the value of an absent key.
  A buffered channel that only carries signals is the number of signals in it.
\<close>

section \<open>State\<close>

record Node =
  node_id :: int
  peers :: "string list"
  leaderID :: int
  currentTerm :: int
  votedFor :: int
  nlog :: "LogEntry list"
  commitIndex :: int
  lastApplied :: int
  state :: NodeState
  nextIndex :: "int \<Rightarrow> int"
  matchIndex :: "int \<Rightarrow> int"
  commitNotifyCh :: nat
  heartbeatCh :: nat
  voteCh :: nat
  replicationTrigger :: "int \<Rightarrow> nat"
  shutdownCh :: bool

definition len :: "'a list \<Rightarrow> int" where
  "len xs = int (length xs)"

text \<open>Indexing a slice: \<open>None\<close> is the panic.\<close>

definition at :: "'a list \<Rightarrow> int \<Rightarrow> 'a option" where
  "at xs i = (if 0 \<le> i \<and> i < len xs then Some (xs ! nat i) else None)"

definition dummyEntry :: LogEntry where
  "dummyEntry = \<lparr>le_Term = 0, le_Index = 0,
     le_Command = \<lparr>cmd_Type = [], cmd_Key = [], cmd_Value = []\<rparr>\<rparr>"

definition NewNode :: "int \<Rightarrow> string list \<Rightarrow> Node" where
  "NewNode i ps =
     \<lparr>node_id = i, peers = ps, leaderID = -1, currentTerm = 0, votedFor = -1, nlog = [dummyEntry],
      commitIndex = 0, lastApplied = 0, state = Follower, nextIndex = (\<lambda>_. 0), matchIndex = (\<lambda>_. 0),
      commitNotifyCh = 0, heartbeatCh = 0, voteCh = 0, replicationTrigger = (\<lambda>_. 0),
      shutdownCh = False\<rparr>"

text \<open>A non-blocking send (\<open>select\<close> with \<open>default\<close>) on a signal channel of capacity \<open>cap\<close>.\<close>

definition signal :: "nat \<Rightarrow> nat \<Rightarrow> nat" where
  "signal cap n = (if n < cap then Suc n else n)"

definition notifyCommitAdvance :: "Node \<Rightarrow> Node" where
  "notifyCommitAdvance n = n\<lparr>commitNotifyCh := signal 1 (commitNotifyCh n)\<rparr>"

section \<open>Role changes\<close>

definition becomeLeaderLocked :: "Node \<Rightarrow> Node" where
  "becomeLeaderLocked n =
     (let lastLogIndex = len (nlog n) - 1;
          isPeer = (\<lambda>i. 0 \<le> i \<and> i < len (peers n))
      in n\<lparr>state := Leader, leaderID := node_id n,
           nextIndex := (\<lambda>i. if isPeer i then lastLogIndex + 1 else 0),
           matchIndex := (\<lambda>i. 0)(node_id n := lastLogIndex)\<rparr>)"

definition becomeFollowerLocked :: "int \<Rightarrow> Node \<Rightarrow> Node" where
  "becomeFollowerLocked term n =
     n\<lparr>currentTerm := (if term > currentTerm n then term else currentTerm n),
       votedFor := -1, state := Follower, leaderID := -1\<rparr>"

section \<open>Elections\<close>

text \<open>\<open>runFollower\<close>: the branch taken when the election timer fires.\<close>

definition followerTimeout :: "Node \<Rightarrow> Node" where
  "followerTimeout n = n\<lparr>state := Candidate\<rparr>"

definition votesNeeded :: "Node \<Rightarrow> int" where
  "votesNeeded n = (len (peers n) + 1) div 2 + 1"

text \<open>\<open>runCandidate\<close>, first critical section: the new term and the vote request it sends out.\<close>

definition startElection :: "Node \<Rightarrow> (Node \<times> RequestVoteArgs) option" where
  "startElection n =
     (let n = n\<lparr>currentTerm := currentTerm n + 1, votedFor := node_id n, leaderID := -1\<rparr>;
          lastLogIndex = len (nlog n) - 1
      in case at (nlog n) lastLogIndex of
           None \<Rightarrow> None
         | Some lastEntry \<Rightarrow> Some (n, \<lparr>rv_Term = currentTerm n, rv_CandidateId = node_id n,
              rv_LastLogIndex = lastLogIndex, rv_LastLogTerm = le_Term lastEntry\<rparr>))"

datatype electionOutcome = SteppedDown | Elected | Waiting int

text \<open>
  \<open>runCandidate\<close>, one turn of the loop on a reply: \<open>term\<close> is the local \<open>currentTerm\<close> of the election
  and \<open>votes\<close> the local counter.
\<close>

definition candidateOnReply ::
  "int \<Rightarrow> int \<Rightarrow> RequestVoteReply \<Rightarrow> Node \<Rightarrow> Node \<times> electionOutcome" where
  "candidateOnReply term votes r n =
     (if rvr_Term r > term then (becomeFollowerLocked (rvr_Term r) n, SteppedDown)
      else
        let votes = (if rvr_VoteGranted r then votes + 1 else votes)
        in if votes \<ge> votesNeeded n \<and> state n = Candidate \<and> currentTerm n = term
           then (becomeLeaderLocked n, Elected)
           else (n, Waiting votes))"

definition HandleRequestVote ::
  "RequestVoteArgs \<Rightarrow> Node \<Rightarrow> (Node \<times> RequestVoteReply) option" where
  "HandleRequestVote args n =
     (let reply = \<lparr>rvr_Term = currentTerm n, rvr_VoteGranted = False\<rparr>
      in if currentTerm n > rv_Term args then Some (n, reply)
         else
           let n = (if rv_Term args > currentTerm n then becomeFollowerLocked (rv_Term args) n else n);
               lastLogIndex = len (nlog n) - 1
           in case at (nlog n) lastLogIndex of
                None \<Rightarrow> None
              | Some lastEntry \<Rightarrow>
                  let lastLogTerm = le_Term lastEntry;
                      logOk = (rv_LastLogTerm args > lastLogTerm \<or>
                               (rv_LastLogTerm args = lastLogTerm \<and> rv_LastLogIndex args \<ge> lastLogIndex))
                  in if (votedFor n = -1 \<or> votedFor n = rv_CandidateId args) \<and> logOk
                     then Some (n\<lparr>votedFor := rv_CandidateId args, voteCh := signal 100 (voteCh n)\<rparr>,
                                reply\<lparr>rvr_VoteGranted := True\<rparr>)
                     else Some (n, reply))"

section \<open>Log replication: the follower\<close>

fun appendLoop :: "int \<Rightarrow> int \<Rightarrow> LogEntry list \<Rightarrow> LogEntry list \<Rightarrow> LogEntry list option" where
  "appendLoop prev i [] l = Some l"
| "appendLoop prev i (entry # entries) l =
     (let idx = prev + i + 1
      in if idx < len l
         then (case at l idx of
                 None \<Rightarrow> None
               | Some old \<Rightarrow>
                   if le_Term old \<noteq> le_Term entry
                   then appendLoop prev (i + 1) entries (take (nat idx) l @ [entry])
                   else appendLoop prev (i + 1) entries l)
         else appendLoop prev (i + 1) entries (l @ [entry]))"

definition HandleAppendEntries ::
  "AppendEntriesArgs \<Rightarrow> Node \<Rightarrow> (Node \<times> AppendEntriesReply) option" where
  "HandleAppendEntries args n =
     (let reply = \<lparr>aer_Term = currentTerm n, aer_Success = False\<rparr>
      in if currentTerm n > ae_Term args then Some (n, reply)
         else
           let n = (becomeFollowerLocked (ae_Term args) n)\<lparr>leaderID := ae_LeaderId args\<rparr>;
               n = n\<lparr>heartbeatCh := signal 100 (heartbeatCh n)\<rparr>;
               accept =
                 (case appendLoop (ae_PrevLogIndex args) 0 (ae_Entries args) (nlog n) of
                    None \<Rightarrow> None
                  | Some l \<Rightarrow>
                      let n = n\<lparr>nlog := l\<rparr>;
                          n = (if ae_LeaderCommit args > commitIndex n
                               then notifyCommitAdvance
                                      (n\<lparr>commitIndex := min (ae_LeaderCommit args) (len (nlog n) - 1)\<rparr>)
                               else n)
                      in Some (n, reply\<lparr>aer_Success := True\<rparr>))
           in if ae_PrevLogIndex args < 0 then accept
              else case at (nlog n) (ae_PrevLogIndex args) of
                     None \<Rightarrow> Some (n, reply)
                   | Some prev \<Rightarrow>
                       if le_Term prev \<noteq> ae_PrevLogTerm args then Some (n, reply) else accept)"

section \<open>Log replication: the leader\<close>

definition signalAllReplications :: "Node \<Rightarrow> Node" where
  "signalAllReplications n =
     (if state n \<noteq> Leader then n
      else n\<lparr>replicationTrigger :=
              (\<lambda>i. if 0 \<le> i \<and> i < len (peers n) \<and> i \<noteq> node_id n
                   then signal 1 (replicationTrigger n i) else replicationTrigger n i)\<rparr>)"

definition Submit :: "Command \<Rightarrow> Node \<Rightarrow> Node \<times> int \<times> int \<times> bool" where
  "Submit cmd n =
     (if state n \<noteq> Leader then (n, -1, -1, False)
      else
        let index = len (nlog n);
            term = currentTerm n;
            entry = \<lparr>le_Term = term, le_Index = index, le_Command = cmd\<rparr>;
            n = n\<lparr>nlog := nlog n @ [entry], matchIndex := (matchIndex n)(node_id n := index)\<rparr>
        in (signalAllReplications n, index, term, True))"

text \<open>\<open>tryAdvanceCommitIndexLocked\<close>: the loop from the end of the log down to the commit index.\<close>

definition replicaCount :: "Node \<Rightarrow> int \<Rightarrow> int" where
  "replicaCount n N =
     1 + int (length (filter (\<lambda>i. int i \<noteq> node_id n \<and> matchIndex n (int i) \<ge> N) [0..<length (peers n)]))"

function advanceLoop :: "int \<Rightarrow> Node \<Rightarrow> Node option" where
  "advanceLoop N n =
     (if N > commitIndex n then
        (case at (nlog n) N of
           None \<Rightarrow> None
         | Some e \<Rightarrow>
             if le_Term e \<noteq> currentTerm n then advanceLoop (N - 1) n
             else if replicaCount n N > len (peers n) div 2
                  then Some (notifyCommitAdvance (n\<lparr>commitIndex := N\<rparr>))
                  else advanceLoop (N - 1) n)
      else Some n)"
  by pat_completeness auto
termination
  by (relation "measure (\<lambda>(N, n). nat (N - commitIndex n))") auto

declare advanceLoop.simps [simp del]

definition tryAdvanceCommitIndexLocked :: "Node \<Rightarrow> Node option" where
  "tryAdvanceCommitIndexLocked n = advanceLoop (len (nlog n) - 1) n"

definition tryAdvanceCommitIndex :: "Node \<Rightarrow> Node option" where
  "tryAdvanceCommitIndex n = tryAdvanceCommitIndexLocked n"

text \<open>\<open>replicateToFollower\<close> up to its RPC; \<open>None\<close> when it gives up before sending.\<close>

definition replicateArgs :: "int \<Rightarrow> Node \<Rightarrow> AppendEntriesArgs option" where
  "replicateArgs peerIdx n =
     (if state n \<noteq> Leader then None
      else
        let nextIdx = nextIndex n peerIdx;
            prevLogIndex = nextIdx - 1
        in case at (nlog n) prevLogIndex of
             None \<Rightarrow> None
           | Some prev \<Rightarrow> Some
               \<lparr>ae_Term = currentTerm n, ae_LeaderId = node_id n, ae_PrevLogIndex = prevLogIndex,
                ae_PrevLogTerm = le_Term prev,
                ae_Entries = (if nextIdx < len (nlog n) then drop (nat nextIdx) (nlog n) else []),
                ae_LeaderCommit = commitIndex n\<rparr>)"

text \<open>\<open>replicateToFollower\<close> after its RPC returned; the boolean says whether to go on at once.\<close>

definition replicateOnReply ::
  "int \<Rightarrow> AppendEntriesArgs \<Rightarrow> AppendEntriesReply \<Rightarrow> Node \<Rightarrow> (Node \<times> bool) option" where
  "replicateOnReply peerIdx args reply n =
     (if aer_Term reply > currentTerm n then Some (becomeFollowerLocked (aer_Term reply) n, False)
      else if state n \<noteq> Leader \<or> currentTerm n \<noteq> ae_Term args then Some (n, False)
      else if aer_Success reply then
        (let match = ae_PrevLogIndex args + len (ae_Entries args);
             advanced =
               (if match > matchIndex n peerIdx
                then tryAdvanceCommitIndexLocked
                       (n\<lparr>matchIndex := (matchIndex n)(peerIdx := match),
                          nextIndex := (nextIndex n)(peerIdx := match + 1)\<rparr>)
                else Some n)
         in case advanced of
              None \<Rightarrow> None
            | Some n \<Rightarrow> Some (n, nextIndex n peerIdx < len (nlog n)))
      else if nextIndex n peerIdx > 1
           then Some (n\<lparr>nextIndex := (nextIndex n)(peerIdx := nextIndex n peerIdx - 1)\<rparr>, True)
           else Some (n, False))"

section \<open>Applying committed entries\<close>

text \<open>One turn of \<open>applyCommittedEntries\<close>: the message it sends, if any entry is due.\<close>

definition applyNext :: "Node \<Rightarrow> (Node \<times> ApplyMsg option) option" where
  "applyNext n =
     (if lastApplied n < commitIndex n
      then let n = n\<lparr>lastApplied := lastApplied n + 1\<rparr>
           in case at (nlog n) (lastApplied n) of
                None \<Rightarrow> None
              | Some entry \<Rightarrow> Some (n, Some \<lparr>am_Index = le_Index entry, am_Term = le_Term entry,
                                              am_Command = le_Command entry\<rparr>)
      else Some (n, None))"

definition IsLeader :: "Node \<Rightarrow> bool" where
  "IsLeader n \<longleftrightarrow> state n = Leader"

definition GetState :: "Node \<Rightarrow> int \<times> bool" where
  "GetState n = (currentTerm n, state n = Leader)"

definition LeaderID :: "Node \<Rightarrow> int" where
  "LeaderID n = leaderID n"

definition Shutdown :: "Node \<Rightarrow> Node" where
  "Shutdown n = n\<lparr>shutdownCh := True\<rparr>"

text \<open>The term of a reply is the one the handler found.\<close>

lemma HandleRequestVote_term: "HandleRequestVote a n = Some (n', r) \<Longrightarrow> rvr_Term r = currentTerm n"
  by (auto simp: HandleRequestVote_def Let_def split: if_splits option.splits)

lemma HandleAppendEntries_term: "HandleAppendEntries a n = Some (n', r) \<Longrightarrow> aer_Term r = currentTerm n"
  by (auto simp: HandleAppendEntries_def Let_def split: if_splits option.splits)

end
