(* ===== verification/RaftCluster.thy ===== *)
theory RaftCluster
  imports RaftNode
begin

text \<open>
  A cluster of Raft nodes and the network between them. The goroutines of \<open>raft/node.go\<close> are
  interleaved at their critical sections: every event below is one critical section of one goroutine
  of one node (or the delivery of a message to it). The main loop of a node keeps a program counter,
  because \<open>run\<close> reads the node's role and then calls \<open>runFollower\<close>, \<open>runCandidate\<close> or \<open>runLeader\<close>
  without holding the lock: the role may have changed by then.

  The network may delay, reorder and lose messages; a request is handled at most once and its reply is
  read at most once, as gRPC unary calls are. A replication worker may send at any time (in the code
  it waits for a trigger or the next heartbeat), and any number of its requests may be under way: this
  allows every behaviour of the code and more. A node that crashed or was shut down takes no more
  steps, which is the case of a run in which no event of it occurs; restarting with empty Raft state
  is not part of the model.
\<close>

section \<open>State\<close>

datatype runPC =
    AtLoop
  | InFollower
  | AtCandidate
  | InCandidate int int  \<comment> \<open>the election's term and the votes counted so far\<close>
  | InLeader

record cluster =
  nodes :: "int \<Rightarrow> Node"
  pcs :: "int \<Rightarrow> runPC"
  rvReqs :: "(int \<times> int \<times> RequestVoteArgs) list"  \<comment> \<open>candidate, voter, request\<close>
  rvReps :: "(int \<times> int \<times> int \<times> RequestVoteReply) list"  \<comment> \<open>candidate, term of the election, voter, reply\<close>
  aeReqs :: "(int \<times> int \<times> AppendEntriesArgs) list"  \<comment> \<open>leader, follower, request\<close>
  aeReps :: "(int \<times> int \<times> AppendEntriesArgs \<times> AppendEntriesReply) list"
  applied :: "int \<Rightarrow> ApplyMsg list"  \<comment> \<open>what a node has sent on \<open>applyCh\<close>\<close>

definition initCluster :: "string list \<Rightarrow> cluster" where
  "initCluster ps =
     \<lparr>nodes = (\<lambda>i. NewNode i ps), pcs = (\<lambda>_. AtLoop), rvReqs = [], rvReps = [], aeReqs = [],
      aeReps = [], applied = (\<lambda>_. [])\<rparr>"

definition is_node :: "string list \<Rightarrow> int \<Rightarrow> bool" where
  "is_node ps i \<longleftrightarrow> 0 \<le> i \<and> i < len ps"

definition set_node :: "int \<Rightarrow> Node \<Rightarrow> cluster \<Rightarrow> cluster" where
  "set_node i n c = c\<lparr>nodes := (nodes c)(i := n)\<rparr>"

definition set_pc :: "int \<Rightarrow> runPC \<Rightarrow> cluster \<Rightarrow> cluster" where
  "set_pc i p c = c\<lparr>pcs := (pcs c)(i := p)\<rparr>"

section \<open>Events\<close>

datatype event =
    RunLoop int
  | FollowerHeartbeat int
  | FollowerVote int
  | FollowerTimeout int
  | StartElection int
  | DeliverVoteRequest int int RequestVoteArgs
  | ReceiveVoteReply int int int RequestVoteReply
  | CandidateTimeout int
  | LeaderTick int
  | SendAppend int int
  | DeliverAppend int int AppendEntriesArgs
  | ReceiveAppendReply int int AppendEntriesArgs AppendEntriesReply
  | ClientSubmit int Command
  | ApplyEntry int

definition runLoop :: "int \<Rightarrow> cluster \<Rightarrow> cluster option" where
  "runLoop i c =
     (if pcs c i \<noteq> AtLoop then None
      else case state (nodes c i) of
             Follower \<Rightarrow> Some (set_pc i InFollower c)
           | Candidate \<Rightarrow> Some (set_pc i AtCandidate c)
           | Leader \<Rightarrow> Some (set_pc i InLeader (set_node i (signalAllReplications (nodes c i)) c)))"

definition followerHeartbeat :: "int \<Rightarrow> cluster \<Rightarrow> cluster option" where
  "followerHeartbeat i c =
     (let n = nodes c i in
      if pcs c i \<noteq> InFollower \<or> heartbeatCh n = 0 then None
      else Some (set_pc i AtLoop (set_node i (n\<lparr>heartbeatCh := heartbeatCh n - 1\<rparr>) c)))"

definition followerVote :: "int \<Rightarrow> cluster \<Rightarrow> cluster option" where
  "followerVote i c =
     (let n = nodes c i in
      if pcs c i \<noteq> InFollower \<or> voteCh n = 0 then None
      else Some (set_pc i AtLoop (set_node i (n\<lparr>voteCh := voteCh n - 1\<rparr>) c)))"

definition followerExpires :: "int \<Rightarrow> cluster \<Rightarrow> cluster option" where
  "followerExpires i c =
     (if pcs c i \<noteq> InFollower then None
      else Some (set_pc i AtLoop (set_node i (followerTimeout (nodes c i)) c)))"

text \<open>\<open>runCandidate\<close>: the new term, and one request to every peer but the node itself.\<close>

definition otherPeers :: "Node \<Rightarrow> int list" where
  "otherPeers n = filter (\<lambda>j. j \<noteq> node_id n) (map int [0..<length (peers n)])"

definition beginElection :: "int \<Rightarrow> cluster \<Rightarrow> cluster option" where
  "beginElection i c =
     (if pcs c i \<noteq> AtCandidate then None
      else case startElection (nodes c i) of
             None \<Rightarrow> None
           | Some (n, args) \<Rightarrow>
               Some ((set_pc i (InCandidate (rv_Term args) 1) (set_node i n c))
                 \<lparr>rvReqs := rvReqs c @ map (\<lambda>j. (i, j, args)) (otherPeers n)\<rparr>))"

definition deliverVoteRequest :: "int \<Rightarrow> int \<Rightarrow> RequestVoteArgs \<Rightarrow> cluster \<Rightarrow> cluster option" where
  "deliverVoteRequest i j args c =
     (if (i, j, args) \<notin> set (rvReqs c) then None
      else case HandleRequestVote args (nodes c j) of
             None \<Rightarrow> None
           | Some (n, reply) \<Rightarrow>
               Some ((set_node j n c)\<lparr>rvReqs := remove1 (i, j, args) (rvReqs c),
                                       rvReps := (i, rv_Term args, j, reply) # rvReps c\<rparr>))"

definition receiveVoteReply ::
  "int \<Rightarrow> int \<Rightarrow> int \<Rightarrow> RequestVoteReply \<Rightarrow> cluster \<Rightarrow> cluster option" where
  "receiveVoteReply i term j reply c =
     (if (i, term, j, reply) \<notin> set (rvReps c) then None
      else case pcs c i of
             InCandidate t votes \<Rightarrow>
               if t \<noteq> term then None
               else
                 let c' = c\<lparr>rvReps := remove1 (i, term, j, reply) (rvReps c)\<rparr>
                 in case candidateOnReply t votes reply (nodes c i) of
                      (n, SteppedDown) \<Rightarrow> Some (set_pc i AtLoop (set_node i n c'))
                    | (n, Elected) \<Rightarrow> Some (set_pc i AtLoop (set_node i (signalAllReplications n) c'))
                    | (n, Waiting v) \<Rightarrow> Some (set_pc i (InCandidate t v) (set_node i n c'))
           | _ \<Rightarrow> None)"

definition candidateExpires :: "int \<Rightarrow> cluster \<Rightarrow> cluster option" where
  "candidateExpires i c =
     (case pcs c i of InCandidate t votes \<Rightarrow> Some (set_pc i AtLoop c) | _ \<Rightarrow> None)"

definition leaderTick :: "int \<Rightarrow> cluster \<Rightarrow> cluster option" where
  "leaderTick i c =
     (if pcs c i \<noteq> InLeader then None
      else if state (nodes c i) \<noteq> Leader then Some (set_pc i AtLoop c)
      else Some (set_node i (signalAllReplications (nodes c i)) c))"

definition sendAppend :: "int \<Rightarrow> int \<Rightarrow> cluster \<Rightarrow> cluster option" where
  "sendAppend i j c =
     (if j \<notin> set (otherPeers (nodes c i)) then None
      else case replicateArgs j (nodes c i) of
             None \<Rightarrow> None
           | Some args \<Rightarrow> Some (c\<lparr>aeReqs := (i, j, args) # aeReqs c\<rparr>))"

definition deliverAppend :: "int \<Rightarrow> int \<Rightarrow> AppendEntriesArgs \<Rightarrow> cluster \<Rightarrow> cluster option" where
  "deliverAppend i j args c =
     (if (i, j, args) \<notin> set (aeReqs c) then None
      else case HandleAppendEntries args (nodes c j) of
             None \<Rightarrow> None
           | Some (n, reply) \<Rightarrow>
               Some ((set_node j n c)\<lparr>aeReqs := remove1 (i, j, args) (aeReqs c),
                                       aeReps := (i, j, args, reply) # aeReps c\<rparr>))"

definition receiveAppendReply ::
  "int \<Rightarrow> int \<Rightarrow> AppendEntriesArgs \<Rightarrow> AppendEntriesReply \<Rightarrow> cluster \<Rightarrow> cluster option" where
  "receiveAppendReply i j args reply c =
     (if (i, j, args, reply) \<notin> set (aeReps c) then None
      else case replicateOnReply j args reply (nodes c i) of
             None \<Rightarrow> None
           | Some (n, again) \<Rightarrow>
               Some ((set_node i n c)\<lparr>aeReps := remove1 (i, j, args, reply) (aeReps c)\<rparr>))"

definition clientSubmit :: "int \<Rightarrow> Command \<Rightarrow> cluster \<Rightarrow> cluster option" where
  "clientSubmit i cmd c = Some (set_node i (fst (Submit cmd (nodes c i))) c)"

definition applyEntry :: "int \<Rightarrow> cluster \<Rightarrow> cluster option" where
  "applyEntry i c =
     (case applyNext (nodes c i) of
        None \<Rightarrow> None
      | Some (n, None) \<Rightarrow> None
      | Some (n, Some msg) \<Rightarrow>
          Some ((set_node i n c)\<lparr>applied := (applied c)(i := applied c i @ [msg])\<rparr>))"

fun actor :: "event \<Rightarrow> int" where
  "actor (RunLoop i) = i"
| "actor (FollowerHeartbeat i) = i"
| "actor (FollowerVote i) = i"
| "actor (FollowerTimeout i) = i"
| "actor (StartElection i) = i"
| "actor (DeliverVoteRequest i j args) = j"
| "actor (ReceiveVoteReply i t j r) = i"
| "actor (CandidateTimeout i) = i"
| "actor (LeaderTick i) = i"
| "actor (SendAppend i j) = i"
| "actor (DeliverAppend i j args) = j"
| "actor (ReceiveAppendReply i j args r) = i"
| "actor (ClientSubmit i cmd) = i"
| "actor (ApplyEntry i) = i"

text \<open>\<open>exec e c\<close>: the state after event \<open>e\<close>; \<open>None\<close> if it is not enabled.\<close>

fun exec :: "event \<Rightarrow> cluster \<Rightarrow> cluster option" where
  "exec (RunLoop i) c = runLoop i c"
| "exec (FollowerHeartbeat i) c = followerHeartbeat i c"
| "exec (FollowerVote i) c = followerVote i c"
| "exec (FollowerTimeout i) c = followerExpires i c"
| "exec (StartElection i) c = beginElection i c"
| "exec (DeliverVoteRequest i j args) c = deliverVoteRequest i j args c"
| "exec (ReceiveVoteReply i t j r) c = receiveVoteReply i t j r c"
| "exec (CandidateTimeout i) c = candidateExpires i c"
| "exec (LeaderTick i) c = leaderTick i c"
| "exec (SendAppend i j) c = sendAppend i j c"
| "exec (DeliverAppend i j args) c = deliverAppend i j args c"
| "exec (ReceiveAppendReply i j args r) c = receiveAppendReply i j args r c"
| "exec (ClientSubmit i cmd) c = clientSubmit i cmd c"
| "exec (ApplyEntry i) c = applyEntry i c"

fun run :: "event list \<Rightarrow> cluster \<Rightarrow> cluster option" where
  "run [] c = Some c"
| "run (e # es) c = (case exec e c of None \<Rightarrow> None | Some c' \<Rightarrow> run es c')"

inductive reachable :: "string list \<Rightarrow> cluster \<Rightarrow> bool" for ps :: "string list" where
  reachable_init: "reachable ps (initCluster ps)"
| reachable_step: "reachable ps c \<Longrightarrow> is_node ps (actor e) \<Longrightarrow> exec e c = Some c' \<Longrightarrow> reachable ps c'"

lemma run_reachable:
  "reachable ps c \<Longrightarrow> \<forall>e \<in> set es. is_node ps (actor e) \<Longrightarrow> run es c = Some c' \<Longrightarrow> reachable ps c'"
  by (induction es arbitrary: c) (auto split: option.splits intro: reachable_step)

end
