(* ===== verification/RaftHistory.thy ===== *)
theory RaftHistory
  imports RaftCluster
begin

text \<open>
  History variables of a run, and the invariant of the cluster stated over them. The history is not
  part of the model: it is computed along a run from the events, and every run has one. It records the
  votes granted, the log a candidate had when its election began, who was elected, the log of each
  term's leader, and which prefixes of that log each node has acknowledged.
\<close>

section \<open>History\<close>

record history =
  h_grants :: "(int \<times> int \<times> int) set"  \<comment> \<open>term, voter, candidate; a candidate votes for itself\<close>
  h_clog :: "int \<Rightarrow> int \<Rightarrow> LogEntry list"  \<comment> \<open>log of a candidate at the start of an election\<close>
  h_leaders :: "(int \<times> int) set"  \<comment> \<open>term, leader\<close>
  h_tlog :: "int \<Rightarrow> LogEntry list"  \<comment> \<open>log of the leader of a term\<close>
  h_acks :: "(int \<times> int \<times> nat) set"  \<comment> \<open>term, node, index\<close>

definition initHistory :: history where
  "initHistory = \<lparr>h_grants = {}, h_clog = (\<lambda>_ _. []), h_leaders = {}, h_tlog = (\<lambda>_. [dummyEntry]),
                  h_acks = {}\<rparr>"

definition ack :: "int \<Rightarrow> int \<Rightarrow> nat \<Rightarrow> history \<Rightarrow> history" where
  "ack t v m h = h\<lparr>h_acks := h_acks h \<union> {(t, v, i) | i. i \<le> m}\<rparr>"

fun hist :: "event \<Rightarrow> cluster \<Rightarrow> history \<Rightarrow> history" where
  "hist (StartElection i) c h =
     (let n = nodes c i; t = currentTerm n + 1
      in h\<lparr>h_grants := insert (t, i, i) (h_grants h),
           h_clog := (h_clog h)(t := (h_clog h t)(i := nlog n))\<rparr>)"
| "hist (DeliverVoteRequest i j args) c h =
     (case HandleRequestVote args (nodes c j) of
        Some (n, r) \<Rightarrow>
          if rvr_VoteGranted r then h\<lparr>h_grants := insert (rv_Term args, j, i) (h_grants h)\<rparr> else h
      | None \<Rightarrow> h)"
| "hist (ReceiveVoteReply i t j r) c h =
     (case pcs c i of
        InCandidate t' k \<Rightarrow>
          (case candidateOnReply t' k r (nodes c i) of
             (n, Elected) \<Rightarrow>
               ack t' i (length (nlog n) - 1)
                 (h\<lparr>h_leaders := insert (t', i) (h_leaders h), h_tlog := (h_tlog h)(t' := nlog n)\<rparr>)
           | _ \<Rightarrow> h)
      | _ \<Rightarrow> h)"
| "hist (DeliverAppend i j args) c h =
     (case HandleAppendEntries args (nodes c j) of
        Some (n, r) \<Rightarrow>
          if aer_Success r then ack (ae_Term args) j (nat (ae_PrevLogIndex args + len (ae_Entries args))) h
          else h
      | None \<Rightarrow> h)"
| "hist (ClientSubmit i cmd) c h =
     (let n = nodes c i; n' = fst (Submit cmd n)
      in if state n = Leader
         then ack (currentTerm n) i (length (nlog n)) (h\<lparr>h_tlog := (h_tlog h)(currentTerm n := nlog n')\<rparr>)
         else h)"
| "hist e c h = h"

inductive hreach :: "string list \<Rightarrow> cluster \<Rightarrow> history \<Rightarrow> bool" for ps :: "string list" where
  hreach_init: "hreach ps (initCluster ps) initHistory"
| hreach_step: "hreach ps c h \<Longrightarrow> is_node ps (actor e) \<Longrightarrow> exec e c = Some c' \<Longrightarrow> hreach ps c' (hist e c h)"

lemma reachable_hreach: "reachable ps c \<Longrightarrow> \<exists>h. hreach ps c h"
proof (induction rule: reachable.induct)
  case reachable_init
  show ?case using hreach_init by blast
next
  case (reachable_step c e c')
  then show ?case using hreach_step by blast
qed

section \<open>Logs\<close>

text \<open>\<open>agree i xs ys\<close>: both lists have an element \<open>i\<close> and are the same up to and including it.\<close>

definition agree :: "nat \<Rightarrow> 'a list \<Rightarrow> 'a list \<Rightarrow> bool" where
  "agree i xs ys \<longleftrightarrow> i < length xs \<and> i < length ys \<and> (\<forall>j \<le> i. xs ! j = ys ! j)"

lemma agree_length: "agree i xs ys \<Longrightarrow> i < length xs \<and> i < length ys"
  by (simp add: agree_def)

lemma agree_sym: "agree i xs ys \<Longrightarrow> agree i ys xs"
  by (simp add: agree_def)

lemma agree_trans: "agree i xs ys \<Longrightarrow> agree i ys zs \<Longrightarrow> agree i xs zs"
  by (simp add: agree_def)

lemma agree_le: "agree i xs ys \<Longrightarrow> j \<le> i \<Longrightarrow> agree j xs ys"
  by (simp add: agree_def)

lemma agree_nth: "agree i xs ys \<Longrightarrow> j \<le> i \<Longrightarrow> xs ! j = ys ! j"
  by (simp add: agree_def)

lemma agree_refl: "i < length xs \<Longrightarrow> agree i xs xs"
  by (simp add: agree_def)

lemma agree_append [simp]: "i < length xs \<Longrightarrow> agree i xs (xs @ ys)" "i < length xs \<Longrightarrow> agree i (xs @ ys) xs"
  by (simp_all add: agree_def nth_append)

lemma agree_take:
  assumes "i < m" "i < length xs"
  shows "agree i (take m xs) xs"
proof -
  have "take m xs ! j = xs ! j" if "j \<le> i" for j
    using that assms(1) by (intro nth_take) linarith
  with assms show ?thesis by (auto simp: agree_def)
qed

definition elected :: "history \<Rightarrow> int \<Rightarrow> bool" where
  "elected h t \<longleftrightarrow> t = 0 \<or> (\<exists>b. (t, b) \<in> h_leaders h)"

text \<open>
  A log is well formed when every prefix of it that ends in an entry of term \<open>t\<close> is a prefix of the log
  of the leader of \<open>t\<close>; terms never go down along it and entries carry their position.
\<close>

definition wf_log :: "history \<Rightarrow> LogEntry list \<Rightarrow> bool" where
  "wf_log h l \<longleftrightarrow> l \<noteq> [] \<and> le_Term (l ! 0) = 0
     \<and> (\<forall>i < length l. elected h (le_Term (l ! i)) \<and> agree i l (h_tlog h (le_Term (l ! i)))
          \<and> le_Index (l ! i) = int i)
     \<and> (\<forall>i j. i \<le> j \<longrightarrow> j < length l \<longrightarrow> le_Term (l ! i) \<le> le_Term (l ! j))"

text \<open>Log Matching: equal terms at an index make the prefixes equal.\<close>

lemma wf_log_agree: "wf_log h l \<Longrightarrow> i < length l \<Longrightarrow> agree i l (h_tlog h (le_Term (l ! i)))"
  by (simp add: wf_log_def)

lemma log_matching:
  assumes "wf_log h l" "wf_log h m" "i < length l" "i < length m" "le_Term (l ! i) = le_Term (m ! i)"
  shows "agree i l m"
proof (rule agree_trans)
  show "agree i l (h_tlog h (le_Term (l ! i)))" using assms(1,3) by (rule wf_log_agree)
  show "agree i (h_tlog h (le_Term (l ! i))) m"
    unfolding assms(5) using assms(2,4) by (rule wf_log_agree [THEN agree_sym])
qed

lemma wf_log_terms: "wf_log h l \<Longrightarrow> i \<le> j \<Longrightarrow> j < length l \<Longrightarrow> le_Term (l ! i) \<le> le_Term (l ! j)"
  by (simp add: wf_log_def)

lemma wf_log_take: "wf_log h l \<Longrightarrow> 0 < m \<Longrightarrow> wf_log h (take m l)"
  unfolding wf_log_def by (auto simp: agree_def)

section \<open>How a history grows\<close>

definition hist_le :: "history \<Rightarrow> history \<Rightarrow> bool" where
  "hist_le h h' \<longleftrightarrow> h_grants h \<subseteq> h_grants h' \<and> h_leaders h \<subseteq> h_leaders h' \<and> h_acks h \<subseteq> h_acks h'
     \<and> (\<forall>t b. (t, b, b) \<in> h_grants h \<longrightarrow> h_clog h' t b = h_clog h t b)
     \<and> (\<forall>t. elected h t \<longrightarrow> (\<exists>ext. h_tlog h' t = h_tlog h t @ ext \<and> (\<forall>e \<in> set ext. le_Term e = t)))"

lemma elected_mono: "hist_le h h' \<Longrightarrow> elected h t \<Longrightarrow> elected h' t"
  by (auto simp: hist_le_def elected_def)

lemma tlog_mono:
  "hist_le h h' \<Longrightarrow> elected h t \<Longrightarrow> i < length (h_tlog h t) \<Longrightarrow> agree i (h_tlog h t) (h_tlog h' t)"
  by (auto simp: hist_le_def)

lemma wf_log_mono:
  assumes "hist_le h h'" "wf_log h l"
  shows "wf_log h' l"
proof -
  have "elected h' (le_Term (l ! i)) \<and> agree i l (h_tlog h' (le_Term (l ! i)))" if "i < length l" for i
  proof -
    have e: "elected h (le_Term (l ! i))" and a: "agree i l (h_tlog h (le_Term (l ! i)))"
      using assms(2) that by (auto simp: wf_log_def)
    from assms(1) e agree_length [OF a] have "agree i (h_tlog h (le_Term (l ! i))) (h_tlog h' (le_Term (l ! i)))"
      by (intro tlog_mono) auto
    with a show ?thesis using elected_mono [OF assms(1) e] by (blast intro: agree_trans)
  qed
  with assms(2) show ?thesis by (simp add: wf_log_def)
qed

end
