(* ===== verification/RaftInv.thy ===== *)
theory RaftInv
  imports RaftHistory
begin

text \<open>
  The invariant of the cluster, in parts, and the lemmas about how the parts behave when the history
  grows and when a step touches only fields they do not mention.
\<close>

section \<open>The parts of the invariant\<close>

definition node_ok :: "string list \<Rightarrow> history \<Rightarrow> int \<Rightarrow> Node \<Rightarrow> bool" where
  "node_ok ps h i n \<longleftrightarrow> node_id n = i \<and> peers n = ps \<and> 0 \<le> currentTerm n \<and> wf_log h (nlog n)
     \<and> (\<forall>e \<in> set (nlog n). le_Term e \<le> currentTerm n)
     \<and> (state n = Leader \<longrightarrow> (currentTerm n, i) \<in> h_leaders h \<and> nlog n = h_tlog h (currentTerm n))"

definition inv_nodes :: "string list \<Rightarrow> cluster \<Rightarrow> history \<Rightarrow> bool" where
  "inv_nodes ps c h \<longleftrightarrow> (\<forall>i. node_ok ps h i (nodes c i))"

definition inv_grants :: "string list \<Rightarrow> cluster \<Rightarrow> history \<Rightarrow> bool" where
  "inv_grants ps c h \<longleftrightarrow> (\<forall>t v b. (t, v, b) \<in> h_grants h \<longrightarrow>
     is_node ps v \<and> is_node ps b \<and> 1 \<le> t \<and> t \<le> currentTerm (nodes c v) \<and> (t, b, b) \<in> h_grants h
     \<and> wf_log h (h_clog h t b) \<and> (\<forall>e \<in> set (h_clog h t b). le_Term e < t))"

text \<open>
  While a term has no leader, a node that ran for it in that term still votes for itself and has the
  log it ran with; two votes of one node in a term are only possible once the term has a leader.
\<close>

definition inv_self :: "cluster \<Rightarrow> history \<Rightarrow> bool" where
  "inv_self c h \<longleftrightarrow> (\<forall>t b. (t, b, b) \<in> h_grants h \<longrightarrow> currentTerm (nodes c b) = t \<longrightarrow> \<not> elected h t \<longrightarrow>
     votedFor (nodes c b) = b \<and> nlog (nodes c b) = h_clog h t b)"

definition inv_split :: "history \<Rightarrow> bool" where
  "inv_split h \<longleftrightarrow> (\<forall>t v b. (t, v, v) \<in> h_grants h \<longrightarrow> (t, v, b) \<in> h_grants h \<longrightarrow> v \<noteq> b \<longrightarrow> elected h t)"

definition counted :: "cluster \<Rightarrow> history \<Rightarrow> int \<Rightarrow> int \<Rightarrow> int set" where
  "counted c h t b = {v. (t, v, b) \<in> h_grants h \<and> (\<forall>r. (b, t, v, r) \<notin> set (rvReps c))}"

definition inv_pc :: "cluster \<Rightarrow> history \<Rightarrow> bool" where
  "inv_pc c h \<longleftrightarrow> (\<forall>b t k. pcs c b = InCandidate t k \<longrightarrow>
     (t, b, b) \<in> h_grants h \<and> (\<forall>t'. (t', b, b) \<in> h_grants h \<longrightarrow> t' \<le> t) \<and> (t, b) \<notin> h_leaders h
     \<and> k \<le> int (card (counted c h t b)))"

text \<open>A leader is in no branch of the loop but its own, or on its way there.\<close>

definition inv_role :: "cluster \<Rightarrow> bool" where
  "inv_role c \<longleftrightarrow> (\<forall>b. state (nodes c b) = Leader \<longrightarrow> pcs c b = AtLoop \<or> pcs c b = InLeader)"

definition rv_msg :: "history \<Rightarrow> int \<Rightarrow> RequestVoteArgs \<Rightarrow> bool" where
  "rv_msg h b a \<longleftrightarrow> (rv_Term a, b, b) \<in> h_grants h \<and> rv_CandidateId a = b
     \<and> (let l = h_clog h (rv_Term a) b
        in rv_LastLogIndex a = len l - 1 \<and> rv_LastLogTerm a = le_Term (l ! (length l - 1)))"

definition inv_rv :: "string list \<Rightarrow> cluster \<Rightarrow> history \<Rightarrow> bool" where
  "inv_rv ps c h \<longleftrightarrow> distinct (rvReqs c) \<and> distinct (rvReps c)
     \<and> (\<forall>b v a. (b, v, a) \<in> set (rvReqs c) \<longrightarrow> b \<noteq> v \<and> is_node ps v \<and> rv_msg h b a
          \<and> (rv_Term a, v, b) \<notin> h_grants h \<and> (\<forall>r. (b, rv_Term a, v, r) \<notin> set (rvReps c)))
     \<and> (\<forall>b t v r. (b, t, v, r) \<in> set (rvReps c) \<longrightarrow> b \<noteq> v \<and> (t, b, b) \<in> h_grants h
          \<and> (rvr_VoteGranted r \<longrightarrow> (t, v, b) \<in> h_grants h)
          \<and> (\<forall>r'. (b, t, v, r') \<in> set (rvReps c) \<longrightarrow> r' = r))"

text \<open>A leader was elected by every node, and no other node ran in its term.\<close>

definition inv_leaders :: "string list \<Rightarrow> history \<Rightarrow> bool" where
  "inv_leaders ps h \<longleftrightarrow> (\<forall>t b. (t, b) \<in> h_leaders h \<longrightarrow> is_node ps b \<and>
     (\<forall>v. is_node ps v \<longrightarrow> (t, v, b) \<in> h_grants h \<and> (v \<noteq> b \<longrightarrow> (t, v, v) \<notin> h_grants h)))"

definition inv_tlog :: "history \<Rightarrow> bool" where
  "inv_tlog h \<longleftrightarrow> (\<forall>t. elected h t \<longrightarrow> wf_log h (h_tlog h t) \<and> (\<forall>e \<in> set (h_tlog h t). le_Term e \<le> t))"

definition quorum :: "string list \<Rightarrow> history \<Rightarrow> int \<Rightarrow> nat \<Rightarrow> bool" where
  "quorum ps h t i \<longleftrightarrow> length ps div 2 < card {v. is_node ps v \<and> (t, v, i) \<in> h_acks h}"

text \<open>The entry \<open>i\<close> of term \<open>t\<close>'s leader log is stored by a majority and of term \<open>t\<close>.\<close>

definition chosen :: "string list \<Rightarrow> history \<Rightarrow> int \<Rightarrow> nat \<Rightarrow> bool" where
  "chosen ps h t i \<longleftrightarrow> elected h t \<and> i < length (h_tlog h t) \<and> le_Term (h_tlog h t ! i) = t \<and> quorum ps h t i"

text \<open>The prefix of \<open>l\<close> up to \<open>x\<close> is below a chosen entry of a term up to \<open>t\<close>.\<close>

definition committed :: "string list \<Rightarrow> history \<Rightarrow> int \<Rightarrow> int \<Rightarrow> LogEntry list \<Rightarrow> bool" where
  "committed ps h t x l \<longleftrightarrow> 0 \<le> x \<and> x < len l \<and>
     (x = 0 \<or> (\<exists>t0 i0. t0 \<le> t \<and> chosen ps h t0 i0 \<and> nat x \<le> i0 \<and> agree (nat x) (h_tlog h t0) l))"

definition ae_msg :: "string list \<Rightarrow> history \<Rightarrow> int \<Rightarrow> AppendEntriesArgs \<Rightarrow> bool" where
  "ae_msg ps h b a \<longleftrightarrow> (ae_Term a, b) \<in> h_leaders h \<and>
     (\<exists>p. ae_PrevLogIndex a = int p \<and> p < length (h_tlog h (ae_Term a))
        \<and> ae_PrevLogTerm a = le_Term (h_tlog h (ae_Term a) ! p)
        \<and> take (length (ae_Entries a)) (drop (Suc p) (h_tlog h (ae_Term a))) = ae_Entries a
        \<and> ae_LeaderCommit a \<le> int (p + length (ae_Entries a))
        \<and> committed ps h (ae_Term a) (ae_LeaderCommit a) (h_tlog h (ae_Term a)))"

definition inv_ae :: "string list \<Rightarrow> cluster \<Rightarrow> history \<Rightarrow> bool" where
  "inv_ae ps c h \<longleftrightarrow>
     (\<forall>b v a. (b, v, a) \<in> set (aeReqs c) \<longrightarrow> b \<noteq> v \<and> is_node ps v \<and> ae_msg ps h b a)
     \<and> (\<forall>b v a r. (b, v, a, r) \<in> set (aeReps c) \<longrightarrow> b \<noteq> v \<and> is_node ps v \<and> ae_msg ps h b a
          \<and> (aer_Success r \<longrightarrow> (ae_Term a, v, nat (ae_PrevLogIndex a + len (ae_Entries a))) \<in> h_acks h))"

definition inv_acks :: "string list \<Rightarrow> cluster \<Rightarrow> history \<Rightarrow> bool" where
  "inv_acks ps c h \<longleftrightarrow>
     (\<forall>t v i. (t, v, i) \<in> h_acks h \<longrightarrow> is_node ps v \<and> 1 \<le> t \<and> elected h t \<and> t \<le> currentTerm (nodes c v)
        \<and> i < length (h_tlog h t) \<and> (\<forall>j \<le> i. (t, v, j) \<in> h_acks h))
     \<and> (\<forall>t b. (t, b) \<in> h_leaders h \<longrightarrow> (t, b, length (h_tlog h t) - 1) \<in> h_acks h)"

definition inv_match :: "string list \<Rightarrow> cluster \<Rightarrow> history \<Rightarrow> bool" where
  "inv_match ps c h \<longleftrightarrow> (\<forall>b j. state (nodes c b) = Leader \<longrightarrow> is_node ps j \<longrightarrow> j \<noteq> b \<longrightarrow>
     0 < matchIndex (nodes c b) j \<longrightarrow>
     (currentTerm (nodes c b), j, nat (matchIndex (nodes c b) j)) \<in> h_acks h)"

text \<open>Some later leader's log differs from that of \<open>t\<close> at or before \<open>i\<close>.\<close>

definition overruled :: "history \<Rightarrow> int \<Rightarrow> nat \<Rightarrow> bool" where
  "overruled h t i \<longleftrightarrow> (\<exists>t' > t. elected h t' \<and> \<not> agree i (h_tlog h t) (h_tlog h t'))"

definition inv_hold :: "cluster \<Rightarrow> history \<Rightarrow> bool" where
  "inv_hold c h \<longleftrightarrow> (\<forall>t v i. (t, v, i) \<in> h_acks h \<longrightarrow>
     agree i (h_tlog h t) (nlog (nodes c v)) \<or> overruled h t i)"

definition inv_vote :: "history \<Rightarrow> bool" where
  "inv_vote h \<longleftrightarrow> (\<forall>t' v b t i. (t', v, b) \<in> h_grants h \<longrightarrow> (t, v, i) \<in> h_acks h \<longrightarrow> t < t' \<longrightarrow>
     le_Term (h_tlog h t ! i) = t \<longrightarrow> agree i (h_tlog h t) (h_clog h t' b) \<or> overruled h t i)"

text \<open>Leader Completeness.\<close>

definition inv_complete :: "string list \<Rightarrow> history \<Rightarrow> bool" where
  "inv_complete ps h \<longleftrightarrow> (\<forall>t t' i. chosen ps h t i \<longrightarrow> elected h t' \<longrightarrow> t < t' \<longrightarrow>
     agree i (h_tlog h t) (h_tlog h t'))"

definition msg_of :: "LogEntry \<Rightarrow> ApplyMsg" where
  "msg_of e = \<lparr>am_Index = le_Index e, am_Term = le_Term e, am_Command = le_Command e\<rparr>"

definition commit_ok :: "string list \<Rightarrow> history \<Rightarrow> Node \<Rightarrow> ApplyMsg list \<Rightarrow> bool" where
  "commit_ok ps h n msgs \<longleftrightarrow> committed ps h (currentTerm n) (commitIndex n) (nlog n)
     \<and> 0 \<le> lastApplied n \<and> lastApplied n \<le> commitIndex n
     \<and> msgs = map msg_of (take (nat (lastApplied n)) (tl (nlog n)))"

definition inv_commit :: "string list \<Rightarrow> cluster \<Rightarrow> history \<Rightarrow> bool" where
  "inv_commit ps c h \<longleftrightarrow> (\<forall>i. commit_ok ps h (nodes c i) (applied c i))"

definition inv :: "string list \<Rightarrow> cluster \<Rightarrow> history \<Rightarrow> bool" where
  "inv ps c h \<longleftrightarrow> inv_nodes ps c h \<and> inv_grants ps c h \<and> inv_self c h \<and> inv_split h \<and> inv_pc c h \<and> inv_role c
     \<and> inv_rv ps c h \<and> inv_leaders ps h \<and> inv_tlog h \<and> inv_ae ps c h \<and> inv_acks ps c h \<and> inv_match ps c h
     \<and> inv_hold c h \<and> inv_vote h \<and> inv_complete ps h \<and> inv_commit ps c h"

lemmas inv_defs = inv_nodes_def inv_grants_def inv_self_def inv_split_def inv_pc_def inv_role_def inv_rv_def
  inv_leaders_def inv_tlog_def inv_ae_def inv_acks_def inv_match_def inv_hold_def inv_vote_def
  inv_complete_def inv_commit_def node_ok_def commit_ok_def

section \<open>The start\<close>

lemma wf_log_dummy: "wf_log initHistory [dummyEntry]"
  by (simp add: wf_log_def elected_def initHistory_def dummyEntry_def agree_def)

lemma inv_init: "inv ps (initCluster ps) initHistory"
proof -
  have "elected initHistory t \<longleftrightarrow> t = 0" for t
    by (simp add: elected_def initHistory_def)
  moreover have "h_tlog initHistory t = [dummyEntry]" for t
    by (simp add: initHistory_def)
  ultimately show ?thesis
    using wf_log_dummy
    by (auto simp: inv_def inv_defs initCluster_def NewNode_def committed_def len_def dummyEntry_def)
      (auto simp: initHistory_def chosen_def quorum_def)
qed

end
