(* ===== verification/RaftSteps.thy ===== *)
theory RaftSteps
  imports RaftInv
begin

text \<open>
  Preservation of the safety invariant of RaftInv by the steps of the cluster: the two primitive
  lemmas for a change of one node and of one program counter, then a lemma per event.
\<close>


section \<open>Steps that leave the history alone\<close>

lemma set_node_simps [simp]:
  "nodes (set_node v n c) = (nodes c)(v := n)" "pcs (set_node v n c) = pcs c"
  "rvReqs (set_node v n c) = rvReqs c" "rvReps (set_node v n c) = rvReps c"
  "aeReqs (set_node v n c) = aeReqs c" "aeReps (set_node v n c) = aeReps c"
  "applied (set_node v n c) = applied c"
  by (simp_all add: set_node_def)

lemma set_pc_simps [simp]:
  "nodes (set_pc v p c) = nodes c" "pcs (set_pc v p c) = (pcs c)(v := p)"
  "rvReqs (set_pc v p c) = rvReqs c" "rvReps (set_pc v p c) = rvReps c"
  "aeReqs (set_pc v p c) = aeReqs c" "aeReps (set_pc v p c) = aeReps c"
  "applied (set_pc v p c) = applied c"
  by (simp_all add: set_pc_def)

lemma counted_cong: "rvReps c' = rvReps c \<Longrightarrow> counted c' h t b = counted c h t b"
  by (simp add: counted_def)

lemma committed_term_mono: "committed ps h t x l \<Longrightarrow> t \<le> t' \<Longrightarrow> committed ps h t' x l"
  unfolding committed_def by (meson order_trans)

text \<open>A step of one node that keeps its log.\<close>

lemma inv_set_node:
  assumes I: "inv ps c h"
    and same: "node_id n = v" "peers n = ps" "nlog n = nlog (nodes c v)" "lastApplied n = lastApplied (nodes c v)"
    and T: "currentTerm (nodes c v) \<le> currentTerm n"
    and lead: "state n = Leader \<Longrightarrow> state (nodes c v) = Leader \<and> currentTerm n = currentTerm (nodes c v)"
    and mi: "\<And>j. state n = Leader \<Longrightarrow> is_node ps j \<Longrightarrow> j \<noteq> v \<Longrightarrow> 0 < matchIndex n j \<Longrightarrow>
              (currentTerm n, j, nat (matchIndex n j)) \<in> h_acks h"
    and vote: "currentTerm n = currentTerm (nodes c v) \<Longrightarrow> votedFor n = votedFor (nodes c v) \<or>
              elected h (currentTerm n) \<or> (currentTerm n, v, v) \<notin> h_grants h"
    and com: "committed ps h (currentTerm n) (commitIndex n) (nlog n)" "commitIndex (nodes c v) \<le> commitIndex n"
  shows "inv ps (set_node v n c) h"
proof -
  from I have nd: "inv_nodes ps c h" and gr: "inv_grants ps c h" and se: "inv_self c h"
    and pc: "inv_pc c h" and rv: "inv_rv ps c h" and ae: "inv_ae ps c h" and ac: "inv_acks ps c h"
    and ma: "inv_match ps c h" and ho: "inv_hold c h" and co: "inv_commit ps c h"
    by (simp_all add: inv_def)
  have "inv_nodes ps (set_node v n c) h"
    using nd same T lead unfolding inv_nodes_def by (auto simp: node_ok_def dest: order_trans)
  moreover have "inv_grants ps (set_node v n c) h"
    using gr T by (fastforce simp: inv_grants_def)
  moreover have "inv_self (set_node v n c) h"
    unfolding inv_self_def
  proof (intro allI impI)
    fix t b
    assume g: "(t, b, b) \<in> h_grants h" and t: "currentTerm (nodes (set_node v n c) b) = t" and e: "\<not> elected h t"
    show "votedFor (nodes (set_node v n c) b) = b \<and> nlog (nodes (set_node v n c) b) = h_clog h t b"
    proof (cases "b = v")
      case True
      then have "currentTerm n = currentTerm (nodes c v)"
        using g t gr T by (fastforce simp: inv_grants_def)
      with True g t e se vote same show ?thesis by (auto simp: inv_self_def)
    next
      case False
      with g t e se show ?thesis by (auto simp: inv_self_def)
    qed
  qed
  moreover have "inv_pc (set_node v n c) h"
    using pc by (simp add: inv_pc_def counted_def)
  moreover have "inv_role (set_node v n c)"
    using I lead by (auto simp: inv_def inv_role_def)
  moreover have "inv_rv ps (set_node v n c) h"
    using rv by (simp add: inv_rv_def)
  moreover have "inv_ae ps (set_node v n c) h"
    using ae by (simp add: inv_ae_def)
  moreover have "inv_acks ps (set_node v n c) h"
    using ac T by (fastforce simp: inv_acks_def)
  moreover have "inv_match ps (set_node v n c) h"
    using ma mi by (auto simp: inv_match_def)
  moreover have "inv_hold (set_node v n c) h"
    using ho same by (auto simp: inv_hold_def)
  moreover have "inv_commit ps (set_node v n c) h"
    using co same com unfolding inv_commit_def by (auto simp: commit_ok_def intro: order_trans)
  ultimately show ?thesis using I by (simp add: inv_def)
qed

lemma inv_set_pc:
  assumes "inv ps c h" "\<And>t k. p \<noteq> InCandidate t k" "state (nodes c v) = Leader \<Longrightarrow> p = AtLoop \<or> p = InLeader"
  shows "inv ps (set_pc v p c) h"
proof -
  have "inv_role (set_pc v p c)"
    using assms by (auto simp: inv_def inv_role_def)
  moreover   have "inv_pc (set_pc v p c) h"
    using assms by (auto simp: inv_def inv_pc_def counted_def)
  ultimately show ?thesis
    using assms(1) unfolding inv_def
    by (simp add: inv_nodes_def inv_grants_def inv_self_def inv_rv_def inv_ae_def inv_acks_def
        inv_match_def inv_hold_def inv_commit_def)
qed

lemma inv_node:
  assumes "inv ps c h"
  shows "node_ok ps h v (nodes c v)" "commit_ok ps h (nodes c v) (applied c v)"
  using assms by (simp_all add: inv_def inv_nodes_def inv_commit_def)

lemma inv_set_node_quiet:
  assumes I: "inv ps c h"
    and same: "node_id n = node_id (nodes c v)" "peers n = peers (nodes c v)" "nlog n = nlog (nodes c v)"
      "lastApplied n = lastApplied (nodes c v)" "commitIndex n = commitIndex (nodes c v)"
    and T: "currentTerm (nodes c v) \<le> currentTerm n"
    and lead: "state n = Leader \<Longrightarrow> state (nodes c v) = Leader \<and> currentTerm n = currentTerm (nodes c v)
                 \<and> matchIndex n = matchIndex (nodes c v)"
    and vote: "currentTerm n = currentTerm (nodes c v) \<Longrightarrow> votedFor n = votedFor (nodes c v) \<or>
              elected h (currentTerm n) \<or> (currentTerm n, v, v) \<notin> h_grants h"
  shows "inv ps (set_node v n c) h"
proof (rule inv_set_node [OF I])
  note ok = inv_node [OF I, of v]
  show "node_id n = v" "peers n = ps" "nlog n = nlog (nodes c v)" "lastApplied n = lastApplied (nodes c v)"
    using ok same by (simp_all add: node_ok_def)
  show "committed ps h (currentTerm n) (commitIndex n) (nlog n)"
    using ok same T by (auto simp: commit_ok_def intro: committed_term_mono)
  show "(currentTerm n, j, nat (matchIndex n j)) \<in> h_acks h"
    if "state n = Leader" "is_node ps j" "j \<noteq> v" "0 < matchIndex n j" for j
    using I lead that by (auto simp: inv_def inv_match_def)
qed (use same T lead vote in auto)

lemma inv_stepDown:
  assumes "inv ps c h"
    and "t > currentTerm (nodes c v) \<or> elected h (currentTerm (nodes c v))
         \<or> (currentTerm (nodes c v), v, v) \<notin> h_grants h"
  shows "inv ps (set_node v (becomeFollowerLocked t (nodes c v)) c) h"
  by (rule inv_set_node_quiet [OF assms(1)]) (use assms(2) in \<open>auto simp: becomeFollowerLocked_def\<close>)

lemma signalAllReplications_same [simp]:
  "node_id (signalAllReplications n) = node_id n" "peers (signalAllReplications n) = peers n"
  "nlog (signalAllReplications n) = nlog n" "lastApplied (signalAllReplications n) = lastApplied n"
  "commitIndex (signalAllReplications n) = commitIndex n" "currentTerm (signalAllReplications n) = currentTerm n"
  "state (signalAllReplications n) = state n" "votedFor (signalAllReplications n) = votedFor n"
  "matchIndex (signalAllReplications n) = matchIndex n" "nextIndex (signalAllReplications n) = nextIndex n"
  by (simp_all add: signalAllReplications_def)

lemma inv_runLoop:
  assumes "inv ps c h" "runLoop i c = Some c'"
  shows "inv ps c' h"
  using assms
  by (auto simp: runLoop_def split: if_splits NodeState.splits intro!: inv_set_pc inv_set_node_quiet)

lemma inv_followerHeartbeat:
  assumes "inv ps c h" "followerHeartbeat i c = Some c'"
  shows "inv ps c' h"
  using assms
  by (auto simp: followerHeartbeat_def Let_def split: if_splits intro!: inv_set_pc inv_set_node_quiet)

lemma inv_followerVote:
  assumes "inv ps c h" "followerVote i c = Some c'"
  shows "inv ps c' h"
  using assms
  by (auto simp: followerVote_def Let_def split: if_splits intro!: inv_set_pc inv_set_node_quiet)

lemma inv_followerExpires:
  assumes "inv ps c h" "followerExpires i c = Some c'"
  shows "inv ps c' h"
  using assms
  by (auto simp: followerExpires_def followerTimeout_def split: if_splits intro!: inv_set_pc inv_set_node_quiet)

lemma inv_candidateExpires:
  assumes "inv ps c h" "candidateExpires i c = Some c'"
  shows "inv ps c' h"
  using assms by (auto simp: candidateExpires_def split: runPC.splits intro!: inv_set_pc)

lemma inv_leaderTick:
  assumes "inv ps c h" "leaderTick i c = Some c'"
  shows "inv ps c' h"
  using assms
  by (auto simp: leaderTick_def split: if_splits intro!: inv_set_pc inv_set_node_quiet)

end
