(* ===== verification/RaftLeaderSteps.thy ===== *)
theory RaftLeaderSteps
  imports RaftSteps
begin

text \<open>
  Preservation of the safety invariant by the steps that need no new history: sending and answering
  \<open>AppendEntries\<close>, moving the commit index, and handing an entry to the state machine.
\<close>


section \<open>Steps of the leader\<close>

lemma inv_ae_cong:
  assumes "inv ps c h" "nodes c' = nodes c" "pcs c' = pcs c" "rvReqs c' = rvReqs c" "rvReps c' = rvReps c"
    "applied c' = applied c" "inv_ae ps c' h"
  shows "inv ps c' h"
proof -
  have "inv_rv ps c' h" using assms by (simp add: inv_def inv_rv_def)
  moreover have "inv_pc c' h" using assms by (simp add: inv_def inv_pc_def counted_def)
  ultimately show ?thesis
    using assms
    by (simp add: inv_def inv_nodes_def inv_grants_def inv_self_def inv_role_def inv_acks_def
        inv_match_def inv_hold_def inv_commit_def)
qed

lemma otherPeers_iff: "j \<in> set (otherPeers n) \<longleftrightarrow> is_node (peers n) j \<and> j \<noteq> node_id n"
  unfolding otherPeers_def is_node_def len_def
  by (auto simp: image_iff intro!: bexI [of _ "nat j"])

lemma at_Some: "at l i = Some x \<longleftrightarrow> 0 \<le> i \<and> i < len l \<and> x = l ! nat i"
  by (auto simp: at_def)

lemma replicateArgs_ae_msg:
  assumes I: "inv ps c h" and a: "replicateArgs j (nodes c i) = Some a"
  shows "ae_msg ps h i a"
proof -
  let ?n = "nodes c i"
  from a have s: "state ?n = Leader" and p: "0 \<le> nextIndex ?n j - 1" "nextIndex ?n j - 1 < len (nlog ?n)"
    and a: "a = \<lparr>ae_Term = currentTerm ?n, ae_LeaderId = node_id ?n, ae_PrevLogIndex = nextIndex ?n j - 1,
                ae_PrevLogTerm = le_Term (nlog ?n ! nat (nextIndex ?n j - 1)),
                ae_Entries = (if nextIndex ?n j < len (nlog ?n) then drop (nat (nextIndex ?n j)) (nlog ?n) else []),
                ae_LeaderCommit = commitIndex ?n\<rparr>"
    by (auto simp: replicateArgs_def at_Some Let_def split: if_splits option.splits)
  from inv_node [OF I, of i] s have L: "(currentTerm ?n, i) \<in> h_leaders h" "nlog ?n = h_tlog h (currentTerm ?n)"
    and C: "committed ps h (currentTerm ?n) (commitIndex ?n) (nlog ?n)"
    by (simp_all add: node_ok_def commit_ok_def)
  define q where "q = nat (nextIndex ?n j - 1)"
  have q: "nextIndex ?n j = int q + 1" using p by (simp add: q_def)
  have "nat (int q + 1) = Suc q" by simp
  then show ?thesis
    using p L C unfolding ae_msg_def a q by (auto simp: len_def committed_def intro!: exI [of _ q])
qed

lemma inv_sendAppend:
  assumes I: "inv ps c h" and i: "is_node ps i" and s: "sendAppend i j c = Some c'"
  shows "inv ps c' h"
proof -
  from s obtain a where j: "j \<in> set (otherPeers (nodes c i))" and a: "replicateArgs j (nodes c i) = Some a"
    and c': "c' = c\<lparr>aeReqs := (i, j, a) # aeReqs c\<rparr>"
    by (auto simp: sendAppend_def split: if_splits option.splits)
  have "is_node ps j" "j \<noteq> i"
    using j inv_node(1) [OF I, of i] by (auto simp: otherPeers_iff node_ok_def)
  moreover have "inv_ae ps c h" using I by (simp add: inv_def)
  ultimately have "inv_ae ps c' h"
    using replicateArgs_ae_msg [OF I a] by (auto simp: inv_ae_def c')
  then show ?thesis by (intro inv_ae_cong [OF I]) (simp_all add: c')
qed

lemma inv_applyEntry:
  assumes I: "inv ps c h" and s: "applyEntry i c = Some c'"
  shows "inv ps c' h"
proof -
  let ?n = "nodes c i"
  from s have la: "lastApplied ?n < commitIndex ?n" and ix: "0 \<le> lastApplied ?n + 1" "lastApplied ?n + 1 < len (nlog ?n)"
    and c': "c' = (set_node i (?n\<lparr>lastApplied := lastApplied ?n + 1\<rparr>) c)
        \<lparr>applied := (applied c)(i := applied c i @ [msg_of (nlog ?n ! nat (lastApplied ?n + 1))])\<rparr>"
    by (auto simp: applyEntry_def applyNext_def at_Some Let_def msg_of_def split: if_splits option.splits)
  have ok: "commit_ok ps h ?n (applied c i)" using inv_node(2) [OF I] .
  define q where "q = nat (lastApplied ?n)"
  have q: "lastApplied ?n = int q" using ok by (simp add: q_def commit_ok_def)
  have "q < length (tl (nlog ?n))" using ix by (simp add: q len_def)
  then have "take (Suc q) (tl (nlog ?n)) = take q (tl (nlog ?n)) @ [nlog ?n ! Suc q]"
    by (simp add: take_Suc_conv_app_nth nth_tl)
  moreover have "nat (1 + int q) = Suc q" "nat (int q + 1) = Suc q" by simp_all
  ultimately have "commit_ok ps h (nodes c' i) (applied c' i)"
    using ok la by (simp add: commit_ok_def c' q)
  then have "inv_commit ps c' h"
    using I by (auto simp: inv_def inv_commit_def c')
  moreover have "inv_nodes ps c' h"
    using I by (auto simp: inv_def inv_nodes_def node_ok_def c')
  moreover have "inv_pc c' h" "inv_rv ps c' h" "inv_ae ps c' h"
    using I by (simp_all add: inv_def inv_pc_def inv_rv_def inv_ae_def counted_def c')
  moreover have "inv_self c' h" "inv_role c'" "inv_match ps c' h" "inv_hold c' h"
    using I by (auto simp: inv_def inv_self_def inv_role_def inv_match_def inv_hold_def c')
  moreover have "inv_grants ps c' h" "inv_acks ps c' h"
    using I by (auto simp: inv_def inv_grants_def inv_acks_def c')
  ultimately show ?thesis using I by (simp add: inv_def)
qed


lemma advanceLoop_Some:
  "advanceLoop N n = Some n' \<Longrightarrow> n' = n \<or>
     (\<exists>M. commitIndex n < M \<and> 0 \<le> M \<and> M < len (nlog n) \<and> le_Term (nlog n ! nat M) = currentTerm n
        \<and> len (peers n) div 2 < replicaCount n M \<and> n' = notifyCommitAdvance (n\<lparr>commitIndex := M\<rparr>))"
proof (induction N n rule: advanceLoop.induct)
  case (1 N n)
  show ?case
  proof (cases "N > commitIndex n")
    case True
    then obtain e where e: "at (nlog n) N = Some e"
      using "1.prems" unfolding advanceLoop.simps [of N n] by (auto split: option.splits)
    show ?thesis
    proof (cases "le_Term e = currentTerm n \<and> len (peers n) div 2 < replicaCount n N")
      case here: True
      then have "n' = notifyCommitAdvance (n\<lparr>commitIndex := N\<rparr>)"
        using "1.prems" True e unfolding advanceLoop.simps [of N n] by simp
      with True here e show ?thesis by (auto simp: at_Some)
    next
      case False
      then have "advanceLoop (N - 1) n = Some n'"
        using "1.prems" True e unfolding advanceLoop.simps [of N n] by (simp split: if_splits)
      with False show ?thesis using "1.IH" [OF True e] by blast
    qed
  next
    case False
    with "1.prems" show ?thesis unfolding advanceLoop.simps [of N n] by simp
  qed
qed

lemma finite_is_node [simp]: "finite {v. is_node ps v \<and> P v}"
  by (rule finite_subset [of _ "{0..len ps}"]) (auto simp: is_node_def)

text \<open>What \<open>tryAdvanceCommitIndexLocked\<close> counts are acknowledgements.\<close>

lemma replicaCount_quorum:
  assumes "peers n = ps" "is_node ps (node_id n)" "(t, node_id n, M) \<in> h_acks h"
    and "\<And>j. is_node ps j \<Longrightarrow> j \<noteq> node_id n \<Longrightarrow> int M \<le> matchIndex n j \<Longrightarrow> (t, j, M) \<in> h_acks h"
    and "len (peers n) div 2 < replicaCount n (int M)"
  shows "quorum ps h t M"
proof -
  let ?F = "filter (\<lambda>i. int i \<noteq> node_id n \<and> matchIndex n (int i) \<ge> int M) [0..<length ps]"
  have "replicaCount n (int M) = int (Suc (length ?F))"
    using assms(1) by (simp add: replicaCount_def)
  also have "length ?F = card (set ?F)"
    by (rule distinct_card [symmetric]) simp
  also have "Suc (card (set ?F)) = card (insert (node_id n) (int ` set ?F))"
    by (subst card_insert_disjoint) (auto simp: card_image)
  also have "\<dots> \<le> card {v. is_node ps v \<and> (t, v, M) \<in> h_acks h}"
    by (rule card_mono [OF finite_is_node]) (use assms in \<open>auto simp: is_node_def len_def\<close>)
  finally have "replicaCount n (int M) \<le> int (card {v. is_node ps v \<and> (t, v, M) \<in> h_acks h})" by simp
  with assms(1,5) show ?thesis by (simp add: quorum_def len_def)
qed

lemma notifyCommitAdvance_same [simp]:
  "node_id (notifyCommitAdvance n) = node_id n" "peers (notifyCommitAdvance n) = peers n"
  "nlog (notifyCommitAdvance n) = nlog n" "lastApplied (notifyCommitAdvance n) = lastApplied n"
  "commitIndex (notifyCommitAdvance n) = commitIndex n" "currentTerm (notifyCommitAdvance n) = currentTerm n"
  "state (notifyCommitAdvance n) = state n" "votedFor (notifyCommitAdvance n) = votedFor n"
  "matchIndex (notifyCommitAdvance n) = matchIndex n" "nextIndex (notifyCommitAdvance n) = nextIndex n"
  by (simp_all add: notifyCommitAdvance_def)

lemma inv_tryAdvance:
  assumes I: "inv ps c h" and L: "state (nodes c i) = Leader"
    and s: "tryAdvanceCommitIndexLocked (nodes c i) = Some n'"
  shows "inv ps (set_node i n' c) h"
proof (cases "n' = nodes c i")
  case True
  with I show ?thesis by (simp add: set_node_def)
next
  case False
  let ?n = "nodes c i" and ?t = "currentTerm (nodes c i)"
  obtain M where M: "commitIndex ?n < M" "0 \<le> M" "M < len (nlog ?n)" "le_Term (nlog ?n ! nat M) = ?t"
    "len (peers ?n) div 2 < replicaCount ?n M" and n': "n' = notifyCommitAdvance (?n\<lparr>commitIndex := M\<rparr>)"
    using advanceLoop_Some s False unfolding tryAdvanceCommitIndexLocked_def by blast
  have ok: "node_ok ps h i ?n" "0 \<le> commitIndex ?n"
    using inv_node [OF I, of i] by (simp_all add: commit_ok_def)
  then have lead: "(?t, i) \<in> h_leaders h" and tl: "nlog ?n = h_tlog h ?t" using L by (simp_all add: node_ok_def)
  have m: "0 < nat M" "nat M < length (h_tlog h ?t)" "M = int (nat M)" using M ok(2) tl by (auto simp: len_def)
  have down: "(t, v, k) \<in> h_acks h" if "(t, v, j) \<in> h_acks h" "k \<le> j" for t v k j
    using that I by (auto simp: inv_def inv_acks_def)
  have "(?t, i, length (h_tlog h ?t) - 1) \<in> h_acks h"
    using I lead by (simp add: inv_def inv_acks_def)
  then have self: "(?t, i, nat M) \<in> h_acks h" using m by (elim down) linarith
  have "quorum ps h ?t (nat M)"
  proof (rule replicaCount_quorum [of ?n])
    show "(?t, node_id ?n, nat M) \<in> h_acks h"
      using self ok(1) by (simp add: node_ok_def)
    show "(?t, j, nat M) \<in> h_acks h" if "is_node ps j" "j \<noteq> node_id ?n" "int (nat M) \<le> matchIndex ?n j" for j
    proof (rule down)
      show "(?t, j, nat (matchIndex ?n j)) \<in> h_acks h"
        using I L that m(1) ok(1) by (auto simp: inv_def inv_match_def node_ok_def)
    qed (use that M in linarith)
  qed (use I lead M ok(1) m in \<open>auto simp: inv_def inv_leaders_def node_ok_def\<close>)
  then have "chosen ps h ?t (nat M)"
    using lead m M(4) tl by (auto simp: chosen_def elected_def)
  then have "committed ps h ?t M (nlog ?n)"
    unfolding committed_def using M m tl by (auto simp: agree_refl intro!: exI [of _ ?t])
  then show ?thesis
    by (intro inv_set_node [OF I]) (use n' ok M L I in \<open>auto simp: node_ok_def inv_def inv_match_def\<close>)
qed

lemma inv_ae_subset:
  "inv_ae ps c h \<Longrightarrow> set (aeReqs c') \<subseteq> set (aeReqs c) \<Longrightarrow> set (aeReps c') \<subseteq> set (aeReps c) \<Longrightarrow> inv_ae ps c' h"
  unfolding inv_ae_def by blast

lemma set_node_twice [simp]: "set_node i n (set_node i m c) = set_node i n c"
  by (simp add: set_node_def)

lemma inv_receiveAppendReply:
  assumes I: "inv ps c h" and s: "receiveAppendReply i j a r c = Some c'"
  shows "inv ps c' h"
proof -
  from s obtain n again where m: "(i, j, a, r) \<in> set (aeReps c)"
    and R: "replicateOnReply j a r (nodes c i) = Some (n, again)"
    and c': "c' = (set_node i n c)\<lparr>aeReps := remove1 (i, j, a, r) (aeReps c)\<rparr>"
    by (auto simp: receiveAppendReply_def split: if_splits option.splits)
  let ?n = "nodes c i"
  have ij: "i \<noteq> j" and ack: "aer_Success r \<Longrightarrow> (ae_Term a, j, nat (ae_PrevLogIndex a + len (ae_Entries a))) \<in> h_acks h"
    using I m by (auto simp: inv_def inv_ae_def)
  consider "currentTerm ?n < aer_Term r" "n = becomeFollowerLocked (aer_Term r) ?n"
    | "n = ?n" | x where "n = ?n\<lparr>nextIndex := x\<rparr>"
    | x where "state ?n = Leader" "currentTerm ?n = ae_Term a" "aer_Success r"
       "tryAdvanceCommitIndexLocked (?n\<lparr>matchIndex := (matchIndex ?n)(j := ae_PrevLogIndex a + len (ae_Entries a)),
           nextIndex := x\<rparr>) = Some n"
    using R by (auto simp: replicateOnReply_def Let_def split: if_splits option.splits)
  then have J: "inv ps (set_node i n c) h"
  proof cases
    case 1
    then show ?thesis using inv_stepDown [OF I] by simp
  next
    case 2
    then show ?thesis using I by (simp add: set_node_def)
  next
    case 3
    then show ?thesis by (intro inv_set_node_quiet [OF I]) auto
  next
    case (4 x)
    let ?m = "?n\<lparr>matchIndex := (matchIndex ?n)(j := ae_PrevLogIndex a + len (ae_Entries a)), nextIndex := x\<rparr>"
    have "inv ps (set_node i ?m c) h"
      by (rule inv_set_node [OF I])
        (use I inv_node [OF I, of i] 4 ack in \<open>auto simp: node_ok_def commit_ok_def inv_def inv_match_def\<close>)
    then show ?thesis
      using inv_tryAdvance [of ps "set_node i ?m c" h i n] 4 by simp
  qed
  moreover have "inv_ae ps c' h"
  proof (rule inv_ae_subset)
    show "inv_ae ps c h" using I by (simp add: inv_def)
  qed (simp_all add: c' set_remove1_subset)
  ultimately show ?thesis by (intro inv_ae_cong [OF J]) (simp_all add: c')
qed

end
