(* ===== verification/RaftElectionSteps.thy ===== *)
theory RaftElectionSteps
  imports RaftLeaderSteps
begin

text \<open>
  Preservation of the safety invariant by the steps of an election up to the count of the votes: the
  start of an election, and a vote request answered with or without a vote.
\<close>

section \<open>The start of an election\<close>

text \<open>Votes and candidate logs do not matter to what is said of logs and acknowledgements.\<close>

lemma elected_cong: "h_leaders h' = h_leaders h \<Longrightarrow> elected h' t = elected h t"
  by (simp add: elected_def)

lemma wf_log_cong:
  "h_leaders h' = h_leaders h \<Longrightarrow> h_tlog h' = h_tlog h \<Longrightarrow> wf_log h' l = wf_log h l"
  by (simp add: wf_log_def elected_def)

lemma committed_cong:
  "h_leaders h' = h_leaders h \<Longrightarrow> h_tlog h' = h_tlog h \<Longrightarrow> h_acks h' = h_acks h \<Longrightarrow>
   committed ps h' t x l = committed ps h t x l"
  by (simp add: committed_def chosen_def quorum_def elected_def)

lemma ae_msg_cong:
  "h_leaders h' = h_leaders h \<Longrightarrow> h_tlog h' = h_tlog h \<Longrightarrow> h_acks h' = h_acks h \<Longrightarrow>
   ae_msg ps h' b a = ae_msg ps h b a"
  by (simp add: ae_msg_def committed_cong [of h' h])

lemma overruled_cong:
  "h_leaders h' = h_leaders h \<Longrightarrow> h_tlog h' = h_tlog h \<Longrightarrow> overruled h' t i = overruled h t i"
  by (simp add: overruled_def elected_def)

lemma inv_votes_cong:
  assumes "inv ps c h" "h_leaders h' = h_leaders h" "h_tlog h' = h_tlog h" "h_acks h' = h_acks h"
  shows "inv_nodes ps c h'" "inv_tlog h'" "inv_ae ps c h'" "inv_acks ps c h'" "inv_match ps c h'"
    "inv_hold c h'" "inv_complete ps h'" "inv_commit ps c h'"
  using assms
  by (simp_all add: inv_def inv_defs elected_cong [of h' h] wf_log_cong [of h' h] committed_cong [of h' h]
      ae_msg_cong [of h' h] overruled_cong [of h' h] chosen_def quorum_def)

lemma finite_grants: "inv_grants ps c h \<Longrightarrow> finite {v. (t, v, b) \<in> h_grants h \<and> P v}"
  by (rule finite_subset [OF _ finite_is_node [of ps "\<lambda>_. True"]]) (auto simp: inv_grants_def)

lemma finite_counted: "inv_grants ps c h \<Longrightarrow> finite (counted c' h t b)"
  unfolding counted_def by (rule finite_grants)

lemma rv_reqD:
  assumes "inv_rv ps c h" "(b, v, a) \<in> set (rvReqs c)"
  shows "b \<noteq> v" "is_node ps v" "rv_msg h b a" "(rv_Term a, v, b) \<notin> h_grants h"
    "(b, rv_Term a, v, r) \<notin> set (rvReps c)"
  using assms unfolding inv_rv_def by blast+

lemma rv_repD:
  assumes "inv_rv ps c h" "(b, t, v, r) \<in> set (rvReps c)"
  shows "b \<noteq> v" "(t, b, b) \<in> h_grants h" "rvr_VoteGranted r \<Longrightarrow> (t, v, b) \<in> h_grants h"
    "(b, t, v, r') \<in> set (rvReps c) \<Longrightarrow> r' = r"
  using assms unfolding inv_rv_def by blast+

lemma ownVote_pc:
  assumes pc: "inv_pc c h" and gr: "inv_grants ps c h" and rv: "inv_rv ps c h" and le: "inv_leaders ps h"
    and i: "is_node ps i" and t: "currentTerm (nodes c i) = t" and fresh: "\<And>b. (t, i, b) \<notin> h_grants h"
    and h': "h_grants h' = insert (t, i, i) (h_grants h)" "h_leaders h' = h_leaders h"
    and c': "pcs c' = (pcs c)(i := InCandidate t 1)" "rvReps c' = rvReps c"
  shows "inv_pc c' h'"
  unfolding inv_pc_def
proof (intro allI impI)
  fix b t' k assume p: "pcs c' b = InCandidate t' k"
  have own: "(t, v, i) \<notin> h_grants h" for v using gr fresh [of i] unfolding inv_grants_def by blast
  have fin: "finite (counted c' h' t' b)"
    by (rule finite_subset [of _ "insert i (counted c h t' b)"])
      (auto simp: counted_def h' c' intro: finite_grants [OF gr])
  show "(t', b, b) \<in> h_grants h' \<and> (\<forall>t''. (t'', b, b) \<in> h_grants h' \<longrightarrow> t'' \<le> t') \<and> (t', b) \<notin> h_leaders h'
      \<and> k \<le> int (card (counted c' h' t' b))"
  proof (cases "b = i")
    case True
    have "i \<in> counted c' h' t i" using rv_repD(1) [OF rv] by (auto simp: counted_def h' c')
    then have "0 < card (counted c' h' t i)" using fin p True c' by (auto simp: card_gt_0_iff)
    moreover have "\<forall>t''. (t'', i, i) \<in> h_grants h \<longrightarrow> t'' \<le> t" using gr t unfolding inv_grants_def by blast
    moreover have "(t, i) \<notin> h_leaders h" using le i own unfolding inv_leaders_def by blast
    ultimately show ?thesis using True p c' by (auto simp: h')
  next
    case False
    have "counted c h t' b \<subseteq> counted c' h' t' b" by (auto simp: counted_def h' c')
    then have "card (counted c h t' b) \<le> card (counted c' h' t' b)" using fin by (rule card_mono [rotated])
    moreover have "pcs c b = InCandidate t' k" using False p c' by simp
    ultimately show ?thesis using False pc unfolding inv_pc_def h' by fastforce
  qed
qed

lemma ownVote_rv:
  assumes rv: "inv_rv ps c h" and gr: "inv_grants ps c h" and fresh: "\<And>b. (t, i, b) \<notin> h_grants h"
    and a: "a = \<lparr>rv_Term = t, rv_CandidateId = i, rv_LastLogIndex = len l - 1,
                 rv_LastLogTerm = le_Term (l ! (length l - 1))\<rparr>"
    and h': "h' = h\<lparr>h_grants := insert (t, i, i) (h_grants h), h_clog := (h_clog h)(t := (h_clog h t)(i := l))\<rparr>"
    and js: "distinct js" "\<And>j. j \<in> set js \<Longrightarrow> is_node ps j \<and> j \<noteq> i"
    and c': "rvReqs c' = rvReqs c @ map (\<lambda>j. (i, j, a)) js" "rvReps c' = rvReps c"
  shows "inv_rv ps c' h'"
proof -
  have own: "(t, v, i) \<notin> h_grants h" for v using gr fresh [of i] unfolding inv_grants_def by blast
  have old: "rv_msg h' b m" if "rv_msg h b m" for b m
    using that own by (auto simp: rv_msg_def h' Let_def)
  have new: "rv_msg h' i a" by (simp add: rv_msg_def h' a)
  have nq: "(i, j, a) \<notin> set (rvReqs c)" for j
    using rv_reqD(3) [OF rv] own by (fastforce simp: rv_msg_def a)
  have nr: "(i, t, j, r) \<notin> set (rvReps c)" for j r
    using rv_repD(2) [OF rv] own by blast
  have "distinct (rvReqs c')"
    using rv nq js(1) by (auto simp: inv_rv_def c' distinct_map inj_on_def)
  moreover have "b \<noteq> v \<and> is_node ps v \<and> rv_msg h' b m \<and> (rv_Term m, v, b) \<notin> h_grants h'
      \<and> (\<forall>r. (b, rv_Term m, v, r) \<notin> set (rvReps c'))" if "(b, v, m) \<in> set (rvReqs c')" for b v m
  proof -
    from that consider "(b, v, m) \<in> set (rvReqs c)" | "b = i" "v \<in> set js" "m = a" by (auto simp: c')
    then show ?thesis
    proof cases
      case 1
      then show ?thesis using rv_reqD [OF rv 1] old by (simp add: h' c')
    next
      case 2
      then show ?thesis using js(2) [of v] new own nr by (auto simp: h' c' a)
    qed
  qed
  moreover have "b \<noteq> v \<and> (u, b, b) \<in> h_grants h' \<and> (rvr_VoteGranted r \<longrightarrow> (u, v, b) \<in> h_grants h')
      \<and> (\<forall>r'. (b, u, v, r') \<in> set (rvReps c') \<longrightarrow> r' = r)" if "(b, u, v, r) \<in> set (rvReps c')" for b u v r
    using rv_repD [OF rv that [unfolded c']] by (auto simp: h' c')
  moreover have "distinct (rvReps c')" using rv by (simp add: inv_rv_def c')
  ultimately show ?thesis unfolding inv_rv_def by blast
qed

text \<open>Node \<open>i\<close>, already in the new term \<open>t\<close>, votes for itself and asks the others.\<close>

lemma inv_ownVote:
  assumes I: "inv ps c h" and i: "is_node ps i"
    and n: "currentTerm (nodes c i) = t" "votedFor (nodes c i) = i" "state (nodes c i) \<noteq> Leader"
    and t: "1 \<le> t" "\<forall>e \<in> set (nlog (nodes c i)). le_Term e < t"
    and fresh: "\<And>b. (t, i, b) \<notin> h_grants h"
    and a: "a = \<lparr>rv_Term = t, rv_CandidateId = i, rv_LastLogIndex = len (nlog (nodes c i)) - 1,
                 rv_LastLogTerm = le_Term (nlog (nodes c i) ! (length (nlog (nodes c i)) - 1))\<rparr>"
    and h': "h' = h\<lparr>h_grants := insert (t, i, i) (h_grants h),
                    h_clog := (h_clog h)(t := (h_clog h t)(i := nlog (nodes c i)))\<rparr>"
    and c': "c' = (set_pc i (InCandidate t 1) c)\<lparr>rvReqs := rvReqs c @ map (\<lambda>j. (i, j, a)) js\<rparr>"
    and js: "distinct js" "\<And>j. j \<in> set js \<Longrightarrow> is_node ps j \<and> j \<noteq> i"
  shows "inv ps c' h'"
proof -
  from I have nd: "inv_nodes ps c h" and gr: "inv_grants ps c h" and se: "inv_self c h" and sp: "inv_split h"
    and pc: "inv_pc c h" and ro: "inv_role c" and rv: "inv_rv ps c h" and le: "inv_leaders ps h"
    and ho: "inv_hold c h" and vo: "inv_vote h" by (simp_all add: inv_def)
  have nc: "nodes c' = nodes c" by (simp add: c')
  have sub: "h_leaders h' = h_leaders h" "h_tlog h' = h_tlog h" "h_acks h' = h_acks h" by (simp_all add: h')
  note cong = elected_cong [of h' h] wf_log_cong [of h' h] overruled_cong [of h' h]
  have own: "(t, v, i) \<notin> h_grants h" for v using gr fresh [of i] unfolding inv_grants_def by blast
  have clog: "h_clog h' t' b = h_clog h t' b" if "(t', v, b) \<in> h_grants h" for t' v b
    using that own by (auto simp: h')
  have wl: "wf_log h (nlog (nodes c i))" using nd by (simp add: inv_nodes_def node_ok_def)
  have "inv_grants ps c' h'"
    unfolding inv_grants_def nc
  proof (intro allI impI)
    fix t' v b assume "(t', v, b) \<in> h_grants h'"
    then consider "(t', v, b) \<in> h_grants h" | "t' = t" "v = i" "b = i" by (auto simp: h')
    then show "is_node ps v \<and> is_node ps b \<and> 1 \<le> t' \<and> t' \<le> currentTerm (nodes c v) \<and> (t', b, b) \<in> h_grants h'
        \<and> wf_log h' (h_clog h' t' b) \<and> (\<forall>e \<in> set (h_clog h' t' b). le_Term e < t')"
    proof cases
      case 1
      then show ?thesis using gr clog [OF 1] cong(2) [OF sub(1,2)] by (auto simp: inv_grants_def h')
    next
      case 2
      then show ?thesis using i n t wl cong(2) [OF sub(1,2)] by (simp add: h')
    qed
  qed
  moreover have "inv_self c' h'"
    using se n cong(1) [OF sub(1)] unfolding inv_self_def nc h' by auto
  moreover have "inv_split h'"
    using sp fresh cong(1) [OF sub(1)] unfolding inv_split_def by (auto simp: h')
  moreover have "inv_role c'" using ro n(3) by (auto simp: inv_role_def c')
  moreover have "inv_leaders ps h'"
    using le fresh i unfolding inv_leaders_def sub by (auto simp: h')
  moreover have "inv_vote h'"
    using vo ho clog fresh cong(3) [OF sub(1,2)] unfolding inv_vote_def inv_hold_def sub
    by (fastforce simp: h')
  moreover have "inv_pc c' h'"
    by (rule ownVote_pc [OF pc gr rv le i n(1) fresh]) (simp_all add: c' h')
  moreover have "inv_rv ps c' h'"
    by (rule ownVote_rv [OF rv gr fresh a h' js]) (simp_all add: c')
  moreover have "inv_nodes ps c' h'" "inv_tlog h'" "inv_ae ps c' h'" "inv_acks ps c' h'" "inv_match ps c' h'"
    "inv_hold c' h'" "inv_complete ps h'" "inv_commit ps c' h'"
    using inv_votes_cong [OF I sub]
    by (simp_all add: inv_nodes_def inv_ae_def inv_acks_def inv_match_def inv_hold_def inv_commit_def c')
  ultimately show ?thesis by (simp add: inv_def)
qed

lemma distinct_otherPeers: "distinct (otherPeers n)"
  by (simp add: otherPeers_def distinct_map inj_on_def)

lemma inv_beginElection:
  assumes I: "inv ps c h" and i: "is_node ps i" and s: "beginElection i c = Some c'"
  shows "inv ps c' (hist (StartElection i) c h)"
proof -
  let ?n = "nodes c i"
  define n where "n = ?n\<lparr>currentTerm := currentTerm ?n + 1, votedFor := node_id ?n, leaderID := -1\<rparr>"
  let ?a = "\<lparr>rv_Term = currentTerm ?n + 1, rv_CandidateId = i, rv_LastLogIndex = len (nlog ?n) - 1,
              rv_LastLogTerm = le_Term (nlog ?n ! (length (nlog ?n) - 1))\<rparr>"
  have ok: "node_ok ps h i ?n" by (rule inv_node [OF I])
  have ne: "nat (len (nlog ?n) - 1) = length (nlog ?n) - 1" by (simp add: len_def)
  from s have p: "pcs c i = AtCandidate"
    and c': "c' = (set_pc i (InCandidate (currentTerm ?n + 1) 1) (set_node i n c))
                   \<lparr>rvReqs := rvReqs (set_node i n c) @ map (\<lambda>j. (i, j, ?a)) (otherPeers n)\<rparr>"
    using ok unfolding beginElection_def startElection_def
    by (auto simp: Let_def at_Some n_def ne node_ok_def split: if_splits option.splits)
  have nl: "state ?n \<noteq> Leader" using I p by (auto simp: inv_def inv_role_def)
  have J: "inv ps (set_node i n c) h"
    by (rule inv_set_node_quiet [OF I]) (use nl in \<open>simp_all add: n_def\<close>)
  have gr: "inv_grants ps c h" using I by (simp add: inv_def)
  have "inv ps c' (h\<lparr>h_grants := insert (currentTerm ?n + 1, i, i) (h_grants h),
      h_clog := (h_clog h)(currentTerm ?n + 1 := (h_clog h (currentTerm ?n + 1))(i := nlog ?n))\<rparr>)"
  proof (rule inv_ownVote [OF J i, where a = ?a and js = "otherPeers n"])
    show "(currentTerm ?n + 1, i, b) \<notin> h_grants h" for b
      using gr by (fastforce simp: inv_grants_def)
    show "\<forall>e \<in> set (nlog (nodes (set_node i n c) i)). le_Term e < currentTerm ?n + 1"
      using ok by (force simp: node_ok_def n_def)
    show "is_node ps j \<and> j \<noteq> i" if "j \<in> set (otherPeers n)" for j
      using that ok by (simp add: otherPeers_iff n_def node_ok_def)
  qed (use ok nl in \<open>simp_all add: n_def node_ok_def c' distinct_otherPeers\<close>)
  then show ?thesis by (simp add: Let_def)
qed

section \<open>Votes\<close>

lemma HandleRequestVote_cases:
  assumes "HandleRequestVote a n = Some (n', r)"
  obtains (stale) "rv_Term a < currentTerm n" "n' = n" "\<not> rvr_VoteGranted r"
  | (refused) "currentTerm n \<le> rv_Term a" "\<not> rvr_VoteGranted r"
      "n' = (if rv_Term a > currentTerm n then becomeFollowerLocked (rv_Term a) n else n)"
  | (granted) m where "currentTerm n \<le> rv_Term a" "rvr_VoteGranted r"
      "m = (if rv_Term a > currentTerm n then becomeFollowerLocked (rv_Term a) n else n)"
      "votedFor m = -1 \<or> votedFor m = rv_CandidateId a"
      "let e = le_Term (nlog n ! (length (nlog n) - 1))
       in rv_LastLogTerm a > e \<or> rv_LastLogTerm a = e \<and> rv_LastLogIndex a \<ge> len (nlog n) - 1"
      "n' = m\<lparr>votedFor := rv_CandidateId a, voteCh := signal 100 (voteCh m)\<rparr>"
proof (cases "rv_Term a < currentTerm n")
  case True
  then have "n' = n" "\<not> rvr_VoteGranted r" using assms by (auto simp: HandleRequestVote_def)
  with True show ?thesis by (rule that(1))
next
  case False
  define m where "m = (if rv_Term a > currentTerm n then becomeFollowerLocked (rv_Term a) n else n)"
  define e where "e = le_Term (nlog n ! (length (nlog n) - 1))"
  have l: "nlog m = nlog n" by (simp add: m_def becomeFollowerLocked_def)
  have ne: "nat (len (nlog n) - 1) = length (nlog n) - 1" by (simp add: len_def)
  let ?ok = "(votedFor m = -1 \<or> votedFor m = rv_CandidateId a) \<and>
    (rv_LastLogTerm a > e \<or> rv_LastLogTerm a = e \<and> rv_LastLogIndex a \<ge> len (nlog n) - 1)"
  have eq: "(if ?ok then Some (m\<lparr>votedFor := rv_CandidateId a, voteCh := signal 100 (voteCh m)\<rparr>,
           \<lparr>rvr_Term = currentTerm n, rvr_VoteGranted = True\<rparr>)
         else Some (m, \<lparr>rvr_Term = currentTerm n, rvr_VoteGranted = False\<rparr>)) = Some (n', r)"
    using assms False unfolding HandleRequestVote_def Let_def m_def [symmetric] l
    by (auto simp: at_def ne e_def split: if_splits)
  show ?thesis
  proof (cases ?ok)
    case True
    from eq have "n' = m\<lparr>votedFor := rv_CandidateId a, voteCh := signal 100 (voteCh m)\<rparr>" "rvr_VoteGranted r"
      unfolding if_P [OF True] by auto
    with False True show ?thesis by (intro that(3) [of m]) (simp_all add: m_def e_def)
  next
    case refuse: False
    from eq have "n' = m" "\<not> rvr_VoteGranted r" unfolding if_not_P [OF refuse] by auto
    with False show ?thesis by (intro that(2)) (simp_all add: m_def)
  qed
qed

text \<open>The answer \<open>r\<close> of \<open>j\<close> to the request \<open>a\<close> of \<open>i\<close>, with or without a vote.\<close>

lemma answer_rv:
  assumes rv: "inv_rv ps c h" and m: "(i, j, a) \<in> set (rvReqs c)"
    and c': "rvReqs c' = remove1 (i, j, a) (rvReqs c)" "rvReps c' = (i, rv_Term a, j, r) # rvReps c"
    and h': "h_grants h \<subseteq> h_grants h'" "h_grants h' \<subseteq> insert (rv_Term a, j, i) (h_grants h)" "h_clog h' = h_clog h"
    and g: "rvr_VoteGranted r \<Longrightarrow> (rv_Term a, j, i) \<in> h_grants h'"
  shows "inv_rv ps c' h'"
proof -
  note q = rv_reqD [OF rv m]
  have dq: "distinct (rvReqs c)" and dr: "distinct (rvReps c)" using rv by (simp_all add: inv_rv_def)
  have msg: "rv_msg h' b x" if "rv_msg h b x" for b x using that h' by (auto simp: rv_msg_def)
  have "b \<noteq> v \<and> is_node ps v \<and> rv_msg h' b x \<and> (rv_Term x, v, b) \<notin> h_grants h'
      \<and> (\<forall>r. (b, rv_Term x, v, r) \<notin> set (rvReps c'))" if "(b, v, x) \<in> set (rvReqs c')" for b v x
  proof -
    have old: "(b, v, x) \<in> set (rvReqs c)" "(b, v, x) \<noteq> (i, j, a)" using that dq by (auto simp: c')
    have "x = a" if "b = i" "rv_Term x = rv_Term a"
      using rv_reqD(3) [OF rv old(1)] q(3) that by (simp add: rv_msg_def Let_def)
    then have "(b, rv_Term x, v) \<noteq> (i, rv_Term a, j)" using old(2) by auto
    then show ?thesis using rv_reqD [OF rv old(1)] msg h' by (auto simp: c')
  qed
  moreover have "b \<noteq> v \<and> (u, b, b) \<in> h_grants h' \<and> (rvr_VoteGranted x \<longrightarrow> (u, v, b) \<in> h_grants h')
      \<and> (\<forall>x'. (b, u, v, x') \<in> set (rvReps c') \<longrightarrow> x' = x)" if "(b, u, v, x) \<in> set (rvReps c')" for b u v x
  proof (cases "(b, u, v, x) \<in> set (rvReps c)")
    case True
    then have "(b, u, v) \<noteq> (i, rv_Term a, j)" using q(5) by blast
    then show ?thesis using rv_repD [OF rv True] h'(1) by (auto simp: c')
  next
    case False
    then have "b = i" "u = rv_Term a" "v = j" "x = r" using that by (auto simp: c')
    then show ?thesis using q g h'(1) by (auto simp: c' rv_msg_def)
  qed
  moreover have "distinct (rvReqs c')" "distinct (rvReps c')" using dq dr q(5) by (auto simp: c')
  ultimately show ?thesis unfolding inv_rv_def by blast
qed

lemma answer_pc:
  assumes pc: "inv_pc c h" and gr: "inv_grants ps c h" and rv: "inv_rv ps c h" and m: "(i, j, a) \<in> set (rvReqs c)"
    and c': "rvReps c' = (i, rv_Term a, j, r) # rvReps c" "pcs c' = pcs c"
    and h': "h_grants h \<subseteq> h_grants h'" "h_grants h' \<subseteq> insert (rv_Term a, j, i) (h_grants h)"
      "h_leaders h' = h_leaders h"
  shows "inv_pc c' h'"
  unfolding inv_pc_def
proof (intro allI impI)
  fix b t k assume "pcs c' b = InCandidate t k"
  then have p: "(t, b, b) \<in> h_grants h" "\<forall>u. (u, b, b) \<in> h_grants h \<longrightarrow> u \<le> t" "(t, b) \<notin> h_leaders h"
    "k \<le> int (card (counted c h t b))" using pc by (auto simp: inv_pc_def c')
  have self: "(u, b, b) \<in> h_grants h' \<longleftrightarrow> (u, b, b) \<in> h_grants h" for u
    using h' rv_reqD(1) [OF rv m] by auto
  have "counted c h t b \<subseteq> counted c' h' t b"
    using h'(1) rv_reqD(4) [OF rv m] by (auto simp: counted_def c')
  moreover have "finite (counted c' h' t b)"
    using finite_grants [OF gr, of t b "\<lambda>_. True"] h'(2)
    by (auto simp: counted_def intro: finite_subset [of _ "insert j {v. (t, v, b) \<in> h_grants h}"])
  ultimately have "card (counted c h t b) \<le> card (counted c' h' t b)" by (rule card_mono [rotated])
  with p show "(t, b, b) \<in> h_grants h' \<and> (\<forall>u. (u, b, b) \<in> h_grants h' \<longrightarrow> u \<le> t) \<and> (t, b) \<notin> h_leaders h'
      \<and> k \<le> int (card (counted c' h' t b))" using h'(3) by (auto simp: self)
qed

lemma inv_rv_cong:
  assumes "inv ps c h" "nodes c' = nodes c" "aeReqs c' = aeReqs c" "aeReps c' = aeReps c" "pcs c' = pcs c"
    "applied c' = applied c" "inv_rv ps c' h" "inv_pc c' h"
  shows "inv ps c' h"
  using assms
  by (simp add: inv_def inv_nodes_def inv_grants_def inv_self_def inv_role_def inv_ae_def inv_acks_def
      inv_match_def inv_hold_def inv_commit_def)

text \<open>
  The candidate's log contains what the voter acknowledged: the comparison of the last entries in
  \<open>HandleRequestVote\<close>, read through Log Matching.
\<close>

lemma upToDate_agree:
  assumes wl: "wf_log h l" and wm: "wf_log h m" and tl: "inv_tlog h" and el: "elected h t"
    and a: "agree k (h_tlog h t) l" and k: "le_Term (h_tlog h t ! k) = t"
    and up: "le_Term (m ! (length m - 1)) > le_Term (l ! (length l - 1)) \<or>
       le_Term (m ! (length m - 1)) = le_Term (l ! (length l - 1)) \<and> length l \<le> length m"
  shows "agree k (h_tlog h t) m \<or> overruled h t k"
proof -
  let ?u = "le_Term (m ! (length m - 1))" and ?w = "le_Term (l ! (length l - 1))"
  have ne: "length l - 1 < length l" "length m - 1 < length m" using wl wm by (auto simp: wf_log_def)
  have al: "agree (length l - 1) l (h_tlog h ?w)" and am: "agree (length m - 1) m (h_tlog h ?u)"
    using wf_log_agree [OF wl ne(1)] wf_log_agree [OF wm ne(2)] .
  have kl: "k \<le> length l - 1" using agree_length [OF a] by linarith
  show ?thesis
  proof (cases "?u = ?w \<and> length l \<le> length m")
    case True
    have "agree (length l - 1) (h_tlog h ?u) m"
      by (rule agree_le [OF am [THEN agree_sym]]) (use True in linarith)
    moreover have "agree (length l - 1) l (h_tlog h ?u)" using al True by simp
    ultimately have "agree k l m" by (rule agree_le [OF agree_trans [rotated] kl])
    with a show ?thesis by (blast intro: agree_trans)
  next
    case False
    have "t \<le> ?w" using wf_log_terms [OF wl kl ne(1)] k agree_nth [OF a order_refl] by simp
    with False up have lt: "t < ?u" by auto
    have eu: "elected h ?u" using wm ne(2) by (simp add: wf_log_def)
    show ?thesis
    proof (cases "agree k (h_tlog h t) (h_tlog h ?u)")
      case agr: True
      have "k \<le> length m - 1"
      proof (rule ccontr)
        assume "\<not> k \<le> length m - 1"
        then have i: "length m - 1 \<le> k" by simp
        have "le_Term (h_tlog h t ! (length m - 1)) = ?u"
          using agree_nth [OF agr i] agree_nth [OF am order_refl] by simp
        moreover have "h_tlog h t ! (length m - 1) \<in> set (h_tlog h t)" using agree_length [OF a] i by simp
        ultimately show False using tl el lt by (force simp: inv_tlog_def)
      qed
      then have "agree k (h_tlog h ?u) m" by (rule agree_le [OF am [THEN agree_sym]])
      with agr show ?thesis by (blast intro: agree_trans)
    qed (use lt eu in \<open>auto simp: overruled_def\<close>)
  qed
qed

text \<open>Node \<open>j\<close>, already in the candidate's term and with its vote set, grants it.\<close>

lemma inv_grantVote:
  assumes I: "inv ps c h" and m: "(i, j, a) \<in> set (rvReqs c)"
    and T: "currentTerm (nodes c j) = rv_Term a" and own: "(rv_Term a, j, j) \<in> h_grants h \<Longrightarrow> elected h (rv_Term a)"
    and up: "let e = le_Term (nlog (nodes c j) ! (length (nlog (nodes c j)) - 1))
       in rv_LastLogTerm a > e \<or> rv_LastLogTerm a = e \<and> rv_LastLogIndex a \<ge> len (nlog (nodes c j)) - 1"
    and c': "c' = c\<lparr>rvReqs := remove1 (i, j, a) (rvReqs c), rvReps := (i, rv_Term a, j, r) # rvReps c\<rparr>"
    and h': "h' = h\<lparr>h_grants := insert (rv_Term a, j, i) (h_grants h)\<rparr>"
  shows "inv ps c' h'"
proof -
  from I have nd: "inv_nodes ps c h" and gr: "inv_grants ps c h" and se: "inv_self c h" and sp: "inv_split h"
    and pc: "inv_pc c h" and rv: "inv_rv ps c h" and le: "inv_leaders ps h" and tl: "inv_tlog h"
    and ac: "inv_acks ps c h" and ho: "inv_hold c h" and vo: "inv_vote h" by (simp_all add: inv_def)
  note q = rv_reqD [OF rv m]
  let ?l = "h_clog h (rv_Term a) i" and ?n = "nlog (nodes c j)"
  have sub: "h_leaders h' = h_leaders h" "h_tlog h' = h_tlog h" "h_acks h' = h_acks h" by (simp_all add: h')
  have clog: "h_clog h' = h_clog h" by (simp add: h')
  note cong = elected_cong [OF sub(1)] wf_log_cong [OF sub(1,2)] overruled_cong [OF sub(1,2)]
  have cand: "(rv_Term a, i, i) \<in> h_grants h" using q(3) by (simp add: rv_msg_def)
  have wl: "wf_log h ?l" "wf_log h ?n" "is_node ps i" "1 \<le> rv_Term a" "\<forall>e \<in> set ?l. le_Term e < rv_Term a"
    using gr cand nd unfolding inv_grants_def inv_nodes_def node_ok_def by blast+
  have "inv_vote h'"
    unfolding inv_vote_def
  proof (intro allI impI)
    fix t' v b t k
    assume g: "(t', v, b) \<in> h_grants h'" and ack: "(t, v, k) \<in> h_acks h'" and lt: "t < t'"
      and k: "le_Term (h_tlog h' t ! k) = t"
    show "agree k (h_tlog h' t) (h_clog h' t' b) \<or> overruled h' t k"
    proof (cases "(t', v, b) \<in> h_grants h")
      case True
      with ack lt k vo show ?thesis unfolding cong sub clog inv_vote_def by blast
    next
      case False
      then have new: "t' = rv_Term a" "v = j" "b = i" using g by (auto simp: h')
      have "elected h t" using ac ack by (auto simp: inv_acks_def sub)
      moreover have "agree k (h_tlog h t) ?n \<or> overruled h t k" using ho ack new by (auto simp: inv_hold_def sub)
      moreover have "length ?n \<le> length ?l" if "rv_LastLogIndex a \<ge> len ?n - 1"
        using that q(3) by (simp add: rv_msg_def len_def Let_def)
      ultimately show ?thesis
        using upToDate_agree [OF wl(2,1) tl, of t k] k up q(3) unfolding cong new
        by (auto simp: h' rv_msg_def Let_def)
    qed
  qed
  moreover have "inv_grants ps c' h'"
    using gr T q(2) cand wl unfolding inv_grants_def cong by (auto simp: h' c')
  moreover have "inv_self c' h'" using se q(1) unfolding inv_self_def cong by (auto simp: h' c')
  moreover have "inv_split h'" using sp own q(1) unfolding inv_split_def cong by (auto simp: h')
  moreover have "inv_pc c' h'" by (rule answer_pc [OF pc gr rv m]) (auto simp: h' c')
  moreover have "inv_rv ps c' h'" by (rule answer_rv [OF rv m]) (auto simp: h' c')
  moreover have "inv_leaders ps h'" using le q(1) unfolding inv_leaders_def sub by (auto simp: h')
  moreover have "inv_role c'" using I by (simp add: inv_def inv_role_def c')
  moreover have "inv_nodes ps c' h'" "inv_tlog h'" "inv_ae ps c' h'" "inv_acks ps c' h'" "inv_match ps c' h'"
    "inv_hold c' h'" "inv_complete ps h'" "inv_commit ps c' h'"
    using inv_votes_cong [OF I sub]
    by (simp_all add: inv_nodes_def inv_ae_def inv_acks_def inv_match_def inv_hold_def inv_commit_def c')
  ultimately show ?thesis by (simp add: inv_def)
qed

lemma inv_refuseVote:
  assumes I: "inv ps c h" and m: "(i, j, a) \<in> set (rvReqs c)" and r: "\<not> rvr_VoteGranted r"
  shows "inv ps (c\<lparr>rvReqs := remove1 (i, j, a) (rvReqs c), rvReps := (i, rv_Term a, j, r) # rvReps c\<rparr>) h"
proof (rule inv_rv_cong [OF I])
  from I have pc: "inv_pc c h" and gr: "inv_grants ps c h" and rv: "inv_rv ps c h" by (simp_all add: inv_def)
  show "inv_pc (c\<lparr>rvReqs := remove1 (i, j, a) (rvReqs c), rvReps := (i, rv_Term a, j, r) # rvReps c\<rparr>) h"
    by (rule answer_pc [OF pc gr rv m]) auto
  show "inv_rv ps (c\<lparr>rvReqs := remove1 (i, j, a) (rvReqs c), rvReps := (i, rv_Term a, j, r) # rvReps c\<rparr>) h"
    by (rule answer_rv [OF rv m]) (use r in auto)
qed simp_all

lemma inv_deliverVoteRequest:
  assumes I: "inv ps c h" and s: "deliverVoteRequest i j a c = Some c'"
  shows "inv ps c' (hist (DeliverVoteRequest i j a) c h)"
proof -
  from s obtain n r where m: "(i, j, a) \<in> set (rvReqs c)" and H: "HandleRequestVote a (nodes c j) = Some (n, r)"
    and c': "c' = (set_node j n c)\<lparr>rvReqs := remove1 (i, j, a) (rvReqs c), rvReps := (i, rv_Term a, j, r) # rvReps c\<rparr>"
    by (auto simp: deliverVoteRequest_def split: if_splits option.splits)
  let ?n = "nodes c j"
  let ?m = "if rv_Term a > currentTerm ?n then becomeFollowerLocked (rv_Term a) ?n else ?n"
  have q: "i \<noteq> j" "is_node ps j" "rv_CandidateId a = i"
    using I m rv_reqD [of ps c h i j a] by (auto simp: inv_def rv_msg_def)
  have J: "inv ps (set_node j ?m c) h"
    using inv_stepDown [OF I, of j "rv_Term a"] I by (auto simp: set_node_def)
  have m': "(i, j, a) \<in> set (rvReqs (set_node j x c))" for x using m by simp
  from H show ?thesis
  proof (cases rule: HandleRequestVote_cases)
    case stale
    have "set_node j n c = c" by (simp add: stale set_node_def)
    then show ?thesis using inv_refuseVote [OF I m stale(3)] H stale(3) by (simp add: c')
  next
    case refused
    have "n = ?m" using refused(3) by simp
    then show ?thesis using inv_refuseVote [OF J m' refused(2)] H refused(2) by (simp add: c')
  next
    case (granted x)
    have x: "x = ?m" and T: "currentTerm x = rv_Term a" and l: "nlog x = nlog ?n"
      using granted(1,3) by (auto simp: becomeFollowerLocked_def)
    have own: "elected h (rv_Term a)" if "(rv_Term a, j, j) \<in> h_grants h"
    proof (rule ccontr)
      assume "\<not> elected h (rv_Term a)"
      moreover have "inv_self (set_node j x c) h" using J [folded x] by (simp add: inv_def)
      ultimately have "votedFor (nodes (set_node j x c) j) = j"
        using that T unfolding inv_self_def by fastforce
      then have "votedFor x = j" by simp
      then show False using granted(4) q by (auto simp: is_node_def)
    qed
    have "inv ps (set_node j n (set_node j x c)) h"
      by (rule inv_set_node_quiet [OF J [folded x]]) (use granted(6) T own in auto)
    then have "inv ps (set_node j n c) h" by simp
    then show ?thesis
      by (rule inv_grantVote [where i = i and j = j and a = a and r = r])
        (use m own granted T l H in \<open>auto simp: c'\<close>)
  qed
qed

end
