(* ===== verification/RaftElect.thy ===== *)
theory RaftElect
  imports RaftElectionSteps
begin

text \<open>
  How the invariant follows a growing history, the count of the votes in \<open>runCandidate\<close>, and the
  election of a leader.
\<close>

section \<open>How the parts of the invariant follow a growing history\<close>

lemma tlog_nth_mono:
  "hist_le h h' \<Longrightarrow> elected h t \<Longrightarrow> i < length (h_tlog h t) \<Longrightarrow> h_tlog h' t ! i = h_tlog h t ! i"
  using tlog_mono [of h h' t i] by (simp add: agree_def)

lemma length_tlog_mono: "hist_le h h' \<Longrightarrow> elected h t \<Longrightarrow> length (h_tlog h t) \<le> length (h_tlog h' t)"
  by (fastforce simp: hist_le_def)

lemma quorum_mono: "h_acks h \<subseteq> h_acks h' \<Longrightarrow> quorum ps h t i \<Longrightarrow> quorum ps h' t i"
  unfolding quorum_def by (erule less_le_trans) (intro card_mono finite_is_node; blast)

lemma chosen_mono:
  assumes "hist_le h h'" "chosen ps h t i"
  shows "chosen ps h' t i"
proof -
  have e: "elected h t" and i: "i < length (h_tlog h t)" using assms(2) by (simp_all add: chosen_def)
  have "quorum ps h' t i"
    using assms by (auto simp: chosen_def hist_le_def intro: quorum_mono)
  then show ?thesis
    using assms(2) elected_mono [OF assms(1) e] tlog_nth_mono [OF assms(1) e i] length_tlog_mono [OF assms(1) e]
    by (simp add: chosen_def)
qed

lemma agree_tlog_mono:
  "hist_le h h' \<Longrightarrow> elected h t \<Longrightarrow> agree i (h_tlog h t) l \<Longrightarrow> agree i (h_tlog h' t) l"
  using tlog_mono [of h h' t i] by (auto simp: agree_def)

lemma committed_mono: "hist_le h h' \<Longrightarrow> committed ps h t x l \<Longrightarrow> committed ps h' t x l"
  unfolding committed_def by (blast intro: chosen_mono agree_tlog_mono chosen_def [THEN iffD1, THEN conjunct1])

lemma committed_agree:
  assumes "committed ps h t x l" "agree (nat x) l l'"
  shows "committed ps h t x l'"
  using assms agree_length [OF assms(2)] unfolding committed_def len_def
  by (auto intro: agree_trans)

lemma ae_msg_mono:
  assumes g: "hist_le h h'" and a: "ae_msg ps h b a"
  shows "ae_msg ps h' b a"
proof -
  let ?t = "ae_Term a"
  have L: "(?t, b) \<in> h_leaders h" using a by (simp add: ae_msg_def)
  then have e: "elected h ?t" by (auto simp: elected_def)
  then obtain ext where ext: "h_tlog h' ?t = h_tlog h ?t @ ext" using g by (auto simp: hist_le_def)
  obtain p where p: "ae_PrevLogIndex a = int p" "p < length (h_tlog h ?t)"
      "ae_PrevLogTerm a = le_Term (h_tlog h ?t ! p)"
      "take (length (ae_Entries a)) (drop (Suc p) (h_tlog h ?t)) = ae_Entries a"
      "ae_LeaderCommit a \<le> int (p + length (ae_Entries a))"
      "committed ps h ?t (ae_LeaderCommit a) (h_tlog h ?t)"
    using a by (auto simp: ae_msg_def)
  have len: "length (ae_Entries a) \<le> length (drop (Suc p) (h_tlog h ?t))"
    using arg_cong [OF p(4), of length] by simp
  have "take (length (ae_Entries a)) (drop (Suc p) (h_tlog h' ?t)) = ae_Entries a"
    using p(2,4) len by (simp add: ext)
  moreover have "committed ps h' ?t (ae_LeaderCommit a) (h_tlog h' ?t)"
  proof (rule committed_agree [OF committed_mono [OF g p(6)]])
    show "agree (nat (ae_LeaderCommit a)) (h_tlog h ?t) (h_tlog h' ?t)"
      using p(6) by (auto simp: committed_def len_def ext)
  qed
  ultimately show ?thesis
    using L g p unfolding ae_msg_def by (auto simp: hist_le_def ext nth_append)
qed

lemma overruled_mono:
  assumes g: "hist_le h h'" and o: "overruled h t i" and e: "elected h t" and tl: "inv_tlog h"
    and i: "i < length (h_tlog h t)"
  shows "overruled h' t i"
proof -
  from o obtain u where u: "t < u" "elected h u" "\<not> agree i (h_tlog h t) (h_tlog h u)"
    by (auto simp: overruled_def)
  obtain ext where ext: "h_tlog h' u = h_tlog h u @ ext" "\<forall>e \<in> set ext. le_Term e = u"
    using g u(2) by (auto simp: hist_le_def)
  have same: "agree i (h_tlog h t) (h_tlog h' t)" by (rule tlog_mono [OF g e i])
  have "\<not> agree i (h_tlog h' t) (h_tlog h' u)"
  proof
    assume A: "agree i (h_tlog h' t) (h_tlog h' u)"
    have B: "agree i (h_tlog h t) (h_tlog h' u)" by (rule agree_trans [OF same A])
    show False
    proof (cases "i < length (h_tlog h u)")
      case True
      then have "agree i (h_tlog h' u) (h_tlog h u)" by (simp add: ext)
      with B u(3) show False by (blast intro: agree_trans)
    next
      case False
      then have "h_tlog h' u ! i \<in> set ext" using agree_length [OF B] by (auto simp: ext nth_append intro!: nth_mem)
      then have "le_Term (h_tlog h t ! i) = u" using ext(2) agree_nth [OF B order_refl] by simp
      moreover have "le_Term (h_tlog h t ! i) \<le> t" using tl e i by (simp add: inv_tlog_def)
      ultimately show False using u(1) by simp
    qed
  qed
  then show ?thesis using u elected_mono [OF g u(2)] by (auto simp: overruled_def)
qed

text \<open>The parts that hold for a larger history when no vote is added.\<close>

lemma inv_grow:
  assumes I: "inv ps c h" and g: "hist_le h h'" and same: "h_grants h' = h_grants h" "h_clog h' = h_clog h"
  shows "inv_grants ps c h'" "inv_self c h'" "inv_split h'" "inv_rv ps c h'" "inv_ae ps c h'" "inv_commit ps c h'"
proof -
  show "inv_grants ps c h'"
    using I wf_log_mono [OF g] unfolding inv_def inv_grants_def same by blast
  show "inv_self c h'"
    using I elected_mono [OF g] unfolding inv_def inv_self_def same by blast
  show "inv_split h'"
    using I elected_mono [OF g] unfolding inv_def inv_split_def same by blast
  show "inv_rv ps c h'"
    using I unfolding inv_def inv_rv_def rv_msg_def same by blast
  have acks: "h_acks h \<subseteq> h_acks h'" using g by (simp add: hist_le_def)
  show "inv_ae ps c h'"
    using I ae_msg_mono [OF g] acks unfolding inv_def inv_ae_def by blast
  show "inv_commit ps c h'"
    using I committed_mono [OF g] unfolding inv_def inv_commit_def commit_ok_def by blast
qed

lemma hold_mono:
  assumes I: "inv ps c h" and g: "hist_le h h'" and a: "(t, v, i) \<in> h_acks h"
    and l: "agree i (h_tlog h t) l \<or> overruled h t i"
  shows "agree i (h_tlog h' t) l \<or> overruled h' t i"
proof -
  have e: "elected h t" "i < length (h_tlog h t)" using I a by (auto simp: inv_def inv_acks_def)
  moreover have "inv_tlog h" using I by (simp add: inv_def)
  ultimately show ?thesis using l agree_tlog_mono [OF g e(1)] overruled_mono [OF g _ e(1) _ e(2)] by blast
qed

text \<open>A node that voted in a term is in that term or a later one; a leader was voted for by all.\<close>

lemma elected_term_le:
  assumes "inv ps c h" "elected h t" "is_node ps v" "0 \<le> currentTerm (nodes c v)"
  shows "t \<le> currentTerm (nodes c v)"
  using assms unfolding inv_def inv_leaders_def inv_grants_def elected_def by blast

lemma leader_unique:
  assumes "inv_leaders ps h" "(t, a) \<in> h_leaders h" "(t, b) \<in> h_leaders h"
  shows "a = b"
  using assms unfolding inv_leaders_def by blast

text \<open>Node \<open>v\<close> acknowledges the log of term \<open>t\<close> up to \<open>m\<close>.\<close>

lemma acks_grow:
  assumes ac: "inv_acks ps c h" and g: "hist_le h h'"
    and h': "h_acks h' = h_acks h \<union> {(t, v, k) | k. k \<le> m}"
    and t: "is_node ps v" "1 \<le> t" "elected h' t" "t \<le> currentTerm (nodes c' v)" "m < length (h_tlog h' t)"
    and le: "\<And>u. currentTerm (nodes c u) \<le> currentTerm (nodes c' u)"
    and lead: "\<And>u b. (u, b) \<in> h_leaders h' \<Longrightarrow> (u, b, length (h_tlog h' u) - 1) \<in> h_acks h'"
  shows "inv_acks ps c' h'"
proof -
  have "is_node ps w \<and> 1 \<le> u \<and> elected h' u \<and> u \<le> currentTerm (nodes c' w) \<and> i < length (h_tlog h' u)
      \<and> (\<forall>j \<le> i. (u, w, j) \<in> h_acks h')" if a: "(u, w, i) \<in> h_acks h'" for u w i
  proof (cases "(u, w, i) \<in> h_acks h")
    case True
    then have "is_node ps w" "1 \<le> u" "elected h u" "u \<le> currentTerm (nodes c w)" "i < length (h_tlog h u)"
      "\<forall>j \<le> i. (u, w, j) \<in> h_acks h" using ac unfolding inv_acks_def by blast+
    then show ?thesis
      using elected_mono [OF g] length_tlog_mono [OF g, of u] le [of w] by (fastforce simp: h')
  next
    case False
    then have "u = t" "w = v" "i \<le> m" using a by (auto simp: h')
    with t show ?thesis by (auto simp: h')
  qed
  with lead show ?thesis unfolding inv_acks_def by blast
qed

section \<open>Counting votes\<close>

text \<open>An answer is taken from the candidate's channel.\<close>

lemma receive_rv:
  assumes rv: "inv_rv ps c h" and c': "rvReqs c' = rvReqs c" "rvReps c' = remove1 x (rvReps c)"
  shows "inv_rv ps c' h"
proof -
  have "set (rvReps c') \<subseteq> set (rvReps c)" by (simp add: c' set_remove1_subset)
  moreover have "distinct (rvReps c')" using rv by (simp add: inv_rv_def c')
  ultimately show ?thesis using rv unfolding inv_rv_def c'(1) by blast
qed

lemma receive_counted:
  assumes rv: "inv_rv ps c h" and m: "(i, t, j, r) \<in> set (rvReps c)" and gr: "inv_grants ps c h"
    and c': "rvReps c' = remove1 (i, t, j, r) (rvReps c)" and k: "k \<le> int (card (counted c h t i))"
  shows "(if rvr_VoteGranted r then k + 1 else k) \<le> int (card (counted c' h t i))"
proof -
  have set: "set (rvReps c') = set (rvReps c) - {(i, t, j, r)}" using rv by (simp add: c' inv_rv_def)
  have fin: "finite (counted c' h t i)" by (rule finite_counted [OF gr])
  show ?thesis
  proof (cases "rvr_VoteGranted r")
    case True
    have "(t, j, i) \<in> h_grants h" by (rule rv_repD(3) [OF rv m True])
    moreover have "(i, t, j, r') \<notin> set (rvReps c')" for r' using rv_repD(4) [OF rv m, of r'] by (auto simp: set)
    ultimately have "insert j (counted c h t i) \<subseteq> counted c' h t i" by (auto simp: counted_def set)
    then have "card (insert j (counted c h t i)) \<le> card (counted c' h t i)" by (rule card_mono [OF fin])
    moreover have "j \<notin> counted c h t i" using m by (auto simp: counted_def)
    then have "card (insert j (counted c h t i)) = Suc (card (counted c h t i))"
      by (rule card_insert_disjoint [OF finite_counted [OF gr]])
    ultimately show ?thesis using True k by simp
  next
    case False
    have "counted c h t i \<subseteq> counted c' h t i" by (auto simp: counted_def set)
    then have "card (counted c h t i) \<le> card (counted c' h t i)" by (rule card_mono [OF fin])
    with False k show ?thesis by simp
  qed
qed

lemma receive_pc_other:
  assumes pc: "inv_pc c h" and gr: "inv_grants ps c h" and c': "rvReps c' = remove1 x (rvReps c)"
    and b: "pcs c b = InCandidate t k" and h': "h_grants h' = h_grants h" "(t, b) \<notin> h_leaders h'"
  shows "(t, b, b) \<in> h_grants h' \<and> (\<forall>u. (u, b, b) \<in> h_grants h' \<longrightarrow> u \<le> t) \<and> (t, b) \<notin> h_leaders h'
      \<and> k \<le> int (card (counted c' h' t b))"
proof -
  have "counted c h t b \<subseteq> counted c' h t b" using set_remove1_subset [of x "rvReps c"] by (auto simp: counted_def c')
  then have "card (counted c h t b) \<le> card (counted c' h t b)" by (rule card_mono [OF finite_counted [OF gr]])
  moreover have "counted c' h' t b = counted c' h t b" by (simp add: counted_def h')
  ultimately show ?thesis using pc b h'(2) unfolding inv_pc_def h'(1) by fastforce
qed

lemma inv_takeReply:
  assumes I: "inv ps c h" and m: "(i, t, j, r) \<in> set (rvReps c)" and k: "pcs c i = InCandidate t k"
    and p: "p = AtLoop \<or> p = InCandidate t (if rvr_VoteGranted r then k + 1 else k)"
    and c': "c' = set_pc i p (c\<lparr>rvReps := remove1 (i, t, j, r) (rvReps c)\<rparr>)"
  shows "inv ps c' h"
proof -
  from I have pc: "inv_pc c h" and gr: "inv_grants ps c h" and rv: "inv_rv ps c h" by (simp_all add: inv_def)
  have "inv_pc c' h"
    unfolding inv_pc_def
  proof (intro allI impI)
    fix b u x assume b: "pcs c' b = InCandidate u x"
    show "(u, b, b) \<in> h_grants h \<and> (\<forall>w. (w, b, b) \<in> h_grants h \<longrightarrow> w \<le> u) \<and> (u, b) \<notin> h_leaders h
      \<and> x \<le> int (card (counted c' h u b))"
    proof (cases "b = i")
      case True
      then have x: "u = t" "x = (if rvr_VoteGranted r then k + 1 else k)" using b p by (auto simp: c')
      have "k \<le> int (card (counted c h t i))" using pc k by (simp add: inv_pc_def)
      then have "x \<le> int (card (counted c' h t i))"
        unfolding x(2) by (rule receive_counted [OF rv m gr, rotated]) (simp add: c')
      with True x(1) pc k show ?thesis unfolding inv_pc_def by blast
    next
      case False
      then have b': "pcs c b = InCandidate u x" using b by (simp add: c')
      then have "(u, b) \<notin> h_leaders h" using pc unfolding inv_pc_def by blast
      then show ?thesis by (intro receive_pc_other [OF pc gr _ b']) (simp_all add: c')
    qed
  qed
  moreover have "inv_rv ps c' h" by (rule receive_rv [OF rv]) (simp_all add: c')
  moreover have "inv_role c'" using I k by (auto simp: inv_def inv_role_def c')
  ultimately show ?thesis
    using I by (simp add: inv_def inv_nodes_def inv_grants_def inv_self_def inv_ae_def inv_acks_def
        inv_match_def inv_hold_def inv_commit_def c')
qed

text \<open>Three nodes at most: \<open>votesNeeded\<close> asks for the votes of all of them.\<close>

lemma votesNeeded_all:
  assumes gr: "inv_grants ps c h" and n: "length ps \<le> 3" and k: "(len ps + 1) div 2 + 1 \<le> int (card (counted c' h t b))"
    and v: "is_node ps v"
  shows "(t, v, b) \<in> h_grants h"
proof -
  have sub: "counted c' h t b \<subseteq> {v. is_node ps v}" using gr by (auto simp: counted_def inv_grants_def)
  have "{v. is_node ps v} = int ` {..<length ps}"
    by (auto simp: is_node_def len_def image_iff intro!: bexI [of _ "nat _"])
  then have "card {v. is_node ps v} = length ps" by (simp add: card_image)
  moreover have "length ps \<le> card (counted c' h t b)" using k n by (simp add: len_def)
  ultimately have "counted c' h t b = {v. is_node ps v}"
    using sub finite_is_node [of ps "\<lambda>_. True"] by (intro card_seteq) simp_all
  with v show ?thesis by (auto simp: counted_def)
qed

section \<open>A leader is elected\<close>

text \<open>
  The first leader of term \<open>t\<close>: its log becomes the log of the term. Leader Completeness for \<open>t\<close> comes
  from the votes: a quorum that stored an entry and the voters have a node in common, which voted only
  for a log with that entry.
\<close>

lemma elect_complete:
  assumes I: "inv ps c h" and votes: "\<And>v. is_node ps v \<Longrightarrow> (t, v, i) \<in> h_grants h"
    and ch: "chosen ps h t0 k" and lt: "t0 < t"
  shows "agree k (h_tlog h t0) (h_clog h t i)"
proof -
  have "0 < card {v. is_node ps v \<and> (t0, v, k) \<in> h_acks h}" using ch unfolding chosen_def quorum_def by linarith
  then obtain v where v: "is_node ps v" "(t0, v, k) \<in> h_acks h" by (auto simp: card_gt_0_iff)
  have k: "le_Term (h_tlog h t0 ! k) = t0" using ch by (simp add: chosen_def)
  have "inv_vote h" using I by (simp add: inv_def)
  then have "agree k (h_tlog h t0) (h_clog h t i) \<or> overruled h t0 k"
    using votes [OF v(1)] v(2) lt k unfolding inv_vote_def by blast
  moreover have "\<not> overruled h t0 k" using I ch by (auto simp: overruled_def inv_def inv_complete_def)
  ultimately show ?thesis by blast
qed

lemma elect_hist_le:
  assumes "\<not> elected h t" "h' = ack t i m (h\<lparr>h_leaders := insert (t, i) (h_leaders h), h_tlog := (h_tlog h)(t := l)\<rparr>)"
  shows "hist_le h h'"
  using assms by (auto simp: hist_le_def ack_def)

lemma elect_history:
  assumes I: "inv ps c h" and i: "is_node ps i" and ne: "\<not> elected h t" and T: "currentTerm (nodes c i) = t"
    and votes: "\<And>v. is_node ps v \<Longrightarrow> (t, v, i) \<in> h_grants h"
    and l: "l = h_clog h t i" "wf_log h l" "\<forall>e \<in> set l. le_Term e \<le> t"
    and h': "h' = ack t i (length l - 1) (h\<lparr>h_leaders := insert (t, i) (h_leaders h), h_tlog := (h_tlog h)(t := l)\<rparr>)"
  shows "inv_leaders ps h'" "inv_tlog h'" "inv_vote h'" "inv_complete ps h'"
proof -
  from I have gr: "inv_grants ps c h" and sp: "inv_split h" and le: "inv_leaders ps h" and tl: "inv_tlog h"
    and ac: "inv_acks ps c h" and vo: "inv_vote h" and co: "inv_complete ps h" by (simp_all add: inv_def)
  have g: "hist_le h h'" by (rule elect_hist_le [OF ne h'])
  note hg = h' [unfolded ack_def]
  have el: "elected h' u \<longleftrightarrow> u = t \<or> elected h u" for u by (auto simp: hg elected_def)
  have log: "h_tlog h' u = (if u = t then l else h_tlog h u)" for u by (simp add: hg)
  have "(t, v, v) \<notin> h_grants h" if "is_node ps v" "v \<noteq> i" for v
    using sp votes [OF that(1)] ne that(2) unfolding inv_split_def by blast
  then show "inv_leaders ps h'"
    using le i votes unfolding inv_leaders_def by (auto simp: hg)
  show "inv_tlog h'"
    using tl l wf_log_mono [OF g] by (auto simp: inv_tlog_def el log)
  show "inv_vote h'"
    unfolding inv_vote_def
  proof (intro allI impI)
    fix t' v b t0 k
    assume gv: "(t', v, b) \<in> h_grants h'" and a: "(t0, v, k) \<in> h_acks h'" and lt: "t0 < t'"
      and k: "le_Term (h_tlog h' t0 ! k) = t0"
    have gv': "(t', v, b) \<in> h_grants h" "h_clog h' = h_clog h" using gv by (simp_all add: hg)
    have "t' \<le> t" if "v = i" using gv' gr T that unfolding inv_grants_def by blast
    then have a': "(t0, v, k) \<in> h_acks h" using a lt by (auto simp: hg)
    then have "elected h t0" using ac unfolding inv_acks_def by blast
    then have "t0 \<noteq> t" using ne by blast
    then have "agree k (h_tlog h t0) (h_clog h t' b) \<or> overruled h t0 k"
      using vo gv'(1) a' lt k unfolding inv_vote_def log by auto
    then show "agree k (h_tlog h' t0) (h_clog h' t' b) \<or> overruled h' t0 k"
      unfolding gv'(2) by (rule hold_mono [OF I g a'])
  qed
  show "inv_complete ps h'"
    unfolding inv_complete_def
  proof (intro allI impI)
    fix t0 t' k assume ch: "chosen ps h' t0 k" and e: "elected h' t'" and lt: "t0 < t'"
    have "t' \<le> t" if "elected h t'" using elected_term_le [OF I that i] T gr votes [OF i] unfolding inv_grants_def by force
    then have t0: "t0 \<noteq> t" using e lt by (auto simp: el)
    then have ch': "chosen ps h t0 k" using ch by (auto simp: chosen_def quorum_def el log) (simp add: hg)
    show "agree k (h_tlog h' t0) (h_tlog h' t')"
      using t0 co ch' e lt elect_complete [OF I votes ch'] unfolding inv_complete_def log l(1) el by auto
  qed
qed

lemma inv_elect:
  assumes I: "inv ps c h" and i: "is_node ps i" and T: "currentTerm (nodes c i) = t" and pc: "pcs c i = AtLoop"
    and nl: "(t, i) \<notin> h_leaders h" and votes: "\<And>v. is_node ps v \<Longrightarrow> (t, v, i) \<in> h_grants h"
    and n: "node_id n = node_id (nodes c i)" "peers n = peers (nodes c i)" "nlog n = nlog (nodes c i)"
      "lastApplied n = lastApplied (nodes c i)" "commitIndex n = commitIndex (nodes c i)" "currentTerm n = t"
      "votedFor n = votedFor (nodes c i)" "\<And>j. j \<noteq> i \<Longrightarrow> matchIndex n j = 0"
    and h': "h' = ack t i (length (nlog n) - 1)
        (h\<lparr>h_leaders := insert (t, i) (h_leaders h), h_tlog := (h_tlog h)(t := nlog n)\<rparr>)"
  shows "inv ps (set_node i n c) h'"
proof -
  let ?n = "nodes c i" and ?c = "set_node i n c"
  from I have nd: "inv_nodes ps c h" and gr: "inv_grants ps c h" and se: "inv_self c h"
    and ip: "inv_pc c h" and ro: "inv_role c" and le: "inv_leaders ps h"
    and ac: "inv_acks ps c h" and ma: "inv_match ps c h" and ho: "inv_hold c h" by (simp_all add: inv_def)
  have ok: "node_ok ps h i ?n" by (rule inv_node [OF I])
  have self: "(t, i, i) \<in> h_grants h" "1 \<le> t" using votes [OF i] gr unfolding inv_grants_def by blast+
  have ne: "\<not> elected h t" using nl self i le unfolding elected_def inv_leaders_def by auto
  have clog: "nlog n = h_clog h t i" using se self T ne n(3) by (simp add: inv_self_def)
  have g: "hist_le h h'" by (rule elect_hist_le [OF ne h'])
  note hg = h' [unfolded ack_def]
  have same: "h_grants h' = h_grants h" "h_clog h' = h_clog h" by (simp_all add: hg)
  have log: "h_tlog h' u = (if u = t then nlog n else h_tlog h u)" for u by (simp add: hg)
  have neq: "u \<noteq> t" if "(u, b) \<in> h_leaders h" for u b using that ne by (auto simp: elected_def)
  note grow = inv_grow [OF I g same]
  have lead: "h_leaders h' = insert (t, i) (h_leaders h)" by (simp add: hg)
  have "node_ok ps h' i n" using ok n T wf_log_mono [OF g] by (simp add: node_ok_def log lead)
  moreover have "node_ok ps h' v (nodes c v)" for v
    using inv_node(1) [OF I, of v] neq wf_log_mono [OF g] by (auto simp: node_ok_def log lead)
  ultimately have "inv_nodes ps ?c h'" by (simp add: inv_nodes_def)
  moreover have "commit_ok ps h' n (applied c i)"
    using grow(6) n T unfolding inv_commit_def commit_ok_def by metis
  then have "inv_commit ps ?c h'" using grow(6) by (simp add: inv_commit_def)
  moreover have eq: "currentTerm (nodes ?c v) = currentTerm (nodes c v)" "votedFor (nodes ?c v) = votedFor (nodes c v)"
      "nlog (nodes ?c v) = nlog (nodes c v)" for v by (simp_all add: n T)
  have "inv_grants ps ?c h'" "inv_self ?c h'"
    using grow(1,2) unfolding inv_grants_def inv_self_def eq by blast+
  moreover have "inv_rv ps ?c h'" "inv_ae ps ?c h'" using grow(4,5) by (simp_all add: inv_rv_def inv_ae_def)
  moreover have "inv_pc ?c h'"
    using ip pc by (auto simp: inv_pc_def counted_def hg)
  moreover have "inv_role ?c" using ro pc by (auto simp: inv_role_def)
  moreover have "inv_acks ps ?c h'"
  proof (rule acks_grow [OF ac g])
    show "h_acks h' = h_acks h \<union> {(t, i, k) | k. k \<le> length (nlog n) - 1}" by (simp add: hg)
    show "length (nlog n) - 1 < length (h_tlog h' t)" using ok n(3) by (auto simp: log node_ok_def wf_log_def)
    show "(u, b, length (h_tlog h' u) - 1) \<in> h_acks h'" if "(u, b) \<in> h_leaders h'" for u b
      using that ac neq by (auto simp: inv_acks_def hg)
  qed (use i self(2) T n(6) in \<open>auto simp: elected_def lead\<close>)
  moreover have "inv_match ps ?c h'" using ma n(8) g unfolding inv_match_def by (auto simp: hist_le_def)
  moreover have "inv_hold ?c h'"
    unfolding inv_hold_def
  proof (intro allI impI)
    fix u v k assume a: "(u, v, k) \<in> h_acks h'"
    show "agree k (h_tlog h' u) (nlog (nodes ?c v)) \<or> overruled h' u k"
    proof (cases "(u, v, k) \<in> h_acks h")
      case True
      then have "agree k (h_tlog h u) (nlog (nodes ?c v)) \<or> overruled h u k"
        using ho unfolding inv_hold_def eq by blast
      then show ?thesis by (rule hold_mono [OF I g True])
    next
      case False
      then have "u = t" "v = i" "k \<le> length (nlog n) - 1" using a by (auto simp: hg)
      moreover have "0 < length (nlog n)" using ok n(3) by (auto simp: node_ok_def wf_log_def)
      ultimately have "agree k (nlog n) (nlog n)" by (intro agree_refl) linarith
      then show ?thesis using \<open>u = t\<close> \<open>v = i\<close> by (simp add: log)
    qed
  qed
  moreover have wl: "wf_log h (nlog n)" "\<forall>e \<in> set (nlog n). le_Term e \<le> t" using ok n(3) T by (simp_all add: node_ok_def)
  ultimately show ?thesis
    using grow(3) elect_history [OF I i ne T votes clog wl h'] by (simp add: inv_def)
qed

lemma candidateOnReply_cases:
  assumes "candidateOnReply t k r n = (n', out)"
  obtains (down) "t < rvr_Term r" "n' = becomeFollowerLocked (rvr_Term r) n" "out = SteppedDown"
  | (won) "votesNeeded n \<le> (if rvr_VoteGranted r then k + 1 else k)" "state n = Candidate" "currentTerm n = t"
      "n' = becomeLeaderLocked n" "out = Elected"
  | (wait) "n' = n" "out = Waiting (if rvr_VoteGranted r then k + 1 else k)"
proof (cases "t < rvr_Term r")
  case True
  with assms have "n' = becomeFollowerLocked (rvr_Term r) n" "out = SteppedDown"
    by (auto simp: candidateOnReply_def)
  with True show ?thesis by (rule down)
next
  case no: False
  define v where "v = (if rvr_VoteGranted r then k + 1 else k)"
  have eq: "(if votesNeeded n \<le> v \<and> state n = Candidate \<and> currentTerm n = t then (becomeLeaderLocked n, Elected)
      else (n, Waiting v)) = (n', out)"
    using assms no unfolding candidateOnReply_def Let_def v_def by simp
  show ?thesis
  proof (cases "votesNeeded n \<le> v \<and> state n = Candidate \<and> currentTerm n = t")
    case True
    then have "n' = becomeLeaderLocked n" "out = Elected" using eq by auto
    with True show ?thesis unfolding v_def by (intro won) auto
  next
    case False
    then have "n' = n" "out = Waiting v" using eq by auto
    then show ?thesis unfolding v_def by (rule wait)
  qed
qed

lemma set_pc_set_node: "set_pc i p (set_node j n c) = set_node j n (set_pc i p c)"
  by (cases c) (simp add: set_node_def set_pc_def)

lemma set_node_same: "nodes c i = n \<Longrightarrow> set_node i n c = c"
  by (auto simp: set_node_def)

lemma inv_receiveVoteReply:
  assumes I: "inv ps c h" and i: "is_node ps i" and n3: "length ps \<le> 3" and s: "receiveVoteReply i t j r c = Some c'"
  shows "inv ps c' (hist (ReceiveVoteReply i t j r) c h)"
proof -
  let ?n = "nodes c i" and ?c = "c\<lparr>rvReps := remove1 (i, t, j, r) (rvReps c)\<rparr>"
  obtain k where m: "(i, t, j, r) \<in> set (rvReps c)" and k: "pcs c i = InCandidate t k"
    using s by (auto simp: receiveVoteReply_def split: if_splits runPC.splits)
  obtain n out where R: "candidateOnReply t k r ?n = (n, out)" by (cases "candidateOnReply t k r ?n")
  from I have ip: "inv_pc c h" and gr: "inv_grants ps c h" and rv: "inv_rv ps c h" by (simp_all add: inv_def)
  have pc: "(t, i, i) \<in> h_grants h" "\<And>u. (u, i, i) \<in> h_grants h \<Longrightarrow> u \<le> t" "(t, i) \<notin> h_leaders h"
    "k \<le> int (card (counted c h t i))" using ip k by (auto simp: inv_pc_def)
  have J: "inv ps (set_pc i AtLoop ?c) h" by (rule inv_takeReply [OF I m k, of AtLoop]) simp_all
  from R show ?thesis
  proof (cases rule: candidateOnReply_cases)
    case down
    have "t \<le> currentTerm ?n" using gr pc(1) unfolding inv_grants_def by blast
    then have "rvr_Term r > currentTerm ?n \<or> (currentTerm ?n, i, i) \<notin> h_grants h" using down(1) pc(2) by force
    then have "inv ps (set_node i n (set_pc i AtLoop ?c)) h"
      using inv_stepDown [OF J, of i "rvr_Term r"] down(2) by auto
    moreover have "c' = set_node i n (set_pc i AtLoop ?c)"
      using s m k R down by (simp add: receiveVoteReply_def Let_def set_pc_set_node)
    ultimately show ?thesis using k R down by simp
  next
    case won
    let ?m = "signalAllReplications (becomeLeaderLocked ?n)"
    have c': "c' = set_node i ?m (set_pc i AtLoop ?c)"
      using s m k R won by (simp add: receiveVoteReply_def Let_def set_pc_set_node)
    have "peers ?n = ps" using inv_node(1) [OF I, of i] by (simp add: node_ok_def)
    then have "(len ps + 1) div 2 + 1 \<le> int (card (counted ?c h t i))"
      using receive_counted [OF rv m gr _ pc(4), of ?c] won(1) by (simp add: votesNeeded_def)
    then have votes: "\<And>v. is_node ps v \<Longrightarrow> (t, v, i) \<in> h_grants h" by (rule votesNeeded_all [OF gr n3])
    have "inv ps (set_node i ?m (set_pc i AtLoop ?c)) (ack t i (length (nlog ?m) - 1)
        (h\<lparr>h_leaders := insert (t, i) (h_leaders h), h_tlog := (h_tlog h)(t := nlog ?m)\<rparr>))"
      by (rule inv_elect [OF J i _ _ pc(3) votes])
        (use won inv_node(1) [OF I, of i] in \<open>simp_all add: becomeLeaderLocked_def Let_def node_ok_def\<close>)
    then show ?thesis using k R won by (simp add: c' becomeLeaderLocked_def Let_def)
  next
    case wait
    have "c' = set_pc i (InCandidate t (if rvr_VoteGranted r then k + 1 else k)) ?c"
      using s m k R wait by (simp add: receiveVoteReply_def Let_def set_node_same)
    then have "inv ps c' h" by (intro inv_takeReply [OF I m k]) simp_all
    then show ?thesis using k R wait by simp
  qed
qed

end
