(* ===== verification/RaftLogSteps.thy ===== *)
theory RaftLogSteps
  imports RaftElect
begin

text \<open>
  Preservation of the safety invariant by the steps that change a log, \<open>HandleAppendEntries\<close> and
  \<open>Submit\<close>, and with that by every step of the cluster.
\<close>

section \<open>The follower's log\<close>

text \<open>
  What the loop of \<open>HandleAppendEntries\<close> computes when the entries are a section of a leader's log \<open>L\<close>
  that follows a common prefix: the log is kept if it contains them and is otherwise the prefix of \<open>L\<close>
  that ends with them.
\<close>

lemma take_drop_Cons:
  assumes "take (Suc k) (drop q L) = e # es" "length (e # es) = Suc k"
  shows "q < length L" "L ! q = e" "take k (drop (Suc q) L) = es"
proof -
  show q: "q < length L" using assms by (cases "q < length L") auto
  show "L ! q = e" "take k (drop (Suc q) L) = es"
    using assms(1) q by (simp_all add: Cons_nth_drop_Suc [symmetric])
qed

lemma agree_Suc: "agree (Suc q) xs ys \<longleftrightarrow> agree q xs ys \<and> Suc q < length xs \<and> Suc q < length ys \<and> xs ! Suc q = ys ! Suc q"
  by (auto simp: agree_def le_Suc_eq)

lemma agree_take_eq:
  assumes "agree q xs ys"
  shows "take (Suc q) xs = take (Suc q) ys"
  using assms by (intro nth_equalityI) (auto simp: agree_def)

lemma appendLoop_spec:
  assumes "wf_log h l" "wf_log h L" "agree (p + i) l L" "take (length es) (drop (Suc (p + i)) L) = es"
  shows "appendLoop (int p) (int i) es l
    = Some (if agree (p + i + length es) l L then l else take (Suc (p + i + length es)) L)"
  using assms
proof (induction es arbitrary: i l)
  case Nil
  then show ?case by simp
next
  case (Cons e es)
  let ?q = "Suc (p + i)"
  have L: "?q < length L" "L ! ?q = e" "take (length es) (drop (Suc ?q) L) = es"
    using take_drop_Cons [of "length es" ?q L e es] Cons.prems(4) by simp_all
  have idx: "nat (int p + int i + 1) = ?q" "int p + int i + 1 < len l \<longleftrightarrow> ?q < length l" by (auto simp: len_def)
  have nxt: "int (Suc i) = int i + 1" "p + Suc i = ?q" by simp_all
  note IH = Cons.IH [where i = "Suc i", unfolded nxt]
  have l: "p + i < length l" using Cons.prems(3) by (rule agree_length [THEN conjunct1])
  show ?case
  proof (cases "?q < length l \<and> le_Term (l ! ?q) = le_Term e")
    case True
    then have "agree ?q l L" using L Cons.prems(1,2) by (intro log_matching) auto
    then have "appendLoop (int p) (int i + 1) es l
        = Some (if agree (?q + length es) l L then l else take (Suc (?q + length es)) L)"
      using IH [of l] Cons.prems(1,2) L(3) by simp
    then show ?thesis using True idx by (simp add: at_def)
  next
    case False
    have step: "appendLoop (int p) (int i) (e # es) l = appendLoop (int p) (int i + 1) es (take (Suc ?q) L)"
    proof -
      have "take ?q l = take ?q L" by (rule agree_take_eq [OF Cons.prems(3)])
      then have "take ?q l @ [e] = take (Suc ?q) L" using L by (simp add: take_Suc_conv_app_nth)
      moreover have "take ?q l = l" if "\<not> ?q < length l" using that by simp
      ultimately show ?thesis using False idx by (auto simp: at_def Let_def)
    qed
    have "agree ?q (take (Suc ?q) L) L" using L by (intro agree_take) auto
    moreover have "wf_log h (take (Suc ?q) L)" using Cons.prems(2) by (simp add: wf_log_take)
    ultimately have "appendLoop (int p) (int i + 1) es (take (Suc ?q) L)
        = Some (if agree (?q + length es) (take (Suc ?q) L) L then take (Suc ?q) L else take (Suc (?q + length es)) L)"
      using IH [of "take (Suc ?q) L"] Cons.prems(2) L(3) by simp
    moreover have "es = []" if "agree (?q + length es) (take (Suc ?q) L) L"
      using agree_length [OF that] by simp
    moreover have "\<not> agree (?q + length es) l L"
      using False L(2) agree_nth [of "?q + length es" l L ?q] agree_length [of "?q + length es" l L] by auto
    ultimately show ?thesis unfolding step by auto
  qed
qed

text \<open>The log \<open>l'\<close> that replaces \<open>l\<close>: it agrees with \<open>L\<close> up to \<open>q\<close> and with \<open>l\<close> wherever \<open>l\<close> agrees with \<open>L\<close>.\<close>

definition spliced :: "nat \<Rightarrow> LogEntry list \<Rightarrow> LogEntry list \<Rightarrow> LogEntry list" where
  "spliced q L l = (if agree q l L then l else take (Suc q) L)"

lemma spliced_agree: "q < length L \<Longrightarrow> agree q (spliced q L l) L"
  by (auto simp: spliced_def intro: agree_take)

lemma spliced_keeps:
  assumes "agree x l L" "q < length L"
  shows "agree x l (spliced q L l)"
proof (cases "agree q l L")
  case True
  then show ?thesis using assms agree_length [OF assms(1)] by (simp add: spliced_def agree_refl)
next
  case False
  then have "x < q" using assms(1) agree_le [OF assms(1), of q] by (meson not_le_imp_less)
  then have "agree x L (take (Suc q) L)" using assms(2) by (intro agree_take [THEN agree_sym]) auto
  with False assms(1) show ?thesis by (auto simp: spliced_def intro: agree_trans)
qed

lemma wf_spliced: "wf_log h l \<Longrightarrow> wf_log h L \<Longrightarrow> wf_log h (spliced q L l)"
  by (simp add: spliced_def wf_log_take)

lemma set_spliced: "set (spliced q L l) \<subseteq> set l \<union> set L"
  by (auto simp: spliced_def dest: in_set_takeD)

lemma spliced_hold:
  assumes old: "agree k M l \<or> overruled h t k" and M: "M = h_tlog h t" "k < length M"
    and T: "elected h T" "t \<le> T" and L: "L = h_tlog h T" "q < length L"
  shows "agree k M (spliced q L l) \<or> overruled h t k"
proof (cases "agree k M L")
  case True
  from old show ?thesis
  proof
    assume a: "agree k M l"
    have "agree k l L" by (rule agree_trans [OF agree_sym [OF a] True])
    then have "agree k l (spliced q L l)" using L(2) by (rule spliced_keeps)
    with a show ?thesis by (blast intro: agree_trans)
  qed simp
next
  case False
  have "t \<noteq> T" using False M L(1) by (auto simp: agree_refl)
  with False T M(1) L(1) show ?thesis by (auto simp: overruled_def)
qed

text \<open>A committed prefix is a prefix of the log of every later leader.\<close>

lemma committed_tlog:
  assumes I: "inv ps c h" and x: "committed ps h t x l" and T: "elected h T" "t \<le> T" and wl: "wf_log h l"
  shows "agree (nat x) l (h_tlog h T)"
proof (cases "x = 0")
  case True
  have "wf_log h (h_tlog h T)" using I T by (simp add: inv_def inv_tlog_def)
  with wl True show ?thesis by (auto simp: wf_log_def intro: log_matching [OF wl])
next
  case False
  then obtain t0 i0 where t0: "t0 \<le> t" "chosen ps h t0 i0" "nat x \<le> i0" "agree (nat x) (h_tlog h t0) l"
    using x by (auto simp: committed_def)
  have "agree i0 (h_tlog h t0) (h_tlog h T)"
  proof (cases "t0 = T")
    case True
    then show ?thesis using t0(2) by (auto simp: chosen_def intro: agree_refl)
  next
    case False
    then show ?thesis using I t0 T unfolding inv_def inv_complete_def by auto
  qed
  then have "agree (nat x) (h_tlog h t0) (h_tlog h T)" using t0(3) by (rule agree_le)
  with t0(4) show ?thesis by (blast intro: agree_trans agree_sym)
qed

lemma agree_take_tl:
  assumes "agree x l l'" "m \<le> x"
  shows "take m (tl l) = take m (tl l')"
  using assms by (intro nth_equalityI) (auto simp: agree_def nth_tl)

lemma ack_hist_le: "hist_le h (ack t v m h)"
  by (simp add: hist_le_def ack_def)

lemma ack_simps [simp]:
  "h_grants (ack t v m h) = h_grants h" "h_clog (ack t v m h) = h_clog h" "h_leaders (ack t v m h) = h_leaders h"
  "h_tlog (ack t v m h) = h_tlog h" "h_acks (ack t v m h) = h_acks h \<union> {(t, v, i) | i. i \<le> m}"
  "elected (ack t v m h) u = elected h u" "wf_log (ack t v m h) l = wf_log h l"
  "overruled (ack t v m h) u i = overruled h u i"
  by (simp_all add: ack_def elected_def wf_log_def overruled_def)

text \<open>New acknowledgements in the last elected term threaten neither the votes nor completeness.\<close>

lemma ack_vote_complete:
  assumes I: "inv ps c h" and v: "is_node ps v" and T: "currentTerm (nodes c v) \<le> t"
  shows "inv_vote (ack t v m h)" "inv_complete ps (ack t v m h)"
proof -
  from I have gr: "inv_grants ps c h" and vo: "inv_vote h" and co: "inv_complete ps h" by (simp_all add: inv_def)
  have "u \<le> t" if "(u, v, b) \<in> h_grants h" for u b using gr that T unfolding inv_grants_def by fastforce
  then show "inv_vote (ack t v m h)" using vo unfolding inv_vote_def by fastforce
  show "inv_complete ps (ack t v m h)"
    unfolding inv_complete_def
  proof (intro allI impI)
    fix t0 t' i assume ch: "chosen ps (ack t v m h) t0 i" and e: "elected (ack t v m h) t'" and lt: "t0 < t'"
    have "0 \<le> currentTerm (nodes c v)" using inv_node(1) [OF I, of v] by (simp add: node_ok_def)
    then have "t' \<le> t" using elected_term_le [OF I _ v] e T by force
    then have "chosen ps h t0 i" using ch lt by (simp add: chosen_def quorum_def)
    with co e lt show "agree i (h_tlog (ack t v m h) t0) (h_tlog (ack t v m h) t')" by (simp add: inv_complete_def)
  qed
qed

section \<open>An AppendEntries request is accepted\<close>

lemma accept_hold:
  assumes I: "inv ps c h" and e: "elected h T" and T: "currentTerm (nodes c j) = T" and q: "q < length (h_tlog h T)"
    and n: "nlog n = spliced q (h_tlog h T) (nlog (nodes c j))"
  shows "inv_hold (set_node j n c) (ack T j q h)"
  unfolding inv_hold_def
proof (intro allI impI)
  fix t v k assume a: "(t, v, k) \<in> h_acks (ack T j q h)"
  from I have ac: "inv_acks ps c h" and ho: "inv_hold c h" by (simp_all add: inv_def)
  show "agree k (h_tlog (ack T j q h) t) (nlog (nodes (set_node j n c) v)) \<or> overruled (ack T j q h) t k"
  proof (cases "(t, v, k) \<in> h_acks h")
    case True
    then have old: "agree k (h_tlog h t) (nlog (nodes c v)) \<or> overruled h t k" "k < length (h_tlog h t)"
      "t \<le> currentTerm (nodes c v)" using ho ac unfolding inv_hold_def inv_acks_def by blast+
    show ?thesis
    proof (cases "v = j")
      case True
      then have "t \<le> T" using old(3) T by simp
      then show ?thesis
        using spliced_hold [OF old(1) refl old(2) e _ refl q] True by (simp add: n)
    qed (use old(1) in simp)
  next
    case False
    then have "t = T" "v = j" "k \<le> q" using a by auto
    moreover have "agree q (h_tlog h T) (nlog n)" unfolding n by (rule spliced_agree [OF q, THEN agree_sym])
    ultimately show ?thesis by (auto intro: agree_le)
  qed
qed

text \<open>Node \<open>j\<close>, a follower in the leader's term \<open>T\<close>, takes over the leader's log up to \<open>q\<close>.\<close>

lemma inv_accept:
  assumes I: "inv ps c h" and j: "is_node ps j" and T: "currentTerm (nodes c j) = T" "state (nodes c j) \<noteq> Leader"
    and e: "elected h T" "1 \<le> T" and q: "q < length (h_tlog h T)"
    and n: "node_id n = node_id (nodes c j)" "peers n = peers (nodes c j)" "nlog n = spliced q (h_tlog h T) (nlog (nodes c j))"
      "lastApplied n = lastApplied (nodes c j)" "currentTerm n = T" "state n \<noteq> Leader"
    and x: "commitIndex n = commitIndex (nodes c j) \<or>
      commitIndex (nodes c j) \<le> commitIndex n \<and> nat (commitIndex n) \<le> q \<and> committed ps h T (commitIndex n) (h_tlog h T)"
  shows "inv ps (set_node j n c) (ack T j q h)"
proof -
  let ?n = "nodes c j" and ?c = "set_node j n c" and ?L = "h_tlog h T" and ?h = "ack T j q h"
  from I have gr: "inv_grants ps c h" and se: "inv_self c h" and ac: "inv_acks ps c h" and ho: "inv_hold c h"
    and tl: "inv_tlog h" by (simp_all add: inv_def)
  have ok: "node_ok ps h j ?n" "commit_ok ps h ?n (applied c j)" by (rule inv_node [OF I])+
  have wl: "wf_log h (nlog ?n)" "wf_log h ?L" using ok(1) tl e(1) by (simp_all add: node_ok_def inv_tlog_def)
  have cur: "currentTerm (nodes ?c v) = currentTerm (nodes c v)" for v by (simp add: n T)
  note grow = inv_grow [OF I ack_hist_le, of T j q, simplified]
  have keep: "agree (nat (commitIndex ?n)) (nlog ?n) (nlog n)"
    unfolding n(3) using ok(2) wl T q e(1)
    by (intro spliced_keeps committed_tlog [OF I, of T]) (auto simp: commit_ok_def)
  have "committed ps h T (commitIndex n) (nlog n)"
  proof (cases "commitIndex n = commitIndex ?n")
    case True
    with ok(2) T keep show ?thesis by (auto simp: commit_ok_def intro: committed_agree)
  next
    case False
    with x have c: "nat (commitIndex n) \<le> q" "committed ps h T (commitIndex n) ?L" by auto
    have "agree (nat (commitIndex n)) ?L (nlog n)"
      unfolding n(3) by (rule agree_le [OF agree_sym [OF spliced_agree [OF q]] c(1)])
    with c(2) show ?thesis by (rule committed_agree)
  qed
  then have "commit_ok ps ?h n (applied c j)"
    using ok(2) n x agree_take_tl [OF keep, of "nat (lastApplied ?n)"] committed_mono [OF ack_hist_le]
    by (auto simp: commit_ok_def)
  then have "inv_commit ps ?c ?h" using grow(6) by (simp add: inv_commit_def)
  moreover have "node_ok ps ?h j n"
    using ok(1) n T wl tl e(1) set_spliced [of q ?L "nlog ?n"] by (auto simp: node_ok_def wf_spliced inv_tlog_def)
  then have "inv_nodes ps ?c ?h" using I by (auto simp: inv_def inv_nodes_def node_ok_def)
  moreover have "inv_self ?c ?h" using grow(2) e(1) T(1) n(5) by (auto simp: inv_self_def)
  moreover have "inv_grants ps ?c ?h" using grow(1) unfolding inv_grants_def cur .
  moreover have "inv_acks ps ?c ?h"
    by (rule acks_grow [OF ac ack_hist_le, where t = T and v = j and m = q])
      (use j e T n(5) q ac in \<open>auto simp: inv_acks_def\<close>)
  moreover have "inv_match ps ?c ?h" "inv_role ?c" "inv_pc ?c ?h"
    using I n(6) by (auto simp: inv_def inv_match_def inv_role_def inv_pc_def counted_def)
  moreover have "inv_hold ?c ?h" by (rule accept_hold [OF I e(1) T(1) q n(3)])
  moreover have "inv_rv ps ?c ?h" "inv_ae ps ?c ?h" using grow(4,5) by (simp_all add: inv_rv_def inv_ae_def)
  moreover have "inv_vote ?h" "inv_complete ps ?h" by (rule ack_vote_complete [OF I j]; simp add: T)+
  moreover have "inv_leaders ps ?h" "inv_tlog ?h" "inv_split ?h"
    using I by (simp_all add: inv_def inv_leaders_def inv_tlog_def inv_split_def)
  ultimately show ?thesis by (simp add: inv_def)
qed

lemma HandleAppendEntries_cases:
  assumes H: "HandleAppendEntries a n = Some (n', r)" and p: "ae_PrevLogIndex a = int p"
  obtains (stale) "ae_Term a < currentTerm n" "n' = n" "\<not> aer_Success r"
  | (rejected) m where "currentTerm n \<le> ae_Term a" "\<not> aer_Success r"
      "m = (becomeFollowerLocked (ae_Term a) n)\<lparr>leaderID := ae_LeaderId a, heartbeatCh := signal 100 (heartbeatCh n)\<rparr>"
      "n' = m"
  | (accepted) m l where "currentTerm n \<le> ae_Term a" "aer_Success r"
      "m = (becomeFollowerLocked (ae_Term a) n)\<lparr>leaderID := ae_LeaderId a, heartbeatCh := signal 100 (heartbeatCh n)\<rparr>"
      "p < length (nlog n)" "le_Term (nlog n ! p) = ae_PrevLogTerm a"
      "appendLoop (int p) 0 (ae_Entries a) (nlog n) = Some l"
      "n' = (if ae_LeaderCommit a > commitIndex n
             then notifyCommitAdvance (m\<lparr>nlog := l, commitIndex := min (ae_LeaderCommit a) (len l - 1)\<rparr>)
             else m\<lparr>nlog := l\<rparr>)"
proof (cases "ae_Term a < currentTerm n")
  case True
  then have "n' = n" "\<not> aer_Success r" using H by (auto simp: HandleAppendEntries_def)
  with True show ?thesis by (rule stale)
next
  case False
  define m where
    "m = (becomeFollowerLocked (ae_Term a) n)\<lparr>leaderID := ae_LeaderId a, heartbeatCh := signal 100 (heartbeatCh n)\<rparr>"
  have m: "nlog m = nlog n" "commitIndex m = commitIndex n" by (simp_all add: m_def becomeFollowerLocked_def)
  have hb: "heartbeatCh (becomeFollowerLocked (ae_Term a) n) = heartbeatCh n" by (simp add: becomeFollowerLocked_def)
  have le: "currentTerm n \<le> ae_Term a" using False by simp
  show ?thesis
  proof (cases "p < length (nlog n) \<and> le_Term (nlog n ! p) = ae_PrevLogTerm a")
    case ok: True
    then obtain l where l: "appendLoop (int p) 0 (ae_Entries a) (nlog n) = Some l"
      using H False p by (auto simp: HandleAppendEntries_def Let_def at_def len_def becomeFollowerLocked_def split: option.splits)
    have "aer_Success r" "n' = (if ae_LeaderCommit a > commitIndex n
             then notifyCommitAdvance (m\<lparr>nlog := l, commitIndex := min (ae_LeaderCommit a) (len l - 1)\<rparr>)
             else m\<lparr>nlog := l\<rparr>)"
      using H False p ok l m hb
      by (auto simp: HandleAppendEntries_def Let_def at_def len_def m_def)
    with le m_def ok l show ?thesis by (intro accepted) auto
  next
    case no: False
    have "\<not> aer_Success r" "n' = m"
      using H False p no m hb by (auto simp: HandleAppendEntries_def Let_def at_def len_def m_def split: if_splits)
    with le m_def show ?thesis by (intro rejected) auto
  qed
qed

lemma inv_ae_answer:
  assumes I: "inv ps c h" and m: "(i, j, a) \<in> set (aeReqs c)" "i \<noteq> j" "is_node ps j" "ae_msg ps h i a"
    and r: "aer_Success r \<Longrightarrow> (ae_Term a, j, nat (ae_PrevLogIndex a + len (ae_Entries a))) \<in> h_acks h"
  shows "inv ps (c\<lparr>aeReqs := remove1 (i, j, a) (aeReqs c), aeReps := (i, j, a, r) # aeReps c\<rparr>) h"
    (is "inv ps ?c h")
proof (rule inv_ae_cong [OF I])
  have ae: "inv_ae ps c h" using I by (simp add: inv_def)
  have sub: "set (aeReqs ?c) \<subseteq> set (aeReqs c)" by (simp add: set_remove1_subset)
  have reps: "set (aeReps ?c) = insert (i, j, a, r) (set (aeReps c))" by simp
  show "inv_ae ps ?c h"
    using ae sub m(2-4) r unfolding inv_ae_def reps by blast
qed simp_all

text \<open>The log a follower has after accepting a request of the leader of \<open>ae_Term a\<close>.\<close>

lemma accepted_log:
  assumes I: "inv ps c h" and msg: "ae_msg ps h i a" and p: "ae_PrevLogIndex a = int p"
    and acc: "p < length (nlog (nodes c j))" "le_Term (nlog (nodes c j) ! p) = ae_PrevLogTerm a"
    and q: "q = p + length (ae_Entries a)"
  shows "q < length (h_tlog h (ae_Term a))"
    "appendLoop (int p) 0 (ae_Entries a) (nlog (nodes c j)) = Some (spliced q (h_tlog h (ae_Term a)) (nlog (nodes c j)))"
    "ae_LeaderCommit a \<le> len (spliced q (h_tlog h (ae_Term a)) (nlog (nodes c j))) - 1"
    "nat (ae_LeaderCommit a) \<le> q" "committed ps h (ae_Term a) (ae_LeaderCommit a) (h_tlog h (ae_Term a))"
proof -
  let ?L = "h_tlog h (ae_Term a)" and ?l = "nlog (nodes c j)"
  from msg p have L: "elected h (ae_Term a)" "p < length ?L" "ae_PrevLogTerm a = le_Term (?L ! p)"
      "take (length (ae_Entries a)) (drop (Suc p) ?L) = ae_Entries a"
    and lc: "ae_LeaderCommit a \<le> int q" "committed ps h (ae_Term a) (ae_LeaderCommit a) ?L"
    by (auto simp: ae_msg_def elected_def q)
  have wl: "wf_log h ?l" "wf_log h ?L"
    using I inv_node(1) [OF I, of j] L(1) by (simp_all add: node_ok_def inv_def inv_tlog_def)
  have "length (ae_Entries a) \<le> length ?L - Suc p" using arg_cong [OF L(4), of length] by simp
  then show q': "q < length ?L" using L(2) by (simp add: q)
  have "agree p ?l ?L" using wl acc L by (intro log_matching) auto
  then show "appendLoop (int p) 0 (ae_Entries a) ?l = Some (spliced q ?L ?l)"
    using appendLoop_spec [OF wl, of p 0 "ae_Entries a"] L(4) by (simp add: spliced_def q)
  show "ae_LeaderCommit a \<le> len (spliced q ?L ?l) - 1"
    using lc(1) agree_length [OF spliced_agree [OF q', of ?l]] by (simp add: len_def)
  show "nat (ae_LeaderCommit a) \<le> q" "committed ps h (ae_Term a) (ae_LeaderCommit a) ?L" using lc by simp_all
qed

lemma aeReqsD:
  assumes "inv ps c h" "(i, j, a) \<in> set (aeReqs c)"
  obtains p where "i \<noteq> j" "is_node ps j" "ae_msg ps h i a" "ae_PrevLogIndex a = int p" "elected h (ae_Term a)" "1 \<le> ae_Term a"
proof -
  have m: "i \<noteq> j" "is_node ps j" "ae_msg ps h i a" using assms by (auto simp: inv_def inv_ae_def)
  then have L: "(ae_Term a, i) \<in> h_leaders h" by (simp add: ae_msg_def)
  then have "elected h (ae_Term a)" "1 \<le> ae_Term a"
    using m(2) assms(1) unfolding inv_def inv_leaders_def inv_grants_def elected_def by blast+
  with m that show ?thesis by (auto simp: ae_msg_def)
qed

lemma inv_deliverAppend:
  assumes I: "inv ps c h" and s: "deliverAppend i j a c = Some c'"
  shows "inv ps c' (hist (DeliverAppend i j a) c h)"
proof -
  from s obtain n r where m: "(i, j, a) \<in> set (aeReqs c)" and H: "HandleAppendEntries a (nodes c j) = Some (n, r)"
    and c': "c' = (set_node j n c)\<lparr>aeReqs := remove1 (i, j, a) (aeReqs c), aeReps := (i, j, a, r) # aeReps c\<rparr>"
    by (auto simp: deliverAppend_def split: if_splits option.splits)
  let ?n = "nodes c j" and ?T = "ae_Term a" and ?L = "h_tlog h (ae_Term a)"
  obtain p where msg: "i \<noteq> j" "is_node ps j" "ae_msg ps h i a" and p: "ae_PrevLogIndex a = int p"
    and e: "elected h ?T" "1 \<le> ?T" using I m by (rule aeReqsD)
  let ?m = "(becomeFollowerLocked ?T ?n)\<lparr>leaderID := ae_LeaderId a, heartbeatCh := signal 100 (heartbeatCh ?n)\<rparr>"
  have J: "inv ps (set_node j ?m c) h" if "currentTerm ?n \<le> ?T"
    by (rule inv_set_node_quiet [OF I]) (use that e(1) in \<open>auto simp: becomeFollowerLocked_def split: if_splits\<close>)
  from H p show ?thesis
  proof (cases rule: HandleAppendEntries_cases)
    case stale
    then show ?thesis using inv_ae_answer [OF I m msg, of r] H by (simp add: c' set_node_same)
  next
    case (rejected x)
    then show ?thesis using inv_ae_answer [OF J, of i j a r] m msg H by (simp add: c')
  next
    case (accepted x l)
    let ?q = "p + length (ae_Entries a)"
    note al = accepted_log [OF I msg(3) p accepted(4,5) refl]
    have l: "l = spliced ?q ?L (nlog ?n)" using al(2) accepted(6) by simp
    have nat: "nat (ae_PrevLogIndex a + len (ae_Entries a)) = ?q" using p by (simp add: len_def)
    have "inv ps (set_node j n (set_node j x c)) (ack ?T j ?q h)"
      by (rule inv_accept [OF J [OF accepted(1), folded accepted(3)] msg(2)])
        (use accepted e l al in \<open>auto simp: becomeFollowerLocked_def min_absorb1\<close>)
    then have K: "inv ps (set_node j n c) (ack ?T j ?q h)" by simp
    have "inv ps c' (ack ?T j ?q h)"
      unfolding c'
      using inv_ae_answer [OF K, of i j a r] m msg(1,2) ae_msg_mono [OF ack_hist_le msg(3)] nat by simp
    then show ?thesis using H accepted(2) nat by simp
  qed
qed

section \<open>A command is submitted to the leader\<close>

lemma wf_log_snoc:
  assumes wl: "wf_log h l" and e: "elected h (le_Term x)" and tl: "h_tlog h (le_Term x) = l @ [x]"
    and ix: "le_Index x = int (length l)" and le: "\<forall>y \<in> set l. le_Term y \<le> le_Term x"
  shows "wf_log h (l @ [x])"
proof -
  have "l \<noteq> []" using wl by (simp add: wf_log_def)
  moreover have "elected h (le_Term ((l @ [x]) ! i)) \<and> agree i (l @ [x]) (h_tlog h (le_Term ((l @ [x]) ! i)))
      \<and> le_Index ((l @ [x]) ! i) = int i" if i: "i < Suc (length l)" for i
  proof (cases "i < length l")
    case True
    with wl show ?thesis unfolding wf_log_def
      by (auto simp: nth_append intro: agree_trans [OF agree_append(2)])
  next
    case False
    then have "i = length l" using i by simp
    then show ?thesis using e tl ix by (simp add: agree_refl)
  qed
  moreover have "le_Term ((l @ [x]) ! i) \<le> le_Term ((l @ [x]) ! j)" if "i \<le> j" "j < Suc (length l)" for i j
    using that wl le by (auto simp: wf_log_def nth_append less_Suc_eq)
  ultimately show ?thesis using wl by (auto simp: wf_log_def nth_append)
qed

lemma submit_hist_le:
  assumes "le_Term x = t" "h' = ack t i m (h\<lparr>h_tlog := (h_tlog h)(t := h_tlog h t @ [x])\<rparr>)"
  shows "hist_le h h'"
  using assms by (auto simp: hist_le_def ack_def)

text \<open>The history after a submission to \<open>i\<close>, the leader of \<open>t\<close>; no later term has a leader.\<close>

lemma submit_history:
  assumes I: "inv ps c h" and i: "is_node ps i" and T: "currentTerm (nodes c i) = t" and e: "elected h t"
    and x: "le_Term x = t" "le_Index x = len (h_tlog h t)"
    and h': "h' = ack t i m (h\<lparr>h_tlog := (h_tlog h)(t := h_tlog h t @ [x])\<rparr>)"
  shows "inv_leaders ps h'" "inv_tlog h'" "inv_vote h'" "inv_complete ps h'"
proof -
  from I have gr: "inv_grants ps c h" and le: "inv_leaders ps h" and tl: "inv_tlog h"
    and ac: "inv_acks ps c h" and vo: "inv_vote h" and co: "inv_complete ps h" by (simp_all add: inv_def)
  have g: "hist_le h h'" by (rule submit_hist_le [OF x(1) h'])
  note hg = h' [unfolded ack_def]
  have el: "elected h' u \<longleftrightarrow> elected h u" for u by (auto simp: hg elected_def)
  have last: "u \<le> t" if "elected h u" for u
    using elected_term_le [OF I that i] T inv_node(1) [OF I, of i] by (simp add: node_ok_def)
  have log: "h_tlog h' u = (if u = t then h_tlog h t @ [x] else h_tlog h u)" for u by (simp add: hg)
  show "inv_leaders ps h'" using le by (simp add: inv_leaders_def hg)
  have "wf_log h' (h_tlog h t @ [x])"
    using tl e x by (intro wf_log_snoc wf_log_mono [OF g]) (auto simp: inv_tlog_def el log len_def)
  then show "inv_tlog h'"
    using tl x wf_log_mono [OF g] by (auto simp: inv_tlog_def el log)
  show "inv_vote h'"
    unfolding inv_vote_def
  proof (intro allI impI)
    fix t' v b t0 k
    assume gv: "(t', v, b) \<in> h_grants h'" and a: "(t0, v, k) \<in> h_acks h'" and lt: "t0 < t'"
      and k: "le_Term (h_tlog h' t0 ! k) = t0"
    have gv': "(t', v, b) \<in> h_grants h" "h_clog h' = h_clog h" using gv by (simp_all add: hg)
    have "t' \<le> t" if "v = i" using gv' gr T that unfolding inv_grants_def by blast
    then have a': "(t0, v, k) \<in> h_acks h" using a lt by (auto simp: hg)
    then have "elected h t0" "k < length (h_tlog h t0)" using ac unfolding inv_acks_def by blast+
    then have "agree k (h_tlog h t0) (h_clog h t' b) \<or> overruled h t0 k"
      using vo gv'(1) a' lt k tlog_nth_mono [OF g, of t0 k] unfolding inv_vote_def by auto
    then show "agree k (h_tlog h' t0) (h_clog h' t' b) \<or> overruled h' t0 k"
      unfolding gv'(2) by (rule hold_mono [OF I g a'])
  qed
  show "inv_complete ps h'"
    unfolding inv_complete_def
  proof (intro allI impI)
    fix t0 t' k assume ch: "chosen ps h' t0 k" and e': "elected h' t'" and lt: "t0 < t'"
    have t0: "t0 \<noteq> t" using e' lt last by (force simp: el)
    then have ch': "chosen ps h t0 k" using ch by (auto simp: chosen_def quorum_def el log) (simp add: hg)
    have "agree k (h_tlog h t0) (h_tlog h t')" using co ch' e' lt by (simp add: inv_complete_def el)
    then show "agree k (h_tlog h' t0) (h_tlog h' t')"
      using t0 by (auto simp: log agree_def nth_append)
  qed
qed

lemma submit_hold:
  assumes I: "inv ps c h" and g: "hist_le h h'" and T: "currentTerm (nodes c i) = t" and log: "nlog (nodes c i) = h_tlog h t"
    and n: "nlog n = nlog (nodes c i) @ [x]"
    and h': "h_acks h' = h_acks h \<union> {(t, i, k) | k. k \<le> length (h_tlog h t)}" "h_tlog h' t = nlog n"
  shows "inv_hold (set_node i n c) h'"
  unfolding inv_hold_def
proof (intro allI impI)
  fix u v k assume a: "(u, v, k) \<in> h_acks h'"
  show "agree k (h_tlog h' u) (nlog (nodes (set_node i n c) v)) \<or> overruled h' u k"
  proof (cases "(u, v, k) \<in> h_acks h")
    case True
    then have "agree k (h_tlog h u) (nlog (nodes c v)) \<or> overruled h u k"
      using I unfolding inv_def inv_hold_def by blast
    then have "agree k (h_tlog h u) (nlog (nodes (set_node i n c) v)) \<or> overruled h u k"
      using agree_length [of k "h_tlog h u" "nlog (nodes c i)"] agree_append(1) [of k "nlog (nodes c i)" "[x]"]
      by (auto simp: n intro: agree_trans)
    then show ?thesis by (rule hold_mono [OF I g True])
  next
    case False
    then have "u = t" "v = i" "k \<le> length (h_tlog h t)" using a by (auto simp: h'(1))
    then show ?thesis by (simp add: h'(2) n log agree_refl)
  qed
qed

lemma inv_leaderAppend:
  assumes I: "inv ps c h" and L: "state (nodes c i) = Leader" and T: "currentTerm (nodes c i) = t"
    and x: "x = \<lparr>le_Term = t, le_Index = len (nlog (nodes c i)), le_Command = cmd\<rparr>"
    and n: "node_id n = node_id (nodes c i)" "peers n = peers (nodes c i)" "nlog n = nlog (nodes c i) @ [x]"
      "lastApplied n = lastApplied (nodes c i)" "commitIndex n = commitIndex (nodes c i)" "currentTerm n = t"
      "votedFor n = votedFor (nodes c i)" "state n = Leader" "\<And>j. j \<noteq> i \<Longrightarrow> matchIndex n j = matchIndex (nodes c i) j"
    and h': "h' = ack t i (length (nlog (nodes c i))) (h\<lparr>h_tlog := (h_tlog h)(t := nlog n)\<rparr>)"
  shows "inv ps (set_node i n c) h'"
proof -
  let ?n = "nodes c i" and ?c = "set_node i n c"
  have ok: "node_ok ps h i ?n" "commit_ok ps h ?n (applied c i)" by (rule inv_node [OF I])+
  have lead: "(t, i) \<in> h_leaders h" and log: "nlog ?n = h_tlog h t" using ok(1) L T by (simp_all add: node_ok_def)
  have i: "is_node ps i" "1 \<le> t" using lead I unfolding inv_def inv_leaders_def inv_grants_def by blast+
  have e: "elected h t" using lead by (auto simp: elected_def)
  have h2: "h' = ack t i (length (h_tlog h t)) (h\<lparr>h_tlog := (h_tlog h)(t := h_tlog h t @ [x])\<rparr>)"
    using h' n(3) log by simp
  note hg = h2 [unfolded ack_def]
  have g: "hist_le h h'" by (rule submit_hist_le [OF _ h2]) (simp add: x)
  note hist = submit_history [OF I i(1) T e _ _ h2, unfolded x, simplified, OF log [THEN arg_cong [of _ _ len]]]
  have same: "h_grants h' = h_grants h" "h_clog h' = h_clog h" "h_leaders h' = h_leaders h" by (simp_all add: hg)
  note grow = inv_grow [OF I g same(1,2)]
  have tlog: "h_tlog h' u = (if u = t then nlog n else h_tlog h u)" for u by (simp add: hg n(3) log)
  have cur: "currentTerm (nodes ?c v) = currentTerm (nodes c v)" "votedFor (nodes ?c v) = votedFor (nodes c v)" for v
    by (simp_all add: n T)
  have el: "elected h' u \<longleftrightarrow> elected h u" for u by (simp add: hg elected_def)
  have "wf_log h' (nlog n)" using hist(2) e by (simp add: inv_tlog_def el tlog split: if_splits)
  then have "node_ok ps h' i n" using ok(1) n T lead by (auto simp: node_ok_def tlog same x)
  moreover have "node_ok ps h' v (nodes c v)" if "v \<noteq> i" for v
    using inv_node(1) [OF I, of v] that wf_log_mono [OF g] leader_unique [of ps h t i v] lead I
    by (auto simp: node_ok_def same tlog inv_def)
  ultimately have "inv_nodes ps ?c h'" by (simp add: inv_nodes_def)
  moreover have "inv_grants ps ?c h'" using grow(1) unfolding inv_grants_def cur .
  moreover have "inv_self ?c h'" using grow(2) T e n(6) by (auto simp: inv_self_def el)
  moreover have "inv_rv ps ?c h'" "inv_ae ps ?c h'" using grow(4,5) by (simp_all add: inv_rv_def inv_ae_def)
  moreover have "inv_pc ?c h'" "inv_role ?c"
    using I L by (auto simp: inv_def inv_pc_def inv_role_def counted_def same)
  moreover have "inv_match ps ?c h'"
  proof -
    have "state (nodes ?c v) = state (nodes c v)" "j \<noteq> v \<Longrightarrow> matchIndex (nodes ?c v) j = matchIndex (nodes c v) j" for v j
      by (simp_all add: n L)
    moreover have "h_acks h \<subseteq> h_acks h'" using g by (simp add: hist_le_def)
    moreover have "inv_match ps c h" using I by (simp add: inv_def)
    ultimately show ?thesis unfolding inv_match_def cur by (metis subsetD)
  qed
  moreover have "inv_acks ps ?c h'"
  proof (rule acks_grow [of ps c h h' t i "length (h_tlog h t)"])
    show "(u, b, length (h_tlog h' u) - 1) \<in> h_acks h'" if "(u, b) \<in> h_leaders h'" for u b
      using that I leader_unique [of ps h t i b] lead by (auto simp: hg inv_def inv_acks_def n(3))
  qed (use I g i T n(6) e in \<open>auto simp: inv_def hg el [symmetric] elected_def\<close>)
  moreover have "agree (nat (commitIndex ?n)) (nlog ?n) (nlog n)"
    using ok(2) by (auto simp: n(3) commit_ok_def committed_def len_def)
  then have "commit_ok ps h' n (applied c i)"
    using ok(2) n T agree_take_tl [of "nat (commitIndex ?n)" "nlog ?n" "nlog n" "nat (lastApplied ?n)"]
      committed_agree committed_mono [OF g] by (auto simp: commit_ok_def)
  then have "inv_commit ps ?c h'" using grow(6) by (simp add: inv_commit_def)
  moreover have "inv_hold ?c h'" by (rule submit_hold [OF I g T log n(3)]) (simp add: hg, simp add: tlog)
  ultimately show ?thesis using hist grow(3) by (simp add: inv_def)
qed

lemma inv_clientSubmit:
  assumes I: "inv ps c h" and s: "clientSubmit i cmd c = Some c'"
  shows "inv ps c' (hist (ClientSubmit i cmd) c h)"
proof (cases "state (nodes c i) = Leader")
  case True
  let ?n = "fst (Submit cmd (nodes c i))"
  have "inv ps (set_node i ?n c) (ack (currentTerm (nodes c i)) i (length (nlog (nodes c i)))
      (h\<lparr>h_tlog := (h_tlog h)(currentTerm (nodes c i) := nlog ?n)\<rparr>))"
    by (rule inv_leaderAppend [OF I True refl refl, where cmd = cmd])
      (use True inv_node(1) [OF I, of i] in \<open>auto simp: Submit_def Let_def node_ok_def\<close>)
  with True s show ?thesis by (simp add: clientSubmit_def Let_def)
next
  case False
  then have "c' = c" using s by (simp add: clientSubmit_def Submit_def set_node_same)
  with False I show ?thesis by (simp add: Let_def)
qed

section \<open>Every step\<close>

theorem inv_exec:
  assumes "inv ps c h" "is_node ps (actor e)" "length ps \<le> 3" "exec e c = Some c'"
  shows "inv ps c' (hist e c h)"
proof (cases e)
  case (RunLoop i)
  with assms show ?thesis using inv_runLoop by simp
next
  case (FollowerHeartbeat i)
  with assms show ?thesis using inv_followerHeartbeat by simp
next
  case (FollowerVote i)
  with assms show ?thesis using inv_followerVote by simp
next
  case (FollowerTimeout i)
  with assms show ?thesis using inv_followerExpires by simp
next
  case (StartElection i)
  with assms show ?thesis using inv_beginElection by simp
next
  case (DeliverVoteRequest i j a)
  with assms show ?thesis using inv_deliverVoteRequest [of ps c h i j a c'] by simp
next
  case (ReceiveVoteReply i t j r)
  with assms show ?thesis using inv_receiveVoteReply [of ps c h i t j r c'] by simp
next
  case (CandidateTimeout i)
  with assms show ?thesis using inv_candidateExpires by simp
next
  case (LeaderTick i)
  with assms show ?thesis using inv_leaderTick by simp
next
  case (SendAppend i j)
  with assms show ?thesis using inv_sendAppend by simp
next
  case (DeliverAppend i j a)
  with assms show ?thesis using inv_deliverAppend [of ps c h i j a c'] by simp
next
  case (ReceiveAppendReply i j a r)
  with assms show ?thesis using inv_receiveAppendReply by simp
next
  case (ClientSubmit i cmd)
  with assms show ?thesis using inv_clientSubmit [of ps c h i cmd c'] by simp
next
  case (ApplyEntry i)
  with assms show ?thesis using inv_applyEntry by simp
qed

lemma hreach_inv: "hreach ps c h \<Longrightarrow> length ps \<le> 3 \<Longrightarrow> inv ps c h"
  by (induction rule: hreach.induct) (auto intro: inv_init inv_exec)

end
