(* ===== verification/RaftSafety.thy ===== *)
theory RaftSafety
  imports RaftLogSteps "HOL-Library.Sublist"
begin

text \<open>
  The safety properties of the consensus layer, for clusters of at most three nodes: Election Safety,
  Log Matching, Leader Completeness, State Machine Safety, durability of committed entries, Leader
  Append-Only, and that no step panics. Each is proved from the invariant of RaftInv at every state
  reachable by any interleaving of the steps and any loss, delay or reordering of messages.
\<close>

section \<open>Histories only grow\<close>

lemma hist_le_refl: "hist_le h h"
  by (simp add: hist_le_def)

lemma hist_le_exec:
  assumes I: "inv ps c h" and e: "exec e c = Some c'"
  shows "hist_le h (hist e c h)"
proof (cases e)
  case (StartElection i)
  have "inv_grants ps c h" using I by (simp add: inv_def)
  then have "(currentTerm (nodes c i) + 1, i, i) \<notin> h_grants h" by (fastforce simp: inv_grants_def)
  then show ?thesis using StartElection by (auto simp: hist_le_def Let_def)
next
  case (DeliverVoteRequest i j a)
  then show ?thesis by (auto simp: hist_le_def split: option.splits)
next
  case (ReceiveVoteReply i t j r)
  show ?thesis
  proof (cases "\<exists>k n. pcs c i = InCandidate t k \<and> candidateOnReply t k r (nodes c i) = (n, Elected)")
    case True
    then obtain k n where k: "pcs c i = InCandidate t k" and R: "candidateOnReply t k r (nodes c i) = (n, Elected)" by blast
    have "(t, i, i) \<in> h_grants h" "(t, i) \<notin> h_leaders h" using I k by (auto simp: inv_def inv_pc_def)
    moreover have "inv_leaders ps h" "inv_grants ps c h" using I by (simp_all add: inv_def)
    ultimately have "\<not> elected h t" unfolding elected_def inv_leaders_def inv_grants_def by force
    then show ?thesis using elect_hist_le [OF _ refl] k R ReceiveVoteReply by simp
  next
    case False
    then show ?thesis
      using e ReceiveVoteReply
      by (auto simp: receiveVoteReply_def Let_def hist_le_refl split: if_splits runPC.splits prod.splits electionOutcome.splits)
  qed
next
  case (DeliverAppend i j a)
  then show ?thesis by (auto simp: ack_hist_le hist_le_refl split: option.splits)
next
  case (ClientSubmit i cmd)
  show ?thesis
  proof (cases "state (nodes c i) = Leader")
    case True
    have "nlog (nodes c i) = h_tlog h (currentTerm (nodes c i))"
      using True inv_node(1) [OF I, of i] by (simp add: node_ok_def)
    then show ?thesis using True ClientSubmit
      by (auto simp: Submit_def Let_def hist_le_def)
  next
    case False
    with ClientSubmit show ?thesis by (simp add: hist_le_refl Let_def)
  qed
qed (simp_all add: hist_le_refl)

section \<open>Committed prefixes\<close>

lemma chosen_order:
  assumes I: "inv ps c h" and a: "chosen ps h t i" and b: "chosen ps h u j" and le: "t \<le> u"
  shows "agree i (h_tlog h t) (h_tlog h u)"
proof (cases "t = u")
  case True
  then show ?thesis using a by (simp add: chosen_def agree_refl)
next
  case False
  then show ?thesis using I a b le by (simp add: inv_def inv_complete_def chosen_def)
qed

text \<open>Two committed prefixes are the same as far as both go.\<close>

lemma committed_unique:
  assumes I: "inv ps c h" and x: "committed ps h t x l" and y: "committed ps h u y m" and xy: "x \<le> y"
    and w: "wf_log h l" "wf_log h m"
  shows "agree (nat x) l m"
proof (cases "x = 0")
  case True
  then show ?thesis using w log_matching [OF w, of 0] by (simp add: wf_log_def)
next
  case False
  obtain t0 i0 where a: "chosen ps h t0 i0" "nat x \<le> i0" "agree (nat x) (h_tlog h t0) l"
    using x False by (auto simp: committed_def)
  obtain u0 j0 where b: "chosen ps h u0 j0" "nat y \<le> j0" "agree (nat y) (h_tlog h u0) m"
    using y x False xy by (auto simp: committed_def)
  have xy': "nat x \<le> nat y" using xy by simp
  have "agree (nat x) (h_tlog h t0) (h_tlog h u0)"
  proof (cases "t0 \<le> u0")
    case True
    then show ?thesis using chosen_order [OF I a(1) b(1)] a(2) by (blast intro: agree_le)
  next
    case False
    then have "agree j0 (h_tlog h u0) (h_tlog h t0)" using chosen_order [OF I b(1) a(1)] by simp
    then have "agree (nat x) (h_tlog h u0) (h_tlog h t0)" by (rule agree_le) (use b(2) xy' in linarith)
    then show ?thesis by (rule agree_sym)
  qed
  moreover have "agree (nat x) (h_tlog h u0) m" using b(3) xy' by (rule agree_le)
  ultimately show ?thesis using agree_trans [OF agree_sym [OF a(3)]] agree_trans by blast
qed

lemma prefix_take_le: "m \<le> n \<Longrightarrow> prefix (take m xs) (take n xs)"
  using take_is_prefix [of m "take n xs"] by (simp add: min_absorb1)

text \<open>The entries \<open>1..x\<close> of a log as \<open>agree\<close> sees them.\<close>

lemma agree_iff_take:
  "agree i xs ys \<longleftrightarrow> i < length xs \<and> i < length ys \<and> take (Suc i) xs = take (Suc i) ys"
proof
  assume "i < length xs \<and> i < length ys \<and> take (Suc i) xs = take (Suc i) ys"
  moreover have "xs ! j = ys ! j" if "j \<le> i" "take (Suc i) xs = take (Suc i) ys" for j
    using arg_cong [OF that(2), of "\<lambda>l. l ! j"] that(1) by simp
  ultimately show "agree i xs ys" by (auto simp: agree_def)
qed (auto simp: agree_length agree_take_eq)

lemma reachable_inv:
  assumes "reachable ps c" "length ps \<le> 3"
  obtains h where "hreach ps c h" "inv ps c h"
  using assms reachable_hreach hreach_inv by blast

lemma applied_comparable:
  assumes I: "inv ps c h"
  shows "prefix (applied c i) (applied c j) \<or> prefix (applied c j) (applied c i)"
proof -
  have pre: "prefix (applied c a) (applied c b)" if le: "lastApplied (nodes c a) \<le> lastApplied (nodes c b)" for a b
  proof -
    let ?a = "nodes c a" and ?b = "nodes c b"
    have ok: "commit_ok ps h ?a (applied c a)" "commit_ok ps h ?b (applied c b)" by (rule inv_node [OF I])+
    have w: "wf_log h (nlog ?a)" "wf_log h (nlog ?b)"
      using inv_node(1) [OF I, of a] inv_node(1) [OF I, of b] by (simp_all add: node_ok_def)
    have cm: "committed ps h (currentTerm ?a) (commitIndex ?a) (nlog ?a)"
      "committed ps h (currentTerm ?b) (commitIndex ?b) (nlog ?b)" using ok by (simp_all add: commit_ok_def)
    have "agree (nat (min (commitIndex ?a) (commitIndex ?b))) (nlog ?a) (nlog ?b)"
    proof (cases "commitIndex ?a \<le> commitIndex ?b")
      case True
      then show ?thesis using committed_unique [OF I cm True w] by (simp add: min_absorb1)
    next
      case False
      then have "agree (nat (commitIndex ?b)) (nlog ?b) (nlog ?a)"
        by (intro committed_unique [OF I cm(2,1) _ w(2,1)]) simp
      with False show ?thesis by (simp add: min_absorb2 agree_sym)
    qed
    then have "take (nat (lastApplied ?a)) (tl (nlog ?a)) = take (nat (lastApplied ?a)) (tl (nlog ?b))"
      using ok le by (elim agree_take_tl) (auto simp: commit_ok_def)
    moreover have "prefix (take (nat (lastApplied ?a)) (tl (nlog ?b))) (take (nat (lastApplied ?b)) (tl (nlog ?b)))"
      using le by (intro prefix_take_le) simp
    ultimately show ?thesis using ok unfolding commit_ok_def by (metis map_mono_prefix)
  qed
  then show ?thesis by (meson linear)
qed

section \<open>The commit index never goes back\<close>

lemma commitIndex_append:
  assumes I: "inv ps c h" and m: "(i, j, a) \<in> set (aeReqs c)" and H: "HandleAppendEntries a (nodes c j) = Some (n, r)"
  shows "commitIndex (nodes c j) \<le> commitIndex n"
proof -
  obtain p where msg: "ae_msg ps h i a" and p: "ae_PrevLogIndex a = int p" using I m by (rule aeReqsD)
  from H p show ?thesis
  proof (cases rule: HandleAppendEntries_cases)
    case (accepted x l)
    then show ?thesis using accepted_log [OF I msg p accepted(4,5) refl] by (auto simp: becomeFollowerLocked_def)
  qed (auto simp: becomeFollowerLocked_def)
qed

lemma commitIndex_reply:
  assumes "replicateOnReply j a r n = Some (n', again)"
  shows "commitIndex n \<le> commitIndex n'"
proof -
  consider "n' = becomeFollowerLocked (aer_Term r) n" | "n' = n" | x where "n' = n\<lparr>nextIndex := x\<rparr>"
    | x y where "tryAdvanceCommitIndexLocked (n\<lparr>matchIndex := y, nextIndex := x\<rparr>) = Some n'"
    using assms by (auto simp: replicateOnReply_def Let_def split: if_splits option.splits)
  then show ?thesis
  proof cases
    case (4 x y)
    then show ?thesis using advanceLoop_Some unfolding tryAdvanceCommitIndexLocked_def by fastforce
  qed (auto simp: becomeFollowerLocked_def)
qed

lemma commitIndex_election [simp]:
  "commitIndex (becomeFollowerLocked t n) = commitIndex n" "commitIndex (becomeLeaderLocked n) = commitIndex n"
  "commitIndex (followerTimeout n) = commitIndex n"
  "HandleRequestVote b n = Some (n', s) \<Longrightarrow> commitIndex n' = commitIndex n"
  "candidateOnReply t k q n = (n', out) \<Longrightarrow> commitIndex n' = commitIndex n"
  "startElection n = Some (n', args) \<Longrightarrow> commitIndex n' = commitIndex n"
  by (auto simp: becomeFollowerLocked_def becomeLeaderLocked_def followerTimeout_def HandleRequestVote_def
      candidateOnReply_def startElection_def Let_def split: if_splits option.splits)

lemma commitIndex_exec:
  assumes I: "inv ps c h" and e: "exec e c = Some c'"
  shows "commitIndex (nodes c v) \<le> commitIndex (nodes c' v)"
proof (cases e)
  case (DeliverAppend i j a)
  then show ?thesis using e commitIndex_append [OF I]
    by (auto simp: deliverAppend_def split: if_splits option.splits)
next
  case (ReceiveAppendReply i j a r)
  then show ?thesis using e commitIndex_reply
    by (auto simp: receiveAppendReply_def split: if_splits option.splits)
qed (use e in \<open>auto simp: runLoop_def followerHeartbeat_def followerVote_def followerExpires_def beginElection_def
      deliverVoteRequest_def receiveVoteReply_def candidateExpires_def leaderTick_def sendAppend_def clientSubmit_def
      Submit_def applyEntry_def applyNext_def Let_def
      split: if_splits option.splits NodeState.splits runPC.splits prod.splits electionOutcome.splits\<close>)

text \<open>A run from a state of the invariant.\<close>

lemma run_keeps_committed:
  assumes "hreach ps c h" "length ps \<le> 3" "\<forall>e \<in> set es. is_node ps (actor e)" "run es c = Some c'"
  shows "commitIndex (nodes c v) \<le> commitIndex (nodes c' v)
    \<and> agree (nat (commitIndex (nodes c v))) (nlog (nodes c v)) (nlog (nodes c' v))"
  using assms
proof (induction es arbitrary: c h)
  case Nil
  have "inv ps c h" by (rule hreach_inv [OF Nil.prems(1,2)])
  from inv_node(2) [OF this, of v] show ?case
    using Nil by (auto simp: commit_ok_def committed_def len_def intro!: agree_refl)
next
  case (Cons e es)
  obtain d where d: "exec e c = Some d" "run es d = Some c'" using Cons.prems(4) by (auto split: option.splits)
  let ?h = "hist e c h"
  have I: "inv ps c h" by (rule hreach_inv [OF Cons.prems(1,2)])
  have R: "hreach ps d ?h" using Cons.prems(1,3) d(1) by (intro hreach_step) auto
  have J: "inv ps d ?h" by (rule hreach_inv [OF R Cons.prems(2)])
  have g: "hist_le h ?h" by (rule hist_le_exec [OF I d(1)])
  let ?n = "nodes c v" and ?m = "nodes d v"
  have le: "commitIndex ?n \<le> commitIndex ?m" by (rule commitIndex_exec [OF I d(1)])
  have "committed ps ?h (currentTerm ?n) (commitIndex ?n) (nlog ?n)" "wf_log ?h (nlog ?n)"
    using inv_node [OF I, of v] committed_mono [OF g] wf_log_mono [OF g] by (auto simp: node_ok_def commit_ok_def)
  moreover have "committed ps ?h (currentTerm ?m) (commitIndex ?m) (nlog ?m)" "wf_log ?h (nlog ?m)"
    using inv_node [OF J, of v] by (auto simp: node_ok_def commit_ok_def)
  ultimately have "agree (nat (commitIndex ?n)) (nlog ?n) (nlog ?m)" using committed_unique [OF J] le by blast
  moreover have IH: "commitIndex ?m \<le> commitIndex (nodes c' v)" "agree (nat (commitIndex ?m)) (nlog ?m) (nlog (nodes c' v))"
    using Cons.IH [OF R Cons.prems(2) _ d(2)] Cons.prems(3) by auto
  have "agree (nat (commitIndex ?n)) (nlog ?m) (nlog (nodes c' v))"
    by (rule agree_le [OF IH(2)]) (use le in simp)
  ultimately have "agree (nat (commitIndex ?n)) (nlog ?n) (nlog (nodes c' v))" by (rule agree_trans)
  with le IH(1) show ?case by simp
qed

section \<open>A run of three nodes\<close>

text \<open>
  Node 0 is elected by all three nodes, takes a command, replicates it to node 1 and commits it; both
  hand it to their state machines. The states of this run are the witnesses below.
\<close>

definition ps3 :: "string list" where "ps3 = [''a:1'', ''b:1'', ''c:1'']"
definition vreq :: RequestVoteArgs where "vreq = \<lparr>rv_Term = 1, rv_CandidateId = 0, rv_LastLogIndex = 0, rv_LastLogTerm = 0\<rparr>"
definition vrep :: RequestVoteReply where "vrep = \<lparr>rvr_Term = 0, rvr_VoteGranted = True\<rparr>"
definition cmd1 :: Command where "cmd1 = \<lparr>cmd_Type = ''PUT'', cmd_Key = ''k'', cmd_Value = ''v''\<rparr>"
definition entry1 :: LogEntry where "entry1 = \<lparr>le_Term = 1, le_Index = 1, le_Command = cmd1\<rparr>"
definition areq :: "LogEntry list \<Rightarrow> int \<Rightarrow> int \<Rightarrow> int \<Rightarrow> AppendEntriesArgs" where
  "areq es p pt lc = \<lparr>ae_Term = 1, ae_LeaderId = 0, ae_PrevLogIndex = p, ae_PrevLogTerm = pt, ae_Entries = es, ae_LeaderCommit = lc\<rparr>"
definition arep :: AppendEntriesReply where "arep = \<lparr>aer_Term = 1, aer_Success = True\<rparr>"

definition election_run :: "event list" where
  "election_run = [RunLoop 0, FollowerTimeout 0, RunLoop 0, StartElection 0,
     DeliverVoteRequest 0 1 vreq, DeliverVoteRequest 0 2 vreq, ReceiveVoteReply 0 1 1 vrep, ReceiveVoteReply 0 1 2 vrep]"

definition commit_run :: "event list" where
  "commit_run = [ClientSubmit 0 cmd1, SendAppend 0 1, DeliverAppend 0 1 (areq [entry1] 0 0 0),
     ReceiveAppendReply 0 1 (areq [entry1] 0 0 0) arep, ApplyEntry 0,
     SendAppend 0 1, DeliverAppend 0 1 (areq [] 1 1 1), ApplyEntry 1]"

definition demo_cluster :: cluster where
  "demo_cluster = the (run (election_run @ commit_run) (initCluster ps3))"

lemma demo_run: "run (election_run @ commit_run) (initCluster ps3) = Some demo_cluster"
proof -
  have "run (election_run @ commit_run) (initCluster ps3) \<noteq> None" by code_simp
  then show ?thesis by (simp add: demo_cluster_def)
qed

lemma demo_reachable: "reachable ps3 demo_cluster"
proof (rule run_reachable [OF reachable_init _ demo_run])
  show "\<forall>e \<in> set (election_run @ commit_run). is_node ps3 (actor e)" by code_simp
qed

lemma length_ps3: "length ps3 \<le> 3"
  by (simp add: ps3_def)

section \<open>The safety properties of Raft\<close>

text \<open>
  C4: Election Safety. In a cluster of at most three nodes no two nodes are leader in the same term,
  in any state any interleaving of the steps can reach.
\<close>

theorem election_safety:
  assumes "reachable ps c" "length ps \<le> 3"
    and "IsLeader (nodes c i)" "IsLeader (nodes c j)" "currentTerm (nodes c i) = currentTerm (nodes c j)"
  shows "i = j"
proof -
  obtain h where I: "inv ps c h" using assms(1,2) by (rule reachable_inv)
  have "(currentTerm (nodes c i), i) \<in> h_leaders h" "(currentTerm (nodes c i), j) \<in> h_leaders h"
    using inv_node(1) [OF I, of i] inv_node(1) [OF I, of j] assms(3-5) by (auto simp: node_ok_def IsLeader_def)
  moreover have "inv_leaders ps h" using I by (simp add: inv_def)
  ultimately show ?thesis by (blast intro: leader_unique)
qed

theorem election_safety_witness:
  "reachable ps3 demo_cluster \<and> IsLeader (nodes demo_cluster 0) \<and> (0 :: int) = 0"
proof -
  have L: "IsLeader (nodes demo_cluster 0)" by code_simp
  show ?thesis
    by (intro conjI demo_reachable L election_safety [OF demo_reachable length_ps3 L L refl])
qed

text \<open>
  C7: Log Matching. If the logs of two nodes have an entry of the same term at the same index, they are
  identical up to and including that index.
\<close>

theorem logs_match:
  assumes "reachable ps c" "length ps \<le> 3"
    and "k < length (nlog (nodes c i))" "k < length (nlog (nodes c j))"
    and "le_Term (nlog (nodes c i) ! k) = le_Term (nlog (nodes c j) ! k)"
  shows "take (Suc k) (nlog (nodes c i)) = take (Suc k) (nlog (nodes c j))"
proof -
  obtain h where I: "inv ps c h" using assms(1,2) by (rule reachable_inv)
  have "agree k (nlog (nodes c i)) (nlog (nodes c j))"
    using inv_node(1) [OF I, of i] inv_node(1) [OF I, of j] assms(3-5) by (intro log_matching) (auto simp: node_ok_def)
  then show ?thesis by (rule agree_take_eq)
qed

theorem logs_match_witness:
  "take 2 (nlog (nodes demo_cluster 0)) = take 2 (nlog (nodes demo_cluster 1)) \<and> length (nlog (nodes demo_cluster 1)) = 2"
proof -
  have h: "1 < length (nlog (nodes demo_cluster 0))" "1 < length (nlog (nodes demo_cluster 1))"
    "le_Term (nlog (nodes demo_cluster 0) ! 1) = le_Term (nlog (nodes demo_cluster 1) ! 1)"
    "length (nlog (nodes demo_cluster 1)) = 2" by code_simp+
  show ?thesis using logs_match [OF demo_reachable length_ps3 h(1-3)] h(4) by (simp add: numeral_2_eq_2)
qed

text \<open>
  C6: Leader Completeness. What any node has committed is in the log of every leader whose term is not
  older than that node's.
\<close>

theorem leader_completeness:
  assumes "reachable ps c" "length ps \<le> 3"
    and "IsLeader (nodes c j)" "currentTerm (nodes c i) \<le> currentTerm (nodes c j)"
  shows "take (nat (commitIndex (nodes c i)) + 1) (nlog (nodes c i))
       = take (nat (commitIndex (nodes c i)) + 1) (nlog (nodes c j))"
proof -
  obtain h where I: "inv ps c h" using assms(1,2) by (rule reachable_inv)
  have "elected h (currentTerm (nodes c j))" and L: "nlog (nodes c j) = h_tlog h (currentTerm (nodes c j))"
    using inv_node(1) [OF I, of j] assms(3) by (auto simp: node_ok_def IsLeader_def elected_def)
  moreover have "wf_log h (nlog (nodes c i))"
    "committed ps h (currentTerm (nodes c i)) (commitIndex (nodes c i)) (nlog (nodes c i))"
    using inv_node [OF I, of i] by (simp_all add: node_ok_def commit_ok_def)
  ultimately have "agree (nat (commitIndex (nodes c i))) (nlog (nodes c i)) (nlog (nodes c j))"
    using committed_tlog [OF I] assms(4) by simp
  then show ?thesis using agree_take_eq by fastforce
qed

theorem leader_completeness_witness:
  "take 2 (nlog (nodes demo_cluster 1)) = take 2 (nlog (nodes demo_cluster 0)) \<and> commitIndex (nodes demo_cluster 1) = 1"
proof -
  have h: "IsLeader (nodes demo_cluster 0)" "currentTerm (nodes demo_cluster 1) \<le> currentTerm (nodes demo_cluster 0)"
    "commitIndex (nodes demo_cluster 1) = 1" by code_simp+
  show ?thesis using leader_completeness [OF demo_reachable length_ps3 h(1,2)] h(3) by (simp add: numeral_2_eq_2)
qed

text \<open>
  C3: State Machine Safety. The sequences of commands two nodes hand to their state machines are
  always prefixes of one another.
\<close>

theorem state_machine_safety:
  assumes "reachable ps c" "length ps \<le> 3"
  shows "prefix (applied c i) (applied c j) \<or> prefix (applied c j) (applied c i)"
proof -
  obtain h where "inv ps c h" using assms by (rule reachable_inv)
  then show ?thesis by (rule applied_comparable)
qed

theorem state_machine_safety_witness:
  "(prefix (applied demo_cluster 0) (applied demo_cluster 1) \<or> prefix (applied demo_cluster 1) (applied demo_cluster 0))
   \<and> length (applied demo_cluster 0) = 1 \<and> length (applied demo_cluster 1) = 1"
proof -
  have "length (applied demo_cluster 0) = 1" "length (applied demo_cluster 1) = 1" by code_simp+
  with state_machine_safety [OF demo_reachable length_ps3] show ?thesis by blast
qed


text \<open>
  C5: Durability of commitment. Along every run the commit index of a node never goes back and the
  entries up to it never change, whatever leaders, followers and the network do.
\<close>

theorem committed_durable:
  assumes "reachable ps c" "length ps \<le> 3" "\<forall>e \<in> set es. is_node ps (actor e)" "run es c = Some c'"
  shows "commitIndex (nodes c v) \<le> commitIndex (nodes c' v)
       \<and> take (nat (commitIndex (nodes c v)) + 1) (nlog (nodes c' v))
           = take (nat (commitIndex (nodes c v)) + 1) (nlog (nodes c v))"
proof -
  obtain h where "hreach ps c h" using assms(1) reachable_hreach by blast
  then have "commitIndex (nodes c v) \<le> commitIndex (nodes c' v)
    \<and> agree (nat (commitIndex (nodes c v))) (nlog (nodes c v)) (nlog (nodes c' v))"
    using assms(2-4) by (rule run_keeps_committed)
  then show ?thesis using agree_take_eq by fastforce
qed

theorem committed_durable_witness:
  "commitIndex (nodes demo_cluster 0) = 1
   \<and> take 2 (nlog (nodes (the (run [RunLoop 0, ClientSubmit 0 cmd1] demo_cluster)) 0)) = take 2 (nlog (nodes demo_cluster 0))"
proof -
  have r: "run [RunLoop 0, ClientSubmit 0 cmd1] demo_cluster = Some (the (run [RunLoop 0, ClientSubmit 0 cmd1] demo_cluster))"
  proof -
    have "run [RunLoop 0, ClientSubmit 0 cmd1] demo_cluster \<noteq> None" by code_simp
    then show ?thesis by simp
  qed
  have a: "\<forall>e \<in> set [RunLoop 0, ClientSubmit 0 cmd1]. is_node ps3 (actor e)" by code_simp
  have c: "commitIndex (nodes demo_cluster 0) = 1" by code_simp
  show ?thesis using committed_durable [OF demo_reachable length_ps3 a r, of 0] c by (simp add: numeral_2_eq_2)
qed

text \<open>
  C25: Leader Append-Only. A step after which a node is still the leader of the same term leaves the
  node's log a prefix of its new log.
\<close>

theorem leader_append_only:
  assumes "reachable ps c" "length ps \<le> 3" "is_node ps (actor e)" "exec e c = Some c'"
    and "IsLeader (nodes c v)" "IsLeader (nodes c' v)" "currentTerm (nodes c' v) = currentTerm (nodes c v)"
  shows "prefix (nlog (nodes c v)) (nlog (nodes c' v))"
proof -
  obtain h where h: "hreach ps c h" "inv ps c h" using assms(1,2) by (rule reachable_inv)
  have J: "inv ps c' (hist e c h)" using h(2) assms(3,2,4) by (rule inv_exec)
  have "elected h (currentTerm (nodes c v))" "nlog (nodes c v) = h_tlog h (currentTerm (nodes c v))"
    using inv_node(1) [OF h(2), of v] assms(5) by (auto simp: node_ok_def IsLeader_def elected_def)
  moreover have "nlog (nodes c' v) = h_tlog (hist e c h) (currentTerm (nodes c v))"
    using inv_node(1) [OF J, of v] assms(6,7) by (auto simp: node_ok_def IsLeader_def)
  moreover have "hist_le h (hist e c h)" by (rule hist_le_exec [OF h(2) assms(4)])
  ultimately show ?thesis by (auto simp: hist_le_def)
qed

theorem leader_append_only_witness:
  "prefix (nlog (nodes demo_cluster 0)) (nlog (nodes (the (exec (ClientSubmit 0 cmd1) demo_cluster)) 0))"
proof (rule leader_append_only [OF demo_reachable length_ps3])
  show "exec (ClientSubmit 0 cmd1) demo_cluster = Some (the (exec (ClientSubmit 0 cmd1) demo_cluster))"
    by (simp add: clientSubmit_def)
  show "is_node ps3 (actor (ClientSubmit 0 cmd1))" "IsLeader (nodes demo_cluster 0)"
    "IsLeader (nodes (the (exec (ClientSubmit 0 cmd1) demo_cluster)) 0)"
    "currentTerm (nodes (the (exec (ClientSubmit 0 cmd1) demo_cluster)) 0) = currentTerm (nodes demo_cluster 0)"
    by code_simp+
qed

text \<open>
  C26: every entry of every log carries its own position as its index, and terms never decrease along
  a log or exceed the node's term; position 0 is the dummy entry.
\<close>

theorem log_well_formed:
  assumes "reachable ps c" "length ps \<le> 3"
  shows "nlog (nodes c v) \<noteq> [] \<and> map le_Index (nlog (nodes c v)) = map int [0..<length (nlog (nodes c v))]
       \<and> sorted (map le_Term (nlog (nodes c v))) \<and> list_all (\<lambda>e. le_Term e \<le> currentTerm (nodes c v)) (nlog (nodes c v))"
proof -
  obtain h where I: "inv ps c h" using assms by (rule reachable_inv)
  have w: "wf_log h (nlog (nodes c v))" and t: "\<forall>e \<in> set (nlog (nodes c v)). le_Term e \<le> currentTerm (nodes c v)"
    using inv_node(1) [OF I, of v] by (simp_all add: node_ok_def)
  have "map le_Index (nlog (nodes c v)) = map int [0..<length (nlog (nodes c v))]"
    using w by (intro nth_equalityI) (auto simp: wf_log_def)
  with w t show ?thesis by (auto simp: wf_log_def sorted_iff_nth_mono list_all_iff)
qed

theorem log_well_formed_witness:
  "map le_Index (nlog (nodes demo_cluster 1)) = map int [0..<length (nlog (nodes demo_cluster 1))]
   \<and> length (nlog (nodes demo_cluster 1)) = 2"
proof -
  have "length (nlog (nodes demo_cluster 1)) = 2" by code_simp
  with log_well_formed [OF demo_reachable length_ps3, of 1] show ?thesis by blast
qed

section \<open>No step panics\<close>

lemma advanceLoop_defined:
  "N < len (nlog n) \<Longrightarrow> 0 \<le> commitIndex n \<Longrightarrow> advanceLoop N n \<noteq> None"
proof (induction N n rule: advanceLoop.induct)
  case (1 N n)
  show ?case
  proof (cases "N > commitIndex n")
    case True
    then obtain e where e: "at (nlog n) N = Some e" using "1.prems" by (simp add: at_def)
    have "advanceLoop (N - 1) n \<noteq> None"
      if "le_Term e \<noteq> currentTerm n \<or> \<not> len (peers n) div 2 < replicaCount n N"
      using that "1.IH" [OF True e] "1.prems" by auto
    then show ?thesis using True e unfolding advanceLoop.simps [of N n] by auto
  next
    case False
    then show ?thesis unfolding advanceLoop.simps [of N n] by simp
  qed
qed

text \<open>
  C24: no slice access of a handler is out of range in a reachable state: elections start, requests and
  replies in flight are handled, and committed entries are applied, without a panic.
\<close>

theorem no_panic:
  assumes "reachable ps c" "length ps \<le> 3"
  shows "startElection (nodes c v) \<noteq> None \<and> applyNext (nodes c v) \<noteq> None
    \<and> HandleRequestVote q (nodes c v) \<noteq> None
    \<and> list_all (\<lambda>(i, j, a). HandleAppendEntries a (nodes c j) \<noteq> None) (aeReqs c)
    \<and> list_all (\<lambda>(i, j, a, r). replicateOnReply j a r (nodes c i) \<noteq> None) (aeReps c)"
proof -
  obtain h where I: "inv ps c h" using assms by (rule reachable_inv)
  have ne: "0 < len (nlog (nodes c i))" and ci: "0 \<le> commitIndex (nodes c i)" "commitIndex (nodes c i) < len (nlog (nodes c i))"
    "0 \<le> lastApplied (nodes c i)" "lastApplied (nodes c i) \<le> commitIndex (nodes c i)" for i
    using inv_node [OF I, of i] by (auto simp: node_ok_def commit_ok_def committed_def wf_log_def len_def)
  have "HandleAppendEntries a (nodes c j) \<noteq> None" if m: "(i, j, a) \<in> set (aeReqs c)" for i j a
  proof -
    obtain p where msg: "ae_msg ps h i a" and p: "ae_PrevLogIndex a = int p" using I m by (rule aeReqsD)
    show ?thesis
      using p accepted_log(2) [OF I msg p _ _ refl, of j]
      by (auto simp: HandleAppendEntries_def Let_def at_def len_def becomeFollowerLocked_def split: option.splits)
  qed
  moreover have adv: "tryAdvanceCommitIndexLocked (nodes c i\<lparr>matchIndex := x, nextIndex := y\<rparr>) \<noteq> None" for i x y
    unfolding tryAdvanceCommitIndexLocked_def by (rule advanceLoop_defined) (simp_all add: ci)
  have "replicateOnReply j a r (nodes c i) \<noteq> None" for i j a r
    by (auto simp: replicateOnReply_def Let_def adv split: option.splits)
  moreover have "startElection (nodes c v) \<noteq> None"
    using ne [of v] by (simp add: startElection_def Let_def at_def)
  moreover have "applyNext (nodes c v) \<noteq> None"
    using ci [of v] by (simp add: applyNext_def Let_def at_def)
  moreover have "HandleRequestVote q (nodes c v) \<noteq> None"
    using ne [of v] by (simp add: HandleRequestVote_def Let_def at_def becomeFollowerLocked_def)
  ultimately show ?thesis by (simp add: list_all_iff) blast
qed

theorem no_panic_witness:
  "startElection (nodes demo_cluster 2) \<noteq> None \<and> HandleRequestVote vreq (nodes demo_cluster 2) \<noteq> None
   \<and> applyNext (nodes demo_cluster 2) \<noteq> None"
  using no_panic [OF demo_reachable length_ps3, of 2 vreq] by blast

section \<open>Elections need every vote\<close>

lemma run_append: "run (es @ fs) c = (case run es c of None \<Rightarrow> None | Some c \<Rightarrow> run fs c)"
  by (induction es arbitrary: c) (auto split: option.splits)

text \<open>In the run \<open>es\<close> node \<open>v\<close> handled a request of node \<open>b\<close> for term \<open>t\<close> and granted its vote.\<close>

definition voted :: "string list \<Rightarrow> event list \<Rightarrow> int \<Rightarrow> int \<Rightarrow> int \<Rightarrow> bool" where
  "voted ps es t v b \<longleftrightarrow> (\<exists>es1 args es2 c n r. es = es1 @ DeliverVoteRequest b v args # es2
     \<and> run es1 (initCluster ps) = Some c \<and> HandleRequestVote args (nodes c v) = Some (n, r)
     \<and> rvr_VoteGranted r \<and> rv_Term args = t)"

lemma voted_snoc: "voted ps es t v b \<Longrightarrow> voted ps (es @ [e]) t v b"
  unfolding voted_def by (metis append.assoc append_Cons)

lemma hist_grants:
  assumes "(t, v, b) \<in> h_grants (hist e c h)" "v \<noteq> b"
  shows "(t, v, b) \<in> h_grants h \<or>
    (\<exists>args n r. e = DeliverVoteRequest b v args \<and> HandleRequestVote args (nodes c v) = Some (n, r) \<and> rvr_VoteGranted r \<and> rv_Term args = t)"
  using assms by (cases e) (auto simp: Let_def ack_def split: option.splits if_splits runPC.splits prod.splits electionOutcome.splits)

lemma run_grants:
  assumes "run es (initCluster ps) = Some c" "\<forall>e \<in> set es. is_node ps (actor e)"
  shows "\<exists>h. hreach ps c h \<and> (\<forall>t v b. (t, v, b) \<in> h_grants h \<longrightarrow> v \<noteq> b \<longrightarrow> voted ps es t v b)"
  using assms
proof (induction es arbitrary: c rule: rev_induct)
  case Nil
  then show ?case using hreach_init by (fastforce simp: initHistory_def)
next
  case (snoc e es)
  then obtain c1 where c1: "run es (initCluster ps) = Some c1" "exec e c1 = Some c"
    by (auto simp: run_append split: option.splits)
  then obtain h where h: "hreach ps c1 h" "\<forall>t v b. (t, v, b) \<in> h_grants h \<longrightarrow> v \<noteq> b \<longrightarrow> voted ps es t v b"
    using snoc by auto
  have "voted ps (es @ [e]) t v b" if g: "(t, v, b) \<in> h_grants (hist e c1 h)" "v \<noteq> b" for t v b
    using hist_grants [OF g]
  proof
    assume "(t, v, b) \<in> h_grants h"
    then show ?thesis using h(2) g(2) voted_snoc by blast
  next
    assume "\<exists>args n r. e = DeliverVoteRequest b v args \<and> HandleRequestVote args (nodes c1 v) = Some (n, r)
      \<and> rvr_VoteGranted r \<and> rv_Term args = t"
    then obtain args n r where e: "e = DeliverVoteRequest b v args" "HandleRequestVote args (nodes c1 v) = Some (n, r)"
      "rvr_VoteGranted r" "rv_Term args = t" by blast
    show ?thesis unfolding voted_def
      by (intro exI [of _ es] exI [of _ args] exI [of _ "[]"] exI [of _ c1] exI [of _ n] exI [of _ r]) (simp add: e c1(1))
  qed
  then show ?case using hreach_step [OF h(1) _ c1(2)] snoc.prems(2) by auto
qed

text \<open>
  C27: in a cluster of at most three nodes a majority elects nobody. In any run, when a node is leader every
  other node has handled a vote request of this very node for the term it leads, and has granted its vote.
\<close>

theorem leader_needs_all:
  assumes "run es (initCluster ps) = Some c" "\<forall>e \<in> set es. is_node ps (actor e)" "length ps \<le> 3"
    and "IsLeader (nodes c i)" "is_node ps v" "v \<noteq> i"
  shows "voted ps es (currentTerm (nodes c i)) v i"
proof -
  obtain h where h: "hreach ps c h" "\<forall>t v b. (t, v, b) \<in> h_grants h \<longrightarrow> v \<noteq> b \<longrightarrow> voted ps es t v b"
    using run_grants [OF assms(1,2)] by blast
  have I: "inv ps c h" by (rule hreach_inv [OF h(1) assms(3)])
  have "(currentTerm (nodes c i), i) \<in> h_leaders h"
    using inv_node(1) [OF I, of i] assms(4) by (simp add: node_ok_def IsLeader_def)
  then have "(currentTerm (nodes c i), v, i) \<in> h_grants h" using I assms(5) by (simp add: inv_def inv_leaders_def)
  then show ?thesis using h(2) assms(6) by blast
qed

theorem leader_needs_all_witness:
  "IsLeader (nodes demo_cluster 0) \<and> voted ps3 (election_run @ commit_run) 1 1 0 \<and> voted ps3 (election_run @ commit_run) 1 2 0"
proof -
  have h: "IsLeader (nodes demo_cluster 0)" "currentTerm (nodes demo_cluster 0) = 1" "is_node ps3 1" "is_node ps3 2"
    "\<forall>e \<in> set (election_run @ commit_run). is_node ps3 (actor e)" by code_simp+
  show ?thesis
    using leader_needs_all [OF demo_run h(5) length_ps3 h(1) h(3)] leader_needs_all [OF demo_run h(5) length_ps3 h(1) h(4)] h(1,2) by simp
qed

end
