(* ===== verification/RaftFaults.thy ===== *)
theory RaftFaults
  imports RaftSafety
begin

text \<open>
  What the bounds of the safety theorems stand for: runs of the model, hence of the code, in which a
  larger or a smaller cluster does not behave as a Raft cluster should.
\<close>

section \<open>Five nodes: two leaders in one term\<close>

text \<open>
  \<open>becomeFollowerLocked\<close> clears \<open>votedFor\<close> even when the term does not change, and
  \<open>HandleAppendEntries\<close> calls it for every request of the current term. A voter that has heard from the
  leader it voted for therefore votes again in the same term. With five nodes four votes elect, so two
  candidates can both collect them.
\<close>

definition ps5 :: "string list" where "ps5 = [''a:1'', ''b:1'', ''c:1'', ''d:1'', ''e:1'']"
definition vreq5 :: "int \<Rightarrow> RequestVoteArgs" where
  "vreq5 i = \<lparr>rv_Term = 1, rv_CandidateId = i, rv_LastLogIndex = 0, rv_LastLogTerm = 0\<rparr>"
definition vrep5 :: "int \<Rightarrow> RequestVoteReply" where "vrep5 t = \<lparr>rvr_Term = t, rvr_VoteGranted = True\<rparr>"
definition put5 :: "string \<Rightarrow> LogEntry" where
  "put5 v = \<lparr>le_Term = 1, le_Index = 1, le_Command = \<lparr>cmd_Type = ''PUT'', cmd_Key = ''k'', cmd_Value = v\<rparr>\<rparr>"
definition areq5 :: "int \<Rightarrow> LogEntry list \<Rightarrow> AppendEntriesArgs" where
  "areq5 i es = \<lparr>ae_Term = 1, ae_LeaderId = i, ae_PrevLogIndex = 0, ae_PrevLogTerm = 0, ae_Entries = es, ae_LeaderCommit = 0\<rparr>"
definition arep5 :: AppendEntriesReply where "arep5 = \<lparr>aer_Term = 1, aer_Success = True\<rparr>"

definition campaign5 :: "int \<Rightarrow> event list" where
  "campaign5 i = [RunLoop i, FollowerTimeout i, RunLoop i, StartElection i]"
definition voting5 :: "int \<Rightarrow> int \<Rightarrow> event list" where
  "voting5 i t = concat (map (\<lambda>j. [DeliverVoteRequest i j (vreq5 i), ReceiveVoteReply i 1 j (vrep5 t)]) [1, 2, 3])"
definition replicate5 :: "int \<Rightarrow> LogEntry list \<Rightarrow> int list \<Rightarrow> event list" where
  "replicate5 i es js = concat (map (\<lambda>j. [SendAppend i j, DeliverAppend i j (areq5 i es), ReceiveAppendReply i j (areq5 i es) arep5]) js)"

definition split_run :: "event list" where
  "split_run = campaign5 0 @ campaign5 4 @ voting5 0 0 @ replicate5 0 [] [1, 2, 3] @ voting5 4 1
     @ [ClientSubmit 0 (le_Command (put5 ''x''))] @ replicate5 0 [put5 ''x''] [1, 2] @ [ApplyEntry 0]
     @ [ClientSubmit 4 (le_Command (put5 ''y''))] @ replicate5 4 [put5 ''y''] [3, 1] @ [ApplyEntry 4]"

definition split_cluster :: cluster where
  "split_cluster = the (run split_run (initCluster ps5))"

lemma split_reachable: "reachable ps5 split_cluster"
proof (rule run_reachable [OF reachable_init])
  have "run split_run (initCluster ps5) \<noteq> None" by code_simp
  then show "run split_run (initCluster ps5) = Some split_cluster" by (simp add: split_cluster_def)
  show "\<forall>e \<in> set split_run. is_node ps5 (actor e)" by code_simp
qed

text \<open>
  C23: the bound of three nodes is needed. With five nodes a run of the code reaches a state in which two
  nodes are leader of the same term and two state machines have been given different first commands.
\<close>

theorem split_brain:
  "\<exists>c. reachable ps5 c \<and> IsLeader (nodes c 0) \<and> IsLeader (nodes c 4)
     \<and> currentTerm (nodes c 0) = currentTerm (nodes c 4)
     \<and> map am_Command (applied c 0) = [\<lparr>cmd_Type = ''PUT'', cmd_Key = ''k'', cmd_Value = ''x''\<rparr>]
     \<and> map am_Command (applied c 4) = [\<lparr>cmd_Type = ''PUT'', cmd_Key = ''k'', cmd_Value = ''y''\<rparr>]"
proof -
  have f: "IsLeader (nodes split_cluster 0)" "IsLeader (nodes split_cluster 4)"
    "currentTerm (nodes split_cluster 0) = currentTerm (nodes split_cluster 4)"
    "map am_Command (applied split_cluster 0) = [\<lparr>cmd_Type = ''PUT'', cmd_Key = ''k'', cmd_Value = ''x''\<rparr>]"
    "map am_Command (applied split_cluster 4) = [\<lparr>cmd_Type = ''PUT'', cmd_Key = ''k'', cmd_Value = ''y''\<rparr>]"
    by code_simp+
  show ?thesis by (intro exI [of _ split_cluster] conjI split_reachable f)
qed

section \<open>One node: no leader at all\<close>

text \<open>
  \<open>runCandidate\<close> votes for itself, but it compares the votes with the number it needs only when a reply
  arrives. A node without other peers sends no request and gets no reply, so its elections all time out.
\<close>

definition quiet :: "cluster \<Rightarrow> bool" where
  "quiet c \<longleftrightarrow> rvReqs c = [] \<and> rvReps c = [] \<and> (\<forall>i. state (nodes c i) \<noteq> Leader)"

lemma startElection_same:
  "startElection n = Some (m, a) \<Longrightarrow> node_id m = node_id n \<and> peers m = peers n \<and> state m = state n"
  by (auto simp: startElection_def Let_def split: option.splits)

lemma append_not_leader:
  "HandleAppendEntries a n = Some (m, r) \<Longrightarrow> state n \<noteq> Leader \<Longrightarrow> state m \<noteq> Leader"
  by (auto simp: HandleAppendEntries_def becomeFollowerLocked_def Let_def split: if_splits option.splits)

lemma reply_not_leader:
  "replicateOnReply j a r n = Some (m, g) \<Longrightarrow> state n \<noteq> Leader \<Longrightarrow> state m \<noteq> Leader"
  by (auto simp: replicateOnReply_def becomeFollowerLocked_def split: if_splits)

lemma quiet_exec:
  assumes q: "quiet c" and n: "node_id (nodes c (actor e)) = actor e" "peers (nodes c (actor e)) = [p]" "actor e = 0"
    and e: "exec e c = Some c'"
  shows "quiet c'"
proof (cases e)
  case (StartElection i)
  then show ?thesis
    using q n e startElection_same by (fastforce simp: quiet_def beginElection_def otherPeers_def split: if_splits option.splits)
next
  case (DeliverAppend i j a)
  then show ?thesis using q e append_not_leader
    by (fastforce simp: quiet_def deliverAppend_def split: if_splits option.splits)
next
  case (ReceiveAppendReply i j a r)
  then show ?thesis using q e reply_not_leader
    by (fastforce simp: quiet_def receiveAppendReply_def split: if_splits option.splits)
qed (use q e in \<open>auto simp: quiet_def runLoop_def followerHeartbeat_def followerVote_def followerExpires_def followerTimeout_def
      deliverVoteRequest_def receiveVoteReply_def candidateExpires_def leaderTick_def sendAppend_def clientSubmit_def
      Submit_def applyEntry_def applyNext_def replicateArgs_def Let_def
      split: if_splits option.splits NodeState.splits runPC.splits\<close>)

lemma quiet_reachable: "reachable [p] c \<Longrightarrow> quiet c"
proof (induction rule: reachable.induct)
  case reachable_init
  then show ?case by (simp add: quiet_def initCluster_def NewNode_def)
next
  case (reachable_step c e c')
  obtain h where I: "inv [p] c h" using reachable_step.hyps(1) by (rule reachable_inv) simp
  have "actor e = 0" using reachable_step.hyps(2) by (simp add: is_node_def len_def)
  with I reachable_step show ?case
    using inv_node(1) [OF I, of "actor e"] by (intro quiet_exec [of c e p c']) (auto simp: node_ok_def)
qed

text \<open>
  C28: a cluster of one node never has a leader, in any reachable state, so it never accepts a command.
  Nothing asks the node for a vote and no reply comes in, and only a reply makes a candidate count its
  votes.
\<close>

theorem single_node_no_leader:
  assumes "reachable [p] c"
  shows "\<not> IsLeader (nodes c i) \<and> Submit cmd (nodes c i) = (nodes c i, -1, -1, False)"
  using quiet_reachable [OF assms] by (simp add: quiet_def IsLeader_def Submit_def)

theorem single_node_no_leader_witness:
  "reachable [''a:1''] (initCluster [''a:1'']) \<and> \<not> IsLeader (nodes (initCluster [''a:1'']) 0)"
  using single_node_no_leader [OF reachable_init, of _ 0] reachable_init by blast

end
