(* ===== verification/RaftProgress.thy ===== *)
theory RaftProgress
  imports RaftSafety
begin

text \<open>
  Progress of replication: \<open>replicateToFollower\<close> and the inner loop of \<open>replicationWorker\<close> with a network
  that delivers, and how many turns the loop needs to bring a follower's log up to the leader's.
\<close>

section \<open>The worker's loop\<close>

text \<open>
  One call of \<open>replicateToFollower\<close> by node \<open>i\<close> for node \<open>j\<close> whose request and reply get through; the boolean
  is its result. The loop of \<open>replicationWorker\<close> gets fuel, one for each call.
\<close>

definition replicateToFollower :: "int \<Rightarrow> int \<Rightarrow> cluster \<Rightarrow> (cluster \<times> bool) option" where
  "replicateToFollower i j c =
     (case replicateArgs j (nodes c i) of
        None \<Rightarrow> Some (c, False)
      | Some args \<Rightarrow>
          (case HandleAppendEntries args (nodes c j) of
             None \<Rightarrow> None
           | Some (m, reply) \<Rightarrow>
               (case replicateOnReply j args reply (nodes c i) of
                  None \<Rightarrow> None
                | Some (n, again) \<Rightarrow> Some (set_node i n (set_node j m c), again))))"

fun replicationWorker :: "nat \<Rightarrow> int \<Rightarrow> int \<Rightarrow> cluster \<Rightarrow> cluster option" where
  "replicationWorker 0 i j c = None"
| "replicationWorker (Suc turns) i j c =
     (case replicateToFollower i j c of
        None \<Rightarrow> None
      | Some (c, again) \<Rightarrow> if again then replicationWorker turns i j c else Some c)"

section \<open>One turn\<close>

lemma HandleAppendEntries_defined:
  assumes "inv ps c h" "ae_msg ps h i a"
  shows "\<exists>m r. HandleAppendEntries a (nodes c j) = Some (m, r)"
proof -
  obtain p where p: "ae_PrevLogIndex a = int p" using assms(2) by (auto simp: ae_msg_def)
  show ?thesis
    using p accepted_log(2) [OF assms p _ _ refl, of j]
    by (auto simp: HandleAppendEntries_def Let_def at_def len_def becomeFollowerLocked_def split: option.splits)
qed

text \<open>A turn is a send, a delivery and the receipt of the reply, so it leads to a reachable state.\<close>

lemma replicateToFollower_reachable:
  assumes "reachable ps c" "is_node ps i" "is_node ps j" "j \<in> set (otherPeers (nodes c i))" "i \<noteq> j"
    and r: "replicateToFollower i j c = Some (c', b)"
  shows "reachable ps c'"
proof (cases "replicateArgs j (nodes c i)")
  case None
  then show ?thesis using r assms(1) by (simp add: replicateToFollower_def)
next
  case (Some a)
  then obtain m q n where H: "HandleAppendEntries a (nodes c j) = Some (m, q)" and R: "replicateOnReply j a q (nodes c i) = Some (n, b)"
    and c': "c' = set_node i n (set_node j m c)" using r by (auto simp: replicateToFollower_def split: option.splits)
  have "run [SendAppend i j, DeliverAppend i j a, ReceiveAppendReply i j a q] c = Some c'"
    using Some H R assms(4,5) by (simp add: sendAppend_def deliverAppend_def receiveAppendReply_def c' set_node_def)
  then show ?thesis by (rule run_reachable [OF assms(1), rotated]) (simp add: assms(2,3))
qed

text \<open>A request that starts at the dummy entry is accepted, and one that reaches the end of the log settles the follower.\<close>

lemma HandleAppendEntries_start:
  assumes "HandleAppendEntries a n = Some (m, r)" "ae_PrevLogIndex a = 0" "ae_PrevLogTerm a = 0" "currentTerm n \<le> ae_Term a"
    and "wf_log h (nlog n)"
  shows "aer_Success r"
  using assms by (auto simp: HandleAppendEntries_def Let_def at_def len_def becomeFollowerLocked_def wf_log_def split: option.splits if_splits)

lemma replicateOnReply_whole:
  assumes "state n = Leader" "ae_Term a = currentTerm n" "aer_Term r \<le> currentTerm n" "aer_Success r"
    and m: "ae_PrevLogIndex a + len (ae_Entries a) = len (nlog n) - 1" "matchIndex n j < len (nlog n) - 1" "0 \<le> commitIndex n"
  shows "\<exists>n'. replicateOnReply j a r n = Some (n', False) \<and> nlog n' = nlog n"
proof -
  let ?n = "n\<lparr>matchIndex := (matchIndex n)(j := len (nlog n) - 1), nextIndex := (nextIndex n)(j := len (nlog n))\<rparr>"
  obtain n' where n': "advanceLoop (len (nlog n) - 1) ?n = Some n'"
    using advanceLoop_defined [of "len (nlog n) - 1" ?n] m(3) by auto
  have "nlog n' = nlog n" "nextIndex n' = nextIndex ?n" using advanceLoop_Some [OF n'] by (auto simp: notifyCommitAdvance_def)
  then show ?thesis using n' m(1,2) assms(1-4) by (simp add: replicateOnReply_def tryAdvanceCommitIndexLocked_def Let_def)
qed

lemma turn_cases:
  assumes I: "inv ps c h" and n: "n = nodes c i" and L: "state n = Leader" and ij: "i \<noteq> j"
    and t: "currentTerm (nodes c j) \<le> currentTerm n" and ni: "1 \<le> nextIndex n j" "nextIndex n j \<le> len (nlog n)" "matchIndex n j < len (nlog n) - 1"
  obtains (rejected) m where "1 < nextIndex n j" "currentTerm m = currentTerm n"
      "replicateToFollower i j c = Some (set_node i (n\<lparr>nextIndex := (nextIndex n)(j := nextIndex n j - 1)\<rparr>) (set_node j m c), True)"
  | (accepted) m n' where "replicateToFollower i j c = Some (set_node i n' (set_node j m c), False)" "nlog n' = nlog n"
      "take (length (nlog n)) (nlog m) = nlog n"
proof -
  define p where "p = nat (nextIndex n j - 1)"
  have p: "nextIndex n j = int p + 1" "p < length (nlog n)" using ni by (simp_all add: p_def len_def)
  define a where "a = \<lparr>ae_Term = currentTerm n, ae_LeaderId = node_id n, ae_PrevLogIndex = int p,
      ae_PrevLogTerm = le_Term (nlog n ! p), ae_Entries = drop (Suc p) (nlog n), ae_LeaderCommit = commitIndex n\<rparr>"
  have ra: "replicateArgs j (nodes c i) = Some a"
    using L p by (auto simp: replicateArgs_def a_def at_def len_def n [symmetric] nat_add_distrib Let_def)
  have msg: "ae_msg ps h i a" by (rule replicateArgs_ae_msg [OF I ra])
  obtain m r where H: "HandleAppendEntries a (nodes c j) = Some (m, r)" using HandleAppendEntries_defined [OF I msg] by blast
  have rt: "aer_Term r \<le> currentTerm n" using HandleAppendEntries_term [OF H] t by simp
  have ap: "ae_PrevLogIndex a = int p" "ae_Term a = currentTerm n" "ae_Entries a = drop (Suc p) (nlog n)"
    "ae_PrevLogTerm a = le_Term (nlog n ! p)" by (simp_all add: a_def)
  have tlog: "nlog n = h_tlog h (currentTerm n)" using inv_node(1) [OF I, of i] L n by (simp add: node_ok_def)
  have wj: "wf_log h (nlog (nodes c j))" and wn: "wf_log h (nlog n)"
    using inv_node(1) [OF I, of j] inv_node(1) [OF I, of i] n by (simp_all add: node_ok_def)
  show ?thesis
    using H ap(1)
  proof (cases rule: HandleAppendEntries_cases)
    case stale
    then show ?thesis using t ap(2) by simp
  next
    case (rejected x)
    have "p \<noteq> 0"
      using HandleAppendEntries_start [OF H _ _ _ wj] rejected(1,2) wn ap by (auto simp: wf_log_def)
    then have "1 < nextIndex n j" using p(1) by simp
    moreover have "currentTerm m = currentTerm n" using rejected(3,4) ap(2) t by (simp add: becomeFollowerLocked_def)
    moreover have "replicateOnReply j a r n = Some (n\<lparr>nextIndex := (nextIndex n)(j := nextIndex n j - 1)\<rparr>, True)"
      using rt L rejected(2) calculation(1) by (simp add: replicateOnReply_def ap(2))
    ultimately show ?thesis using that(1) ra H n by (simp add: replicateToFollower_def)
  next
    case (accepted x l)
    have q: "p + length (ae_Entries a) = length (nlog n) - 1" using p(2) by (simp add: ap(3))
    have "l = spliced (length (nlog n) - 1) (nlog n) (nlog (nodes c j))"
      using accepted_log(2) [OF I msg ap(1) accepted(4,5) refl] accepted(6) q tlog ap(2) by simp
    then have "agree (length (nlog n) - 1) l (nlog n)" using spliced_agree [of "length (nlog n) - 1" "nlog n"] p(2) by simp
    moreover have "nlog m = l" using accepted(7) by simp
    moreover have "Suc (length (nlog n) - 1) = length (nlog n)" using p(2) by simp
    ultimately have tk: "take (length (nlog n)) (nlog m) = nlog n" using agree_take_eq by fastforce
    have ci: "0 \<le> commitIndex n" using inv_node(2) [OF I, of i] n by (auto simp: commit_ok_def committed_def)
    have "ae_PrevLogIndex a + len (ae_Entries a) = len (nlog n) - 1" using q p(2) by (simp add: ap(1) len_def)
    then obtain n' where R: "replicateOnReply j a r n = Some (n', False)" "nlog n' = nlog n"
      using replicateOnReply_whole [OF L ap(2) rt accepted(2) _ ni(3) ci] by blast
    then show ?thesis using that(2) [of n' m] ra H n tk by (simp add: replicateToFollower_def)
  qed
qed

section \<open>Catching up\<close>

text \<open>
  C35: replication terminates. Take a leader of a cluster of at most three nodes and a follower whose term
  is not higher than the leader's, which the leader does not yet count as holding its whole log
  (\<open>matchIndex\<close>) and whose \<open>nextIndex\<close> is between 1 and the length of the leader's log. Whatever the log of
  the follower holds, the loop of the leader's replication worker ends after at most \<open>nextIndex\<close> turns when
  its messages get through and no entry is added meanwhile, and then the follower's log begins with the
  whole log of the leader.
\<close>

theorem replication_catches_up:
  assumes "reachable ps c" "length ps \<le> 3" "IsLeader (nodes c i)" "j \<in> set (otherPeers (nodes c i))"
    and "currentTerm (nodes c j) \<le> currentTerm (nodes c i)" "1 \<le> nextIndex (nodes c i) j"
    and "nextIndex (nodes c i) j \<le> len (nlog (nodes c i))" "matchIndex (nodes c i) j < len (nlog (nodes c i)) - 1"
  shows "\<exists>c'. replicationWorker (nat (nextIndex (nodes c i) j)) i j c = Some c' \<and> nlog (nodes c' i) = nlog (nodes c i)
       \<and> take (length (nlog (nodes c i))) (nlog (nodes c' j)) = nlog (nodes c i)"
  using assms
proof (induction "nat (nextIndex (nodes c i) j)" arbitrary: c)
  case 0
  then show ?case by simp
next
  case (Suc k)
  let ?n = "nodes c i"
  obtain h where I: "inv ps c h" using Suc.prems(1,2) by (rule reachable_inv)
  have ij: "i \<noteq> j" and nj: "is_node ps j" using Suc.prems(4) inv_node(1) [OF I, of i] by (auto simp: otherPeers_iff node_ok_def)
  have L: "state ?n = Leader" using Suc.prems(3) by (simp add: IsLeader_def)
  then have ni: "is_node ps i" using inv_node(1) [OF I, of i] I by (auto simp: node_ok_def inv_def inv_leaders_def)
  from I refl L ij Suc.prems(5-8) show ?case
  proof (cases rule: turn_cases)
    case (accepted m n')
    then show ?thesis using ij by (simp add: Suc.hyps(2) [symmetric] set_node_def)
  next
    case (rejected m)
    let ?c = "set_node i (?n\<lparr>nextIndex := (nextIndex ?n)(j := nextIndex ?n j - 1)\<rparr>) (set_node j m c)"
    have "reachable ps ?c" by (rule replicateToFollower_reachable [OF Suc.prems(1) ni nj Suc.prems(4) ij rejected(3)])
    moreover have "nat (nextIndex ?n j - 1) = k" using Suc.hyps(2) by linarith
    ultimately have "\<exists>c'. replicationWorker k i j ?c = Some c' \<and> nlog (nodes c' i) = nlog ?n
       \<and> take (length (nlog ?n)) (nlog (nodes c' j)) = nlog ?n"
      using Suc.hyps(1) [of ?c] Suc.prems(2-) rejected(1,2) ij
      by (simp add: set_node_def IsLeader_def otherPeers_def del: nat_diff_distrib)
    then show ?thesis by (simp add: Suc.hyps(2) [symmetric] rejected(3))
  qed
qed

text \<open>
  Node 1 of the run above takes over in term 2; the first request to node 2, which lacks the entry, is
  refused and the second brings it up to date.
\<close>

definition vreq2 :: RequestVoteArgs where "vreq2 = \<lparr>rv_Term = 2, rv_CandidateId = 1, rv_LastLogIndex = 1, rv_LastLogTerm = 1\<rparr>"
definition vrep2 :: RequestVoteReply where "vrep2 = \<lparr>rvr_Term = 1, rvr_VoteGranted = True\<rparr>"

definition takeover_run :: "event list" where
  "takeover_run = [RunLoop 1, FollowerTimeout 1, RunLoop 1, StartElection 1,
     DeliverVoteRequest 1 0 vreq2, DeliverVoteRequest 1 2 vreq2, ReceiveVoteReply 1 2 0 vrep2, ReceiveVoteReply 1 2 2 vrep2]"

definition takeover_cluster :: cluster where
  "takeover_cluster = the (run takeover_run demo_cluster)"

lemma takeover_reachable: "reachable ps3 takeover_cluster"
proof (rule run_reachable [OF demo_reachable])
  have "run takeover_run demo_cluster \<noteq> None" by code_simp
  then show "run takeover_run demo_cluster = Some takeover_cluster" by (simp add: takeover_cluster_def)
  show "\<forall>e \<in> set takeover_run. is_node ps3 (actor e)" by code_simp
qed

theorem replication_catches_up_witness:
  "\<exists>c. replicationWorker 2 1 2 takeover_cluster = Some c \<and> nlog (nodes takeover_cluster 2) = [dummyEntry] \<and> take 2 (nlog (nodes c 2)) = [dummyEntry, entry1]"
proof -
  have h: "IsLeader (nodes takeover_cluster 1)" "2 \<in> set (otherPeers (nodes takeover_cluster 1))"
    "currentTerm (nodes takeover_cluster 2) \<le> currentTerm (nodes takeover_cluster 1)"
    "1 \<le> nextIndex (nodes takeover_cluster 1) 2"
    "nextIndex (nodes takeover_cluster 1) 2 \<le> len (nlog (nodes takeover_cluster 1))"
    "matchIndex (nodes takeover_cluster 1) 2 < len (nlog (nodes takeover_cluster 1)) - 1" by code_simp+
  have e: "nextIndex (nodes takeover_cluster 1) 2 = 2" "nlog (nodes takeover_cluster 1) = [dummyEntry, entry1]"
    "nlog (nodes takeover_cluster 2) = [dummyEntry]" by code_simp+
  show ?thesis using replication_catches_up [OF takeover_reachable length_ps3 h] e by (auto simp: numeral_2_eq_2)
qed

section \<open>A worker that never ends\<close>









end
