(* ===== verification/ServerConfig.thy ===== *)
theory ServerConfig
  imports Store
begin

text \<open>
  The configuration of a server: \<open>Config\<close>, \<open>normalizeConfig\<close>, \<open>deriveClientPeerAddresses\<close> and
  \<open>addressesByID\<close> of \<open>server/server.go\<close>, with the functions of Go's standard library they use
  (\<open>strings.TrimSpace\<close> for ASCII text, \<open>net.SplitHostPort\<close>, \<open>net.JoinHostPort\<close>, \<open>strconv.Atoi\<close>,
  \<open>strconv.Itoa\<close>). A Go \<open>int\<close> is 64 bits wide here.
\<close>

section \<open>Text\<close>

definition is_space :: "char \<Rightarrow> bool" where
  "is_space c \<longleftrightarrow> c \<in> {CHR 0x09, CHR 0x0A, CHR 0x0B, CHR 0x0C, CHR 0x0D, CHR 0x20}"

definition TrimSpace :: "string \<Rightarrow> string" where
  "TrimSpace s = rev (dropWhile is_space (rev (dropWhile is_space s)))"

text \<open>The parts of a string before and after the last occurrence of a character.\<close>

definition splitLast :: "char \<Rightarrow> string \<Rightarrow> (string \<times> string) option" where
  "splitLast c s =
     (if c \<in> set s
      then Some (rev (drop 1 (dropWhile (\<lambda>x. x \<noteq> c) (rev s))), rev (takeWhile (\<lambda>x. x \<noteq> c) (rev s)))
      else None)"

text \<open>
  \<open>net.SplitHostPort\<close>. The port follows the last colon; a host that contains colons stands in brackets.
\<close>

definition SplitHostPort :: "string \<Rightarrow> (string \<times> string) option" where
  "SplitHostPort hostport =
     (case splitLast CHR '':'' hostport of
        None \<Rightarrow> None
      | Some (before, port) \<Rightarrow>
          if hd hostport = CHR ''['' then
            (let host = takeWhile (\<lambda>x. x \<noteq> CHR '']'') (tl hostport);
                 rest = dropWhile (\<lambda>x. x \<noteq> CHR '']'') (tl hostport)
             in if rest = [] then None
                else if before \<noteq> CHR ''['' # host @ [CHR '']''] then None
                else if CHR ''['' \<in> set (tl hostport) then None
                else if CHR '']'' \<in> set (tl rest) then None
                else Some (host, port))
          else if CHR '':'' \<in> set before then None
          else if CHR ''['' \<in> set hostport \<or> CHR '']'' \<in> set hostport then None
          else Some (before, port))"

definition JoinHostPort :: "string \<Rightarrow> string \<Rightarrow> string" where
  "JoinHostPort host port =
     (if CHR '':'' \<in> set host then CHR ''['' # host @ '']:'' @ port else host @ '':'' @ port)"

definition Atoi :: "string \<Rightarrow> int option" where
  "Atoi s =
     (let neg = (s \<noteq> [] \<and> hd s = CHR ''-'');
          digits = (if s \<noteq> [] \<and> (hd s = CHR ''-'' \<or> hd s = CHR ''+'') then tl s else s)
      in if digits = [] then None
         else case digits_value 0 digits of
                None \<Rightarrow> None
              | Some n \<Rightarrow> let i = (if neg then - int n else int n)
                          in if is_int64 i then Some i else None)"

definition Itoa :: "int \<Rightarrow> string" where
  "Itoa i = (if i < 0 then CHR ''-'' # decimal (nat (- i)) else decimal (nat i))"

text \<open>Arithmetic on Go's \<open>int\<close> wraps around.\<close>

definition int64 :: "int \<Rightarrow> int" where
  "int64 i = sint (word_of_int i :: u64)"

section \<open>Configuration\<close>

record Config =
  cfg_ID :: int
  RaftAddress :: string
  ClientAddress :: string
  Peers :: "string list"
  ClientPeers :: "string list"
  StoreDir :: string
  StoreOptions :: OpenOptions
  ApplyBuffer :: int
  CommitTimeout :: int

datatype config_error =
    NegativeID
  | NoRaftAddress
  | PeerCountMismatch nat nat
  | BadAddress string
  | BadPort string
  | InvalidClientPort int string

definition parsePort :: "string \<Rightarrow> string \<Rightarrow> config_error + (string \<times> int)" where
  "parsePort shown addr =
     (case SplitHostPort addr of
        None \<Rightarrow> Inl (BadAddress shown)
      | Some (host, portText) \<Rightarrow>
          (case Atoi portText of None \<Rightarrow> Inl (BadPort portText) | Some port \<Rightarrow> Inr (host, port)))"

text \<open>The loop over the peers; \<open>offset\<close> is the distance between the client and the Raft port.\<close>

fun derivePeers :: "int \<Rightarrow> string list \<Rightarrow> config_error + string list" where
  "derivePeers offset [] = Inr []"
| "derivePeers offset (peer # ps) =
     (case parsePort peer (TrimSpace peer) of
        Inl e \<Rightarrow> Inl e
      | Inr (host, peerPort) \<Rightarrow>
          let clientPeerPort = int64 (peerPort + offset)
          in if clientPeerPort \<le> 0 then Inl (InvalidClientPort clientPeerPort peer)
             else case derivePeers offset ps of
                    Inl e \<Rightarrow> Inl e
                  | Inr rest \<Rightarrow> Inr (JoinHostPort host (Itoa clientPeerPort) # rest))"

definition deriveClientPeerAddresses :: "string list \<Rightarrow> string \<Rightarrow> string \<Rightarrow> config_error + string list" where
  "deriveClientPeerAddresses raftPeers raftAddress clientAddress =
     (case parsePort raftAddress raftAddress of
        Inl e \<Rightarrow> Inl e
      | Inr (_, raftPort) \<Rightarrow>
          (case parsePort clientAddress clientAddress of
             Inl e \<Rightarrow> Inl e
           | Inr (_, clientPort) \<Rightarrow> derivePeers (int64 (clientPort - raftPort)) raftPeers))"

definition addressesByID :: "string list \<Rightarrow> (int \<times> string) list" where
  "addressesByID addresses =
     filter (\<lambda>(i, a). a \<noteq> []) (map (\<lambda>(i, a). (int i, TrimSpace a)) (enumerate 0 addresses))"

text \<open>The steps of \<open>normalizeConfig\<close> after its checks: the client addresses, then the defaults.\<close>

definition fillClientAddress :: "Config \<Rightarrow> Config" where
  "fillClientAddress cfg =
     (if ClientAddress cfg = [] \<and> cfg_ID cfg < int (length (ClientPeers cfg))
      then cfg\<lparr>ClientAddress := TrimSpace (ClientPeers cfg ! nat (cfg_ID cfg))\<rparr> else cfg)"

definition fillClientPeers :: "Config \<Rightarrow> config_error + Config" where
  "fillClientPeers cfg =
     (if length (ClientPeers cfg) = 0 \<and> length (Peers cfg) > 0 \<and> ClientAddress cfg \<noteq> []
      then (case deriveClientPeerAddresses (Peers cfg) (RaftAddress cfg) (ClientAddress cfg) of
              Inl e \<Rightarrow> Inl e
            | Inr ps \<Rightarrow> Inr (cfg\<lparr>ClientPeers := ps\<rparr>))
      else Inr cfg)"

definition fillDefaults :: "Config \<Rightarrow> Config" where
  "fillDefaults cfg =
     (let cfg = (if StoreDir cfg = [] then cfg\<lparr>StoreDir := ''kvstore_'' @ Itoa (cfg_ID cfg)\<rparr> else cfg);
          cfg = (if ApplyBuffer cfg \<le> 0 then cfg\<lparr>ApplyBuffer := 256\<rparr> else cfg);
          cfg = (if CommitTimeout cfg \<le> 0 then cfg\<lparr>CommitTimeout := 5 * 10 ^ 9\<rparr> else cfg);
          cfg = (if MaxDataFileSizeBytes (StoreOptions cfg) \<le> 0
                 then cfg\<lparr>StoreOptions := (StoreOptions cfg)\<lparr>MaxDataFileSizeBytes := 64 * 1024 * 1024\<rparr>\<rparr> else cfg)
      in cfg\<lparr>StoreOptions := (StoreOptions cfg)\<lparr>ReadWrite := True\<rparr>\<rparr>)"

definition normalizeConfig :: "Config \<Rightarrow> config_error + Config" where
  "normalizeConfig cfg =
     (if cfg_ID cfg < 0 then Inl NegativeID
      else if RaftAddress cfg = [] then Inl NoRaftAddress
      else if length (ClientPeers cfg) > 0 \<and> length (ClientPeers cfg) \<noteq> length (Peers cfg)
        then Inl (PeerCountMismatch (length (ClientPeers cfg)) (length (Peers cfg)))
      else case fillClientPeers (fillClientAddress cfg) of
             Inl e \<Rightarrow> Inl e
           | Inr cfg \<Rightarrow> Inr (fillDefaults cfg))"

lemma fillDefaults_simps [simp]:
  "cfg_ID (fillDefaults cfg) = cfg_ID cfg" "RaftAddress (fillDefaults cfg) = RaftAddress cfg"
  "ClientAddress (fillDefaults cfg) = ClientAddress cfg" "Peers (fillDefaults cfg) = Peers cfg"
  "ClientPeers (fillDefaults cfg) = ClientPeers cfg"
  "StoreDir (fillDefaults cfg) = (if StoreDir cfg = [] then ''kvstore_'' @ Itoa (cfg_ID cfg) else StoreDir cfg)"
  "ApplyBuffer (fillDefaults cfg) = (if ApplyBuffer cfg \<le> 0 then 256 else ApplyBuffer cfg)"
  "CommitTimeout (fillDefaults cfg) = (if CommitTimeout cfg \<le> 0 then 5 * 10 ^ 9 else CommitTimeout cfg)"
  "ReadWrite (StoreOptions (fillDefaults cfg))" "SyncOnPut (StoreOptions (fillDefaults cfg)) = SyncOnPut (StoreOptions cfg)"
  "MaxDataFileSizeBytes (StoreOptions (fillDefaults cfg))
     = (if MaxDataFileSizeBytes (StoreOptions cfg) \<le> 0 then 64 * 1024 * 1024 else MaxDataFileSizeBytes (StoreOptions cfg))"
  by (simp_all add: fillDefaults_def Let_def)

lemma normalizeConfig_Inr:
  assumes "normalizeConfig cfg = Inr cfg'"
  obtains mid where "fillClientPeers (fillClientAddress cfg) = Inr mid" "cfg' = fillDefaults mid" "0 \<le> cfg_ID cfg" "RaftAddress cfg \<noteq> []"
    "ClientPeers cfg = [] \<or> length (ClientPeers cfg) = length (Peers cfg)"
  using assms by (auto simp: normalizeConfig_def split: if_splits sum.splits)

lemma fillClientPeers_Inr:
  assumes "fillClientPeers cfg = Inr mid"
  shows "mid = cfg\<lparr>ClientPeers := ClientPeers mid\<rparr>"
  using assms by (auto simp: fillClientPeers_def split: if_splits sum.splits)

end
