(* ===== verification/Server.thy ===== *)
theory Server
  imports ServerConfig Recovery RaftNode
begin

text \<open>
  The server of \<open>server/server.go\<close>, which puts the storage engine behind the replicated log. The fields a
  call and the apply loop share are the record \<open>RaftKVServer\<close>; the Raft node that \<open>raftNode\<close> points to is
  passed to the functions that use it (\<open>None\<close> is nil). Each section of the code that holds
  \<open>pendingLock\<close> is one function. A channel of capacity 1 is a slot that is empty or holds a value, and a
  function that would block on a full channel while it holds the lock returns \<open>None\<close>.
\<close>

section \<open>State\<close>

datatype srv_error = ErrNotLeader | ErrCommitTimeout | ErrServerClosed | ErrCanceled | StoreErr error

definition maxCompletedNotifications :: nat where
  "maxCompletedNotifications = 1024"

definition commandTypeReadBarrier :: string where
  "commandTypeReadBarrier = ''read_barrier''"

record pendingKey =
  pk_index :: int
  pk_term :: int

text \<open>A Go \<open>error\<close> is an option: \<open>None\<close> is nil. The channels made by calls are numbered.\<close>

type_synonym channels = "nat \<Rightarrow> srv_error option option"

record RaftKVServer =
  srv_id :: int
  address :: string
  clientAddress :: string
  store :: world
  pending :: "(pendingKey \<times> nat) list"
  completed :: "(pendingKey \<times> srv_error option) list"
  completionQ :: "pendingKey list"
  commitTimeout :: int
  clientPeers :: "(int \<times> string) list"
  closedCh :: bool
  waitChs :: channels
  nextCh :: nat

definition send :: "nat \<Rightarrow> srv_error option \<Rightarrow> channels \<Rightarrow> channels option" where
  "send ch err chs = (case chs ch of None \<Rightarrow> Some (chs(ch := Some err)) | Some _ \<Rightarrow> None)"

section \<open>Construction\<close>

datatype new_error = ConfigErr config_error | OpenErr error

definition NewRaftKVServer :: "os_env \<Rightarrow> bool \<Rightarrow> Config \<Rightarrow> dir \<Rightarrow> dir \<times> (new_error + RaftKVServer \<times> Node)" where
  "NewRaftKVServer os held cfg d =
     (case normalizeConfig cfg of
        Inl e \<Rightarrow> (d, Inl (ConfigErr e))
      | Inr cfg \<Rightarrow>
          (case OpenWithOptions os held (StoreOptions cfg) d of
             (d, Inl e) \<Rightarrow> (d, Inl (OpenErr e))
           | (d, Inr db) \<Rightarrow>
               let s = \<lparr>srv_id = cfg_ID cfg, address = RaftAddress cfg, clientAddress = ClientAddress cfg,
                        store = (db, d), pending = [], completed = [], completionQ = [],
                        commitTimeout = CommitTimeout cfg, clientPeers = addressesByID (ClientPeers cfg),
                        closedCh = False, waitChs = (\<lambda>_. None), nextCh = 0\<rparr>;
                   s = (if ClientAddress cfg \<noteq> []
                        then s\<lparr>clientPeers := AList.update (cfg_ID cfg) (ClientAddress cfg) (clientPeers s)\<rparr> else s)
               in (d, Inr (s, NewNode (cfg_ID cfg) (Peers cfg)))))"

section \<open>The apply loop\<close>

text \<open>The body of \<open>applyCommittedEntries\<close>: the command on the store, then the notification.\<close>

definition applyCommand :: "os_env \<Rightarrow> int \<Rightarrow> Command \<Rightarrow> world \<Rightarrow> world \<times> error option" where
  "applyCommand os now cmd w =
     (if cmd_Type cmd = ''put'' then DB_Put os now (cmd_Key cmd) (cmd_Value cmd) w
      else if cmd_Type cmd = ''delete'' then DB_Delete os now (cmd_Key cmd) w
      else (w, None))"

definition applyStore :: "os_env \<Rightarrow> int \<Rightarrow> ApplyMsg \<Rightarrow> RaftKVServer \<Rightarrow> RaftKVServer \<times> srv_error option" where
  "applyStore os now msg s =
     (case applyCommand os now (am_Command msg) (store s) of
        (w, applyErr) \<Rightarrow> (s\<lparr>store := w\<rparr>, map_option StoreErr applyErr))"

definition evictOldest :: "RaftKVServer \<Rightarrow> RaftKVServer" where
  "evictOldest s =
     (if length (completionQ s) \<ge> maxCompletedNotifications
      then s\<lparr>completionQ := tl (completionQ s), completed := AList.delete (hd (completionQ s)) (completed s)\<rparr>
      else s)"

definition notifyApplied :: "pendingKey \<Rightarrow> srv_error option \<Rightarrow> RaftKVServer \<Rightarrow> RaftKVServer option" where
  "notifyApplied key applyErr s =
     (case map_of (pending s) key of
        Some ch \<Rightarrow>
          (case send ch applyErr (waitChs s) of
             None \<Rightarrow> None
           | Some chs \<Rightarrow> Some (s\<lparr>waitChs := chs, pending := AList.delete key (pending s)\<rparr>))
      | None \<Rightarrow>
          let s = evictOldest s
          in Some (s\<lparr>completed := AList.update key applyErr (completed s), completionQ := completionQ s @ [key]\<rparr>))"

definition msgKey :: "ApplyMsg \<Rightarrow> pendingKey" where
  "msgKey msg = \<lparr>pk_index = am_Index msg, pk_term = am_Term msg\<rparr>"

section \<open>Calls\<close>

text \<open>
  \<open>submitAndWait\<close> in the pieces between which other goroutines run: the submission, the registration
  under the lock, and the three branches of its last \<open>select\<close>.
\<close>

definition submitCommand :: "Command \<Rightarrow> Node option \<Rightarrow> Node option \<times> (srv_error + pendingKey)" where
  "submitCommand cmd node =
     (case node of
        None \<Rightarrow> (None, Inl ErrNotLeader)
      | Some n \<Rightarrow>
          (case Submit cmd n of
             (n, index, term, isLeader) \<Rightarrow>
               if \<not> isLeader then (Some n, Inl ErrNotLeader)
               else (Some n, Inr \<lparr>pk_index = index, pk_term = term\<rparr>)))"

datatype registration = Answered "srv_error option" | Waits nat

definition register :: "pendingKey \<Rightarrow> RaftKVServer \<Rightarrow> RaftKVServer \<times> registration" where
  "register waitKey s =
     (let waitCh = nextCh s; s = s\<lparr>nextCh := nextCh s + 1\<rparr>
      in if closedCh s then (s, Answered (Some ErrServerClosed))
         else case map_of (completed s) waitKey of
                Some err \<Rightarrow> (s\<lparr>completed := AList.delete waitKey (completed s)\<rparr>, Answered err)
              | None \<Rightarrow> (s\<lparr>pending := AList.update waitKey waitCh (pending s)\<rparr>, Waits waitCh))"

definition receive :: "nat \<Rightarrow> RaftKVServer \<Rightarrow> (RaftKVServer \<times> srv_error option) option" where
  "receive waitCh s =
     (case waitChs s waitCh of
        None \<Rightarrow> None
      | Some err \<Rightarrow> Some (s\<lparr>waitChs := (waitChs s)(waitCh := None)\<rparr>, err))"

definition forget :: "pendingKey \<Rightarrow> RaftKVServer \<Rightarrow> RaftKVServer" where
  "forget waitKey s = s\<lparr>pending := AList.delete waitKey (pending s)\<rparr>"

text \<open>The branch of a context that is done; \<open>deadline\<close> says whether its deadline passed.\<close>

definition contextDone :: "bool \<Rightarrow> pendingKey \<Rightarrow> RaftKVServer \<Rightarrow> RaftKVServer \<times> srv_error" where
  "contextDone deadline waitKey s = (forget waitKey s, if deadline then ErrCommitTimeout else ErrCanceled)"

definition serverClosed :: "pendingKey \<Rightarrow> RaftKVServer \<Rightarrow> (RaftKVServer \<times> srv_error) option" where
  "serverClosed waitKey s = (if closedCh s then Some (forget waitKey s, ErrServerClosed) else None)"

text \<open>The three requests of a client, with the command each of them replicates.\<close>

datatype request = ReqGet string | ReqPut string string | ReqDelete string

fun commandOf :: "request \<Rightarrow> Command" where
  "commandOf (ReqGet key) = \<lparr>cmd_Type = commandTypeReadBarrier, cmd_Key = [], cmd_Value = []\<rparr>"
| "commandOf (ReqPut key value) = \<lparr>cmd_Type = ''put'', cmd_Key = key, cmd_Value = value\<rparr>"
| "commandOf (ReqDelete key) = \<lparr>cmd_Type = ''delete'', cmd_Key = key, cmd_Value = []\<rparr>"

text \<open>The end of \<open>Get\<close>, after its read barrier was applied.\<close>

definition readStore :: "os_env \<Rightarrow> string \<Rightarrow> RaftKVServer \<Rightarrow> RaftKVServer \<times> (srv_error + byte list)" where
  "readStore os key s =
     (case DB_Get os key (store s) of
        (w, Inl e) \<Rightarrow> (s\<lparr>store := w\<rparr>, Inl (StoreErr e))
      | (w, Inr v) \<Rightarrow> (s\<lparr>store := w\<rparr>, Inr v))"

text \<open>\<open>withCommitTimeout\<close>: a context is \<open>None\<close> (nil) or has an optional deadline.\<close>

definition withCommitTimeout :: "int \<Rightarrow> int option option \<Rightarrow> RaftKVServer \<Rightarrow> int option" where
  "withCommitTimeout now ctx s =
     (case ctx of
        None \<Rightarrow> Some (now + commitTimeout s)
      | Some (Some t) \<Rightarrow> Some t
      | Some None \<Rightarrow> Some (now + commitTimeout s))"

section \<open>Closing\<close>

definition closeSignal :: "RaftKVServer \<Rightarrow> RaftKVServer" where
  "closeSignal s = s\<lparr>closedCh := True\<rparr>"

fun closePending :: "(pendingKey \<times> nat) list \<Rightarrow> RaftKVServer \<Rightarrow> RaftKVServer option" where
  "closePending [] s = Some s"
| "closePending ((key, ch) # ps) s =
     (case send ch (Some ErrServerClosed) (waitChs s) of
        None \<Rightarrow> None
      | Some chs \<Rightarrow> closePending ps (s\<lparr>waitChs := chs, pending := AList.delete key (pending s)\<rparr>))"

definition closeStore :: "os_env \<Rightarrow> RaftKVServer \<Rightarrow> RaftKVServer" where
  "closeStore os s = s\<lparr>store := (fst (DB_Close os (fst (store s))), snd (store s))\<rparr>"

section \<open>Answers to clients\<close>

record KVResponse =
  Success :: bool
  resp_Value :: "byte list"
  resp_Error :: string
  resp_Leader :: string

definition srvIsLeader :: "Node option \<Rightarrow> bool" where
  "srvIsLeader node = (case node of None \<Rightarrow> False | Some n \<Rightarrow> IsLeader n)"

definition leaderAddress :: "Node option \<Rightarrow> RaftKVServer \<Rightarrow> string" where
  "leaderAddress node s =
     (case node of
        None \<Rightarrow> []
      | Some n \<Rightarrow>
          let leaderID = LeaderID n
          in if leaderID < 0 then []
             else case map_of (clientPeers s) leaderID of
                    Some a \<Rightarrow> a
                  | None \<Rightarrow> if leaderID = srv_id s then clientAddress s else [])"

text \<open>\<open>errText\<close> is the \<open>Error\<close> method: the texts of operating-system errors are not in the source.\<close>

definition errorResponse :: "(srv_error \<Rightarrow> string) \<Rightarrow> Node option \<Rightarrow> RaftKVServer \<Rightarrow> srv_error \<Rightarrow> KVResponse" where
  "errorResponse errText node s err =
     (let resp = \<lparr>Success = False, resp_Value = [], resp_Error = errText err, resp_Leader = []\<rparr>
      in if err = ErrNotLeader then resp\<lparr>resp_Leader := leaderAddress node s\<rparr> else resp)"

text \<open>The methods of \<open>GRPCKVService\<close>, given what the server's method returned.\<close>

definition respondGet :: "(srv_error \<Rightarrow> string) \<Rightarrow> Node option \<Rightarrow> RaftKVServer \<Rightarrow> srv_error + byte list \<Rightarrow> KVResponse" where
  "respondGet errText node s r =
     (case r of
        Inl err \<Rightarrow> errorResponse errText node s err
      | Inr value \<Rightarrow> \<lparr>Success = True, resp_Value = value, resp_Error = [], resp_Leader = []\<rparr>)"

definition respondWrite :: "(srv_error \<Rightarrow> string) \<Rightarrow> Node option \<Rightarrow> RaftKVServer \<Rightarrow> srv_error option \<Rightarrow> KVResponse" where
  "respondWrite errText node s r =
     (case r of
        Some err \<Rightarrow> errorResponse errText node s err
      | None \<Rightarrow> \<lparr>Success = True, resp_Value = [], resp_Error = [], resp_Leader = []\<rparr>)"

definition StartClientListener :: "bool \<Rightarrow> string \<Rightarrow> RaftKVServer \<Rightarrow> RaftKVServer option" where
  "StartClientListener listens clientPort s =
     (if \<not> listens then None
      else Some (s\<lparr>clientAddress := clientPort, clientPeers := AList.update (srv_id s) clientPort (clientPeers s)\<rparr>))"

section \<open>Raft messages\<close>

definition GRPCRaftService_RequestVote :: "PbRequestVoteRequest \<Rightarrow> Node \<Rightarrow> (Node \<times> PbRequestVoteResponse) option" where
  "GRPCRaftService_RequestVote req n =
     (case HandleRequestVote (RequestVoteArgsFromProto req) n of
        None \<Rightarrow> None
      | Some (n, reply) \<Rightarrow> Some (n, RequestVoteReplyToProto reply))"

definition GRPCRaftService_AppendEntries :: "PbAppendEntriesRequest \<Rightarrow> Node \<Rightarrow> (Node \<times> PbAppendEntriesResponse) option" where
  "GRPCRaftService_AppendEntries req n =
     (case AppendEntriesArgsFromProto req of
        None \<Rightarrow> None
      | Some args \<Rightarrow>
          (case HandleAppendEntries args n of
             None \<Rightarrow> None
           | Some (n, reply) \<Rightarrow> Some (n, AppendEntriesReplyToProto reply)))"

text \<open>\<open>GRPCClient\<close>: \<open>dial\<close> and \<open>rpc\<close> are the gRPC library; the state is its map of connections.\<close>

definition getConnection :: "(string \<Rightarrow> 'c option) \<Rightarrow> string \<Rightarrow> (string \<times> 'c) list \<Rightarrow> (string \<times> 'c) list \<times> 'c option" where
  "getConnection dial target conns =
     (case map_of conns target of
        Some conn \<Rightarrow> (conns, Some conn)
      | None \<Rightarrow>
          (case dial target of
             None \<Rightarrow> (conns, None)
           | Some conn \<Rightarrow> (AList.update target conn conns, Some conn)))"

definition GRPCClient_RequestVote ::
  "(string \<Rightarrow> 'c option) \<Rightarrow> ('c \<Rightarrow> PbRequestVoteRequest \<Rightarrow> PbRequestVoteResponse option) \<Rightarrow> string \<Rightarrow> RequestVoteArgs
    \<Rightarrow> (string \<times> 'c) list \<Rightarrow> (string \<times> 'c) list \<times> RequestVoteReply option" where
  "GRPCClient_RequestVote dial rpc target args conns =
     (case getConnection dial target conns of
        (conns, None) \<Rightarrow> (conns, None)
      | (conns, Some conn) \<Rightarrow>
          (conns, map_option RequestVoteReplyFromProto (rpc conn (RequestVoteArgsToProto args))))"

definition GRPCClient_AppendEntries ::
  "(string \<Rightarrow> 'c option) \<Rightarrow> ('c \<Rightarrow> PbAppendEntriesRequest \<Rightarrow> PbAppendEntriesResponse option) \<Rightarrow> string \<Rightarrow> AppendEntriesArgs
    \<Rightarrow> (string \<times> 'c) list \<Rightarrow> (string \<times> 'c) list \<times> AppendEntriesReply option" where
  "GRPCClient_AppendEntries dial rpc target args conns =
     (case getConnection dial target conns of
        (conns, None) \<Rightarrow> (conns, None)
      | (conns, Some conn) \<Rightarrow>
          (conns, map_option AppendEntriesReplyFromProto (rpc conn (AppendEntriesArgsToProto args))))"

end
