(* ===== verification/Wire.thy ===== *)
theory Wire
  imports Server
begin

text \<open>
  The way of a Raft message over gRPC: \<open>GRPCClient\<close> converts the request, the service of the other node
  converts it back, runs the handler and converts the reply. The library between them is a parameter.
\<close>

section \<open>Conversions there and back\<close>

lemmas wire_defs = RequestVoteArgsToProto_def RequestVoteArgsFromProto_def RequestVoteReplyToProto_def RequestVoteReplyFromProto_def
  AppendEntriesArgsToProto_def AppendEntriesArgsFromProto_def AppendEntriesReplyToProto_def AppendEntriesReplyFromProto_def

lemma RequestVoteArgs_roundtrip: "RequestVoteArgsFromProto (RequestVoteArgsToProto a) = a \<longleftrightarrow> rv_in_range a"
  by (cases a) (auto simp: wire_defs rv_in_range_def sint_int32_iff)

lemma AppendEntriesArgs_roundtrip: "AppendEntriesArgsFromProto (AppendEntriesArgsToProto a) = Some a \<longleftrightarrow> ae_in_range a"
  using entries_roundtrip [of "ae_Entries a"]
  by (cases a) (auto simp: wire_defs ae_in_range_def sint_int32_iff split: option.splits)

lemma reply_roundtrip:
  "RequestVoteReplyFromProto (RequestVoteReplyToProto r) = r \<longleftrightarrow> is_int32 (rvr_Term r)"
  "AppendEntriesReplyFromProto (AppendEntriesReplyToProto q) = q \<longleftrightarrow> is_int32 (aer_Term q)"
  by (cases r, auto simp: wire_defs sint_int32_iff) (cases q, auto simp: wire_defs sint_int32_iff)

lemma entriesFromProto_defined: "entriesFromProto (map LogEntryToProto es) \<noteq> None"
  using LogEntryFromProto_ToProto_neq_None by (induction es) (auto split: option.splits)

text \<open>
  C37: what the wire carries. The conversions of a request and of a reply give the same message back exactly
  when each of its numbers fits in 32 bits; a conversion never fails, so outside that range the other node
  handles a different message.
\<close>

theorem wire_range:
  "(RequestVoteArgsFromProto (RequestVoteArgsToProto v) = v \<longleftrightarrow> rv_in_range v)
   \<and> (RequestVoteReplyFromProto (RequestVoteReplyToProto r) = r \<longleftrightarrow> is_int32 (rvr_Term r))
   \<and> (AppendEntriesArgsFromProto (AppendEntriesArgsToProto a) = Some a \<longleftrightarrow> ae_in_range a)
   \<and> AppendEntriesArgsFromProto (AppendEntriesArgsToProto a) \<noteq> None
   \<and> (AppendEntriesReplyFromProto (AppendEntriesReplyToProto q) = q \<longleftrightarrow> is_int32 (aer_Term q))"
  using entriesFromProto_defined [of "ae_Entries a"]
  by (auto simp: RequestVoteArgs_roundtrip AppendEntriesArgs_roundtrip reply_roundtrip)
    (auto simp: AppendEntriesArgsFromProto_def AppendEntriesArgsToProto_def split: option.splits)

section \<open>A remote call\<close>

text \<open>
  C36: a call of the gRPC client on a connection that reaches the service of a node returns what the node's
  handler returns on the request itself, and leaves the node as the handler does, as long as the numbers
  fit in 32 bits: the delivery of messages in the cluster model is what the transport does.
\<close>

theorem rpc_transparent:
  assumes "getConnection dial target conns = (conns', Some conn)" "is_int32 (currentTerm n)"
    and "\<And>q. rpcVote conn q = map_option snd (GRPCRaftService_RequestVote q n)"
    and "\<And>q. rpcAppend conn q = map_option snd (GRPCRaftService_AppendEntries q n)"
    and "rv_in_range v" "HandleRequestVote v n = Some (nv, r)" "ae_in_range a" "HandleAppendEntries a n = Some (na, q)"
  shows "GRPCClient_RequestVote dial rpcVote target v conns = (conns', Some r)
     \<and> map_option fst (GRPCRaftService_RequestVote (RequestVoteArgsToProto v) n) = Some nv
     \<and> GRPCClient_AppendEntries dial rpcAppend target a conns = (conns', Some q)
     \<and> map_option fst (GRPCRaftService_AppendEntries (AppendEntriesArgsToProto a) n) = Some na"
proof -
  have "is_int32 (rvr_Term r)" "is_int32 (aer_Term q)"
    using HandleRequestVote_term [OF assms(6)] HandleAppendEntries_term [OF assms(8)] assms(2) by simp_all
  then show ?thesis
    using assms RequestVoteArgs_roundtrip [of v] AppendEntriesArgs_roundtrip [of a] reply_roundtrip(1) [of r] reply_roundtrip(2) [of q]
    by (simp add: GRPCClient_RequestVote_def GRPCClient_AppendEntries_def GRPCRaftService_RequestVote_def GRPCRaftService_AppendEntries_def)
qed

theorem rpc_transparent_witness:
  "let n = NewNode 1 [''a:1'', ''b:1'', ''c:1''];
       v = \<lparr>rv_Term = 1, rv_CandidateId = 0, rv_LastLogIndex = 0, rv_LastLogTerm = 0\<rparr>;
       a = \<lparr>ae_Term = 1, ae_LeaderId = 0, ae_PrevLogIndex = 0, ae_PrevLogTerm = 0, ae_Entries = [], ae_LeaderCommit = 0\<rparr>
   in GRPCClient_RequestVote Some (\<lambda>_ q. map_option snd (GRPCRaftService_RequestVote q n)) ''b:1'' v []
        = ([(''b:1'', ''b:1'')], Some \<lparr>rvr_Term = 0, rvr_VoteGranted = True\<rparr>)
    \<and> GRPCClient_AppendEntries Some (\<lambda>_ q. map_option snd (GRPCRaftService_AppendEntries q n)) ''b:1'' a []
        = ([(''b:1'', ''b:1'')], Some \<lparr>aer_Term = 0, aer_Success = True\<rparr>)"
proof -
  define n where "n = NewNode 1 [''a:1'', ''b:1'', ''c:1'']"
  define v where "v = \<lparr>rv_Term = 1, rv_CandidateId = 0, rv_LastLogIndex = 0, rv_LastLogTerm = 0\<rparr>"
  define a where "a = \<lparr>ae_Term = 1, ae_LeaderId = 0, ae_PrevLogIndex = 0, ae_PrevLogTerm = 0, ae_Entries = [], ae_LeaderCommit = 0\<rparr>"
  have c: "getConnection Some ''b:1'' [] = ([(''b:1'', ''b:1'')], Some ''b:1'')" by (simp add: getConnection_def)
  have r: "is_int32 (currentTerm n)" "rv_in_range v" "ae_in_range a"
    by (simp_all add: n_def NewNode_def v_def a_def is_int32_def rv_in_range_def ae_in_range_def)
  have "map_option snd (HandleRequestVote v n) = Some \<lparr>rvr_Term = 0, rvr_VoteGranted = True\<rparr>"
    "map_option snd (HandleAppendEntries a n) = Some \<lparr>aer_Term = 0, aer_Success = True\<rparr>"
    unfolding n_def v_def a_def by code_simp+
  then obtain nv na where "HandleRequestVote v n = Some (nv, \<lparr>rvr_Term = 0, rvr_VoteGranted = True\<rparr>)"
    "HandleAppendEntries a n = Some (na, \<lparr>aer_Term = 0, aer_Success = True\<rparr>)" by auto
  with rpc_transparent [OF c r(1) refl refl r(2) _ r(3)] show ?thesis
    unfolding Let_def n_def [symmetric] v_def [symmetric] a_def [symmetric] by blast
qed

end
