(* ===== verification/Service.thy ===== *)
theory Service
  imports Server RaftCluster Durability
begin

text \<open>
  The whole service: the Raft nodes, one server on top of each of them, and the clients' calls. A step
  is one event; between two steps any other goroutine of any server may run. A call passes through the
  pieces of \<open>submitAndWait\<close> in Server; the apply loop of a server takes the messages its node has sent on
  \<open>applyCh\<close> in order. The calls carry two history variables: how far every node had applied the log when
  the call began, and the position of the log its answer reflects.
\<close>

section \<open>State\<close>

type_synonym response = "srv_error + byte list option"

datatype callPC =
    NotStarted
  | Refused srv_error
  | Submitted pendingKey
  | Blocked pendingKey nat
  | Reading pendingKey
  | Returned pendingKey response nat  \<comment> \<open>the answer and the position of the log it reflects\<close>

record call =
  c_server :: int
  c_req :: request
  c_pc :: callPC
  c_floor :: "int \<Rightarrow> nat"  \<comment> \<open>how many messages each node had sent when the call began\<close>

datatype closePC = Running | Answering | Stopping | Stopped

record service =
  raft :: cluster
  servers :: "int \<Rightarrow> RaftKVServer"
  taken :: "int \<Rightarrow> nat"  \<comment> \<open>messages the apply loop has taken from \<open>applyCh\<close>\<close>
  notifying :: "int \<Rightarrow> (pendingKey \<times> srv_error option) option"  \<comment> \<open>the apply loop between the store and the lock\<close>
  closing :: "int \<Rightarrow> closePC"
  calls :: "nat \<Rightarrow> call"
  clock :: "int \<Rightarrow> int"  \<comment> \<open>the time of the last command on a server's store\<close>

definition idleCall :: call where
  "idleCall = \<lparr>c_server = 0, c_req = ReqGet [], c_pc = NotStarted, c_floor = (\<lambda>_. 0)\<rparr>"

definition initService :: "string list \<Rightarrow> (int \<Rightarrow> RaftKVServer) \<Rightarrow> service" where
  "initService ps srvs =
     \<lparr>raft = initCluster ps, servers = srvs, taken = (\<lambda>_. 0), notifying = (\<lambda>_. None), closing = (\<lambda>_. Running),
      calls = (\<lambda>_. idleCall), clock = (\<lambda>_. 0)\<rparr>"

definition set_srv :: "int \<Rightarrow> RaftKVServer \<Rightarrow> service \<Rightarrow> service" where
  "set_srv i v s = s\<lparr>servers := (servers s)(i := v)\<rparr>"

definition set_callpc :: "nat \<Rightarrow> callPC \<Rightarrow> service \<Rightarrow> service" where
  "set_callpc c p s = s\<lparr>calls := (calls s)(c := (calls s c)\<lparr>c_pc := p\<rparr>)\<rparr>"

section \<open>Calls\<close>

definition startCall :: "nat \<Rightarrow> int \<Rightarrow> request \<Rightarrow> service \<Rightarrow> service option" where
  "startCall c i req s =
     (if c_pc (calls s c) \<noteq> NotStarted then None
      else
        let start = (\<lambda>p. \<lparr>c_server = i, c_req = req, c_pc = p, c_floor = (\<lambda>j. length (applied (raft s) j))\<rparr>)
        in case submitCommand (commandOf req) (Some (nodes (raft s) i)) of
             (Some n, Inl e) \<Rightarrow> Some (s\<lparr>raft := set_node i n (raft s), calls := (calls s)(c := start (Refused e))\<rparr>)
           | (Some n, Inr key) \<Rightarrow> Some (s\<lparr>raft := set_node i n (raft s), calls := (calls s)(c := start (Submitted key))\<rparr>)
           | (None, _) \<Rightarrow> None)"

text \<open>What a call does with the result of \<open>submitAndWait\<close>: \<open>Put\<close> and \<open>Delete\<close> return it, \<open>Get\<close> reads on.\<close>

definition afterWait :: "request \<Rightarrow> pendingKey \<Rightarrow> srv_error option \<Rightarrow> callPC" where
  "afterWait req key err =
     (case err of
        Some e \<Rightarrow> Returned key (Inl e) (nat (pk_index key))
      | None \<Rightarrow> (case req of ReqGet k \<Rightarrow> Reading key | _ \<Rightarrow> Returned key (Inr None) (nat (pk_index key))))"

definition registerCall :: "nat \<Rightarrow> service \<Rightarrow> service option" where
  "registerCall c s =
     (let i = c_server (calls s c)
      in case c_pc (calls s c) of
           Submitted key \<Rightarrow>
             (case register key (servers s i) of
                (v, Answered err) \<Rightarrow> Some (set_callpc c (afterWait (c_req (calls s c)) key err) (set_srv i v s))
              | (v, Waits ch) \<Rightarrow> Some (set_callpc c (Blocked key ch) (set_srv i v s)))
         | _ \<Rightarrow> None)"

definition receiveCall :: "nat \<Rightarrow> service \<Rightarrow> service option" where
  "receiveCall c s =
     (let i = c_server (calls s c)
      in case c_pc (calls s c) of
           Blocked key ch \<Rightarrow>
             (case receive ch (servers s i) of
                Some (v, err) \<Rightarrow> Some (set_callpc c (afterWait (c_req (calls s c)) key err) (set_srv i v s))
              | None \<Rightarrow> None)
         | _ \<Rightarrow> None)"

definition expireCall :: "nat \<Rightarrow> bool \<Rightarrow> service \<Rightarrow> service option" where
  "expireCall c deadline s =
     (let i = c_server (calls s c)
      in case c_pc (calls s c) of
           Blocked key ch \<Rightarrow>
             (case contextDone deadline key (servers s i) of
                (v, e) \<Rightarrow> Some (set_callpc c (afterWait (c_req (calls s c)) key (Some e)) (set_srv i v s)))
         | _ \<Rightarrow> None)"

definition closedCall :: "nat \<Rightarrow> service \<Rightarrow> service option" where
  "closedCall c s =
     (let i = c_server (calls s c)
      in case c_pc (calls s c) of
           Blocked key ch \<Rightarrow>
             (case serverClosed key (servers s i) of
                Some (v, e) \<Rightarrow> Some (set_callpc c (afterWait (c_req (calls s c)) key (Some e)) (set_srv i v s))
              | None \<Rightarrow> None)
         | _ \<Rightarrow> None)"

definition readCall :: "nat \<Rightarrow> service \<Rightarrow> service option" where
  "readCall c s =
     (let i = c_server (calls s c)
      in case (c_pc (calls s c), c_req (calls s c)) of
           (Reading key, ReqGet k) \<Rightarrow>
             (case readStore no_faults k (servers s i) of
                (v, Inl e) \<Rightarrow> Some (set_callpc c (Returned key (Inl e) (taken s i)) (set_srv i v s))
              | (v, Inr b) \<Rightarrow> Some (set_callpc c (Returned key (Inr (Some b)) (taken s i)) (set_srv i v s)))
         | _ \<Rightarrow> None)"

section \<open>Servers\<close>

definition takeMessage :: "int \<Rightarrow> int \<Rightarrow> service \<Rightarrow> service option" where
  "takeMessage i now s =
     (if notifying s i \<noteq> None \<or> taken s i \<ge> length (applied (raft s) i) then None
      else
        let msg = applied (raft s) i ! taken s i
        in case applyStore no_faults now msg (servers s i) of
             (v, err) \<Rightarrow> Some ((set_srv i v s)\<lparr>taken := (taken s)(i := taken s i + 1),
                notifying := (notifying s)(i := Some (msgKey msg, err)), clock := (clock s)(i := now)\<rparr>))"

definition notifyStep :: "int \<Rightarrow> service \<Rightarrow> service option" where
  "notifyStep i s =
     (case notifying s i of
        None \<Rightarrow> None
      | Some (key, err) \<Rightarrow>
          (case notifyApplied key err (servers s i) of
             None \<Rightarrow> None
           | Some v \<Rightarrow> Some ((set_srv i v s)\<lparr>notifying := (notifying s)(i := None)\<rparr>)))"

definition closeStep :: "int \<Rightarrow> service \<Rightarrow> service option" where
  "closeStep i s =
     (case closing s i of
        Running \<Rightarrow> Some ((set_srv i (closeSignal (servers s i)) s)\<lparr>closing := (closing s)(i := Answering)\<rparr>)
      | Answering \<Rightarrow>
          (case closePending (pending (servers s i)) (servers s i) of
             None \<Rightarrow> None
           | Some v \<Rightarrow> Some ((set_srv i v s)\<lparr>closing := (closing s)(i := Stopping)\<rparr>))
      | Stopping \<Rightarrow> Some ((set_srv i (closeStore no_faults (servers s i)) s)\<lparr>closing := (closing s)(i := Stopped)\<rparr>)
      | Stopped \<Rightarrow> None)"

section \<open>Steps\<close>

datatype svc_event =
    RaftEvent event
  | StartCall nat int request
  | RegisterCall nat
  | ReceiveCall nat
  | ExpireCall nat bool
  | ClosedCall nat
  | ReadCall nat
  | TakeMessage int int
  | NotifyStep int
  | CloseStep int

fun svc_exec :: "svc_event \<Rightarrow> service \<Rightarrow> service option" where
  "svc_exec (RaftEvent e) s =
     (case e of
        ClientSubmit i cmd \<Rightarrow> None
      | _ \<Rightarrow> (case exec e (raft s) of None \<Rightarrow> None | Some c \<Rightarrow> Some (s\<lparr>raft := c\<rparr>)))"
| "svc_exec (StartCall c i req) s = startCall c i req s"
| "svc_exec (RegisterCall c) s = registerCall c s"
| "svc_exec (ReceiveCall c) s = receiveCall c s"
| "svc_exec (ExpireCall c deadline) s = expireCall c deadline s"
| "svc_exec (ClosedCall c) s = closedCall c s"
| "svc_exec (ReadCall c) s = readCall c s"
| "svc_exec (TakeMessage i now) s = takeMessage i now s"
| "svc_exec (NotifyStep i) s = notifyStep i s"
| "svc_exec (CloseStep i) s = closeStep i s"

fun svc_run :: "svc_event list \<Rightarrow> service \<Rightarrow> service option" where
  "svc_run [] s = Some s"
| "svc_run (e # es) s = (case svc_exec e s of None \<Rightarrow> None | Some s' \<Rightarrow> svc_run es s')"

text \<open>
  What the steps ask of the surroundings: events happen at nodes of the cluster; the clock of a server
  does not run backwards between commands on its store, records fit their length fields, and there are
  fewer than \<open>2 ^ 64\<close> data files.
\<close>

fun storable :: "int \<Rightarrow> int \<Rightarrow> Command \<Rightarrow> bool" where
  "storable t now cmd \<longleftrightarrow> t \<le> now \<and>
     (if cmd_Type cmd = ''put'' then fits now (cmd_Key cmd) (length (cmd_Value cmd))
      else if cmd_Type cmd = ''delete'' then fits now (cmd_Key cmd) 21 else True)"

fun allowed :: "string list \<Rightarrow> svc_event \<Rightarrow> service \<Rightarrow> bool" where
  "allowed ps (RaftEvent e) s = is_node ps (actor e)"
| "allowed ps (StartCall c i req) s = is_node ps i"
| "allowed ps (TakeMessage i now) s \<longleftrightarrow> is_node ps i \<and> int (taken s i) + 4 < 2 ^ 64
     \<and> storable (clock s i) now (am_Command (applied (raft s) i ! taken s i))"
| "allowed ps (NotifyStep i) s = is_node ps i"
| "allowed ps (CloseStep i) s = is_node ps i"
| "allowed ps _ s = True"

text \<open>Servers that were made on empty directories, one for each node.\<close>

definition made_servers :: "string list \<Rightarrow> (int \<Rightarrow> Config) \<Rightarrow> (int \<Rightarrow> RaftKVServer) \<Rightarrow> bool" where
  "made_servers ps cfgs srvs \<longleftrightarrow> (\<forall>i. is_node ps i \<longrightarrow> cfg_ID (cfgs i) = i \<and> Peers (cfgs i) = ps
     \<and> MaxDataFileSizeBytes (StoreOptions (cfgs i)) < 2 ^ 63
     \<and> (\<exists>d. NewRaftKVServer no_faults False (cfgs i) [] = (d, Inr (srvs i, nodes (initCluster ps) i))))"

inductive served :: "string list \<Rightarrow> service \<Rightarrow> bool" for ps :: "string list" where
  served_init: "made_servers ps cfgs srvs \<Longrightarrow> served ps (initService ps srvs)"
| served_step: "served ps s \<Longrightarrow> allowed ps e s \<Longrightarrow> svc_exec e s = Some s' \<Longrightarrow> served ps s'"

end
