(* ===== verification/ServiceKeys.thy ===== *)
theory ServiceKeys
  imports Service RaftSafety
begin

text \<open>
  The identity of a call is the index and the term its command got from \<open>Submit\<close>. This theory shows what
  the log makes of it: no two calls have the same key, the message that carries a call's key carries
  its command, and no message that a node had sent before the call began has its key.
\<close>

section \<open>Messages and the leaders' logs\<close>

lemma applied_entry:
  assumes I: "inv ps c h" and m: "m < length (applied c i)"
  shows "am_Index (applied c i ! m) = int (Suc m)" "elected h (am_Term (applied c i ! m))"
    "Suc m < length (h_tlog h (am_Term (applied c i ! m)))"
    "applied c i ! m = msg_of (h_tlog h (am_Term (applied c i ! m)) ! Suc m)"
proof -
  let ?n = "nodes c i"
  have ok: "commit_ok ps h ?n (applied c i)" and w: "wf_log h (nlog ?n)"
    using inv_node [OF I, of i] by (simp_all add: node_ok_def)
  from ok m have eq: "applied c i ! m = msg_of (nlog ?n ! Suc m)" and l: "Suc m < length (nlog ?n)"
    by (auto simp: commit_ok_def nth_tl)
  from w l have el: "elected h (le_Term (nlog ?n ! Suc m))" and x: "le_Index (nlog ?n ! Suc m) = int (Suc m)"
    and a: "agree (Suc m) (nlog ?n) (h_tlog h (le_Term (nlog ?n ! Suc m)))" by (auto simp: wf_log_def)
  have t: "am_Term (applied c i ! m) = le_Term (nlog ?n ! Suc m)" by (simp add: eq msg_of_def)
  show "am_Index (applied c i ! m) = int (Suc m)" unfolding eq using x by (simp add: msg_of_def)
  show "elected h (am_Term (applied c i ! m))" using el t by simp
  show "Suc m < length (h_tlog h (am_Term (applied c i ! m)))" using agree_length [OF a] t by simp
  show "applied c i ! m = msg_of (h_tlog h (am_Term (applied c i ! m)) ! Suc m)"
    unfolding t using arg_cong [OF agree_nth [OF a order_refl], of msg_of] eq by (rule trans [rotated])
qed

lemma applied_set [simp]: "applied (set_node i n c) = applied c" "applied (set_pc i p c) = applied c"
  by (simp_all add: set_node_def set_pc_def)

lemma applied_eq:
  assumes e: "exec e c = Some c'" and ne: "\<And>j. e \<noteq> ApplyEntry j"
  shows "applied c' = applied c"
proof (cases e)
  case (ApplyEntry j)
  then show ?thesis using ne by blast
qed (use e in \<open>auto simp: runLoop_def followerHeartbeat_def followerVote_def followerExpires_def beginElection_def
      deliverVoteRequest_def receiveVoteReply_def candidateExpires_def leaderTick_def sendAppend_def clientSubmit_def
      deliverAppend_def receiveAppendReply_def Let_def
      split: if_splits option.splits NodeState.splits runPC.splits prod.splits electionOutcome.splits\<close>)

lemma applied_exec:
  assumes e: "exec e c = Some c'"
  shows "prefix (applied c i) (applied c' i)" "i \<noteq> actor e \<Longrightarrow> applied c' i = applied c i"
proof -
  have "prefix (applied c i) (applied c' i) \<and> (i \<noteq> actor e \<longrightarrow> applied c' i = applied c i)"
  proof (cases "\<exists>j. e = ApplyEntry j")
    case True
    then show ?thesis using e by (auto simp: applyEntry_def split: option.splits)
  next
    case False
    then show ?thesis using applied_eq [OF e] by auto
  qed
  then show "prefix (applied c i) (applied c' i)" "i \<noteq> actor e \<Longrightarrow> applied c' i = applied c i" by auto
qed

lemma hreach_applied: "hreach ps c h \<Longrightarrow> \<not> is_node ps i \<Longrightarrow> applied c i = []"
proof (induction rule: hreach.induct)
  case hreach_init
  show ?case by (simp add: initCluster_def)
next
  case (hreach_step c h e c')
  then show ?case using applied_exec(2) by metis
qed

lemma prefix_nth: "prefix xs ys \<Longrightarrow> m < length xs \<Longrightarrow> ys ! m = xs ! m"
  by (auto simp: prefix_def nth_append)

lemma prefix_less: "prefix xs ys \<Longrightarrow> m < length xs \<Longrightarrow> m < length ys"
  by (auto simp: prefix_def)

text \<open>Two nodes send the same message as their \<open>m\<close>th.\<close>

lemma applied_same:
  assumes "inv ps c h" "m < length (applied c i)" "m < length (applied c j)"
  shows "applied c i ! m = applied c j ! m"
  using applied_comparable [OF assms(1), of i j] prefix_nth assms(2,3) by metis

section \<open>Keys\<close>

definition issued :: "history \<Rightarrow> pendingKey \<Rightarrow> Command \<Rightarrow> bool" where
  "issued h k cmd \<longleftrightarrow> elected h (pk_term k) \<and> 1 \<le> pk_index k \<and> nat (pk_index k) < length (h_tlog h (pk_term k))
     \<and> h_tlog h (pk_term k) ! nat (pk_index k) = \<lparr>le_Term = pk_term k, le_Index = pk_index k, le_Command = cmd\<rparr>"

lemma issued_mono: "hist_le h h' \<Longrightarrow> issued h k cmd \<Longrightarrow> issued h' k cmd"
  using tlog_mono [of h h' "pk_term k" "nat (pk_index k)"] elected_mono [of h h' "pk_term k"]
  by (auto simp: issued_def agree_def)

lemma issued_applied:
  assumes I: "inv ps c h" and k: "issued h k cmd" and m: "m < length (applied c i)" "msgKey (applied c i ! m) = k"
  shows "am_Command (applied c i ! m) = cmd" "pk_index k = int (Suc m)"
proof -
  note e = applied_entry [OF I m(1)]
  show x: "pk_index k = int (Suc m)" using e(1) m(2) by (auto simp: msgKey_def)
  have "am_Term (applied c i ! m) = pk_term k" using m(2) by (auto simp: msgKey_def)
  then show "am_Command (applied c i ! m) = cmd"
    using e(4) k unfolding issued_def x nat_int by (metis (no_types, lifting) ApplyMsg.select_convs(3) LogEntry.select_convs(3) msg_of_def)
qed

fun pc_key :: "callPC \<Rightarrow> pendingKey option" where
  "pc_key (Submitted k) = Some k"
| "pc_key (Blocked k ch) = Some k"
| "pc_key (Reading k) = Some k"
| "pc_key (Returned k r p) = Some k"
| "pc_key _ = None"

abbreviation call_key :: "service \<Rightarrow> nat \<Rightarrow> pendingKey option" where
  "call_key s c \<equiv> pc_key (c_pc (calls s c))"

text \<open>A key that none of the messages sent so far has.\<close>

definition unsent :: "cluster \<Rightarrow> (int \<Rightarrow> nat) \<Rightarrow> pendingKey \<Rightarrow> bool" where
  "unsent c fl k \<longleftrightarrow> (\<forall>i m. m < fl i \<longrightarrow> m < length (applied c i) \<and> msgKey (applied c i ! m) \<noteq> k)"

definition keys_inv :: "string list \<Rightarrow> service \<Rightarrow> history \<Rightarrow> bool" where
  "keys_inv ps s h \<longleftrightarrow>
     (\<forall>c k. call_key s c = Some k \<longrightarrow> is_node ps (c_server (calls s c))
        \<and> issued h k (commandOf (c_req (calls s c))) \<and> unsent (raft s) (c_floor (calls s c)) k)
     \<and> (\<forall>c c' k. call_key s c = Some k \<longrightarrow> call_key s c' = Some k \<longrightarrow> c = c')"

lemma keys_invD:
  assumes "keys_inv ps s h" "call_key s c = Some k"
  shows "is_node ps (c_server (calls s c))" "issued h k (commandOf (c_req (calls s c)))"
    "unsent (raft s) (c_floor (calls s c)) k" "call_key s c' = Some k \<Longrightarrow> c' = c"
  using assms by (auto simp: keys_inv_def)

lemma unsent_grows: "(\<And>i. prefix (applied c i) (applied c' i)) \<Longrightarrow> unsent c fl k \<Longrightarrow> unsent c' fl k"
  unfolding unsent_def by (metis prefix_nth prefix_less)

lemma keys_inv_mono:
  assumes K: "keys_inv ps s h" and le: "hist_le h h'" and pre: "\<And>i. prefix (applied (raft s) i) (applied (raft s') i)"
    and same: "calls s' = calls s"
  shows "keys_inv ps s' h'"
  using K issued_mono [OF le] unsent_grows [OF pre] unfolding keys_inv_def same by blast

text \<open>A step of a call that keeps its key.\<close>

lemma keys_inv_call:
  assumes K: "keys_inv ps s h" and raft: "raft s' = raft s"
    and calls: "calls s' = (calls s)(c := (calls s c)\<lparr>c_pc := p\<rparr>)" and key: "pc_key p = call_key s c"
  shows "keys_inv ps s' h"
proof -
  have "call_key s' x = call_key s x" "c_server (calls s' x) = c_server (calls s x)"
    "c_req (calls s' x) = c_req (calls s x)" "c_floor (calls s' x) = c_floor (calls s x)" for x
    using key by (simp_all add: calls)
  then show ?thesis using K by (simp add: keys_inv_def raft)
qed

section \<open>Submission\<close>

text \<open>What the log knows of the key a leader gives out.\<close>

lemma submit_issued:
  assumes R: "hreach ps c h" "length ps \<le> 3" and i: "is_node ps i" and L: "state (nodes c i) = Leader"
    and k: "k = \<lparr>pk_index = len (nlog (nodes c i)), pk_term = currentTerm (nodes c i)\<rparr>"
    and h': "h' = hist (ClientSubmit i cmd) c h" and c': "c' = set_node i (fst (Submit cmd (nodes c i))) c"
  shows "hreach ps c' h'" "hist_le h h'" "applied c' = applied c" "issued h' k cmd" "\<not> issued h k cmd'"
    "m < length (applied c j) \<Longrightarrow> msgKey (applied c j ! m) \<noteq> k"
proof -
  let ?n = "nodes c i"
  have I: "inv ps c h" by (rule hreach_inv [OF R])
  have ex: "exec (ClientSubmit i cmd) c = Some c'" by (simp add: clientSubmit_def c')
  show "hreach ps c' h'" unfolding h' by (rule hreach_step [OF R(1) _ ex]) (simp add: i)
  show "hist_le h h'" unfolding h' by (rule hist_le_exec [OF I ex])
  show "applied c' = applied c" by (simp add: c' set_node_def)
  have tl: "nlog ?n = h_tlog h (currentTerm ?n)" and el: "elected h (currentTerm ?n)" and ne: "nlog ?n \<noteq> []"
    using inv_node(1) [OF I, of i] L by (auto simp: node_ok_def elected_def wf_log_def)
  have "elected h' (currentTerm ?n)" using el by (rule elected_mono [OF \<open>hist_le h h'\<close>])
  moreover have "h_tlog h' (currentTerm ?n) = nlog ?n @ [\<lparr>le_Term = currentTerm ?n, le_Index = len (nlog ?n), le_Command = cmd\<rparr>]"
    using L by (simp add: h' Submit_def Let_def signalAllReplications_def)
  ultimately show "issued h' k cmd" using ne by (cases "nlog ?n") (auto simp: issued_def k len_def nth_append)
  show "\<not> issued h k cmd'" by (simp add: issued_def k tl [symmetric] len_def)
  show "msgKey (applied c j ! m) \<noteq> k" if m: "m < length (applied c j)"
  proof
    assume eq: "msgKey (applied c j ! m) = k"
    then have "am_Term (applied c j ! m) = currentTerm ?n" "am_Index (applied c j ! m) = len (nlog ?n)"
      by (auto simp: msgKey_def k)
    then show False using applied_entry(1,3) [OF I m] tl by (simp add: len_def)
  qed
qed

lemma startCall_cases:
  assumes "startCall c i req s = Some s'"
  obtains (refused) x where "state (nodes (raft s) i) \<noteq> Leader" "s' = s\<lparr>raft := set_node i (nodes (raft s) i) (raft s),
      calls := (calls s)(c := x)\<rparr>" "pc_key (c_pc x) = None" "\<forall>e. c_pc x = Refused e \<longrightarrow> e = ErrNotLeader"
      "c_pc (calls s c) = NotStarted" "\<exists>e. c_pc x = Refused e" "c_floor x = (\<lambda>j. length (applied (raft s) j))"
  | (issued) k where "state (nodes (raft s) i) = Leader"
      "k = \<lparr>pk_index = len (nlog (nodes (raft s) i)), pk_term = currentTerm (nodes (raft s) i)\<rparr>"
      "s' = s\<lparr>raft := set_node i (fst (Submit (commandOf req) (nodes (raft s) i))) (raft s),
        calls := (calls s)(c := \<lparr>c_server = i, c_req = req, c_pc = Submitted k, c_floor = (\<lambda>j. length (applied (raft s) j))\<rparr>)\<rparr>"
      "c_pc (calls s c) = NotStarted"
proof (cases "state (nodes (raft s) i) = Leader")
  case True
  then show ?thesis using assms by (intro issued) (auto simp: startCall_def submitCommand_def Submit_def Let_def split: if_splits)
next
  case False
  then show ?thesis using assms
    by (intro refused) (auto simp: startCall_def submitCommand_def Submit_def Let_def split: if_splits)
qed

lemma keys_startCall:
  assumes R: "hreach ps (raft s) h" "length ps \<le> 3" and K: "keys_inv ps s h"
    and st: "startCall c i req s = Some s'" and i: "is_node ps i"
  shows "\<exists>h'. hreach ps (raft s') h' \<and> hist_le h h' \<and> keys_inv ps s' h'"
  using st
proof (cases rule: startCall_cases)
  case (refused x)
  have "raft s' = raft s" by (simp add: refused(2) set_node_def)
  moreover have "keys_inv ps s' h" using K refused(3,5) unfolding keys_inv_def \<open>raft s' = raft s\<close> by (auto simp: refused(2))
  ultimately show ?thesis using R(1) hist_le_refl by metis
next
  case (issued k)
  define h' where "h' = hist (ClientSubmit i (commandOf req)) (raft s) h"
  have raft: "raft s' = set_node i (fst (Submit (commandOf req) (nodes (raft s) i))) (raft s)" by (simp add: issued(3))
  note new = submit_issued [OF R i issued(1,2) h'_def raft]
  have old: "keys_inv ps (s\<lparr>raft := raft s'\<rparr>) h'"
    by (rule keys_inv_mono [OF K new(2)]) (simp_all add: new(3))
  have fresh: "call_key s x \<noteq> Some k" for x using keys_invD(2) [OF K, of x k] new(5) by blast
  have "unsent (raft s') (\<lambda>j. length (applied (raft s) j)) k" using new(6) by (simp add: unsent_def new(3))
  then have "keys_inv ps s' h'" using old new(4) i fresh unfolding keys_inv_def by (auto simp: issued(3))
  then show ?thesis using new(1,2) by blast
qed

end
