(* ===== verification/ServerInv.thy ===== *)
theory ServerInv
  imports Server
begin

text \<open>
  What the bookkeeping of a server keeps: the channel of a registered call is empty, so no send on it
  blocks, and the notifications kept for calls that have not registered yet are bounded.
\<close>

section \<open>The invariant\<close>

definition srv_inv :: "RaftKVServer \<Rightarrow> bool" where
  "srv_inv v \<longleftrightarrow> distinct (map fst (pending v)) \<and> distinct (map snd (pending v))
     \<and> (\<forall>k ch. (k, ch) \<in> set (pending v) \<longrightarrow> ch < nextCh v \<and> waitChs v ch = None)
     \<and> (\<forall>ch \<ge> nextCh v. waitChs v ch = None)
     \<and> distinct (map fst (completed v)) \<and> (\<forall>p \<in> set (completed v). fst p \<in> set (completionQ v))
     \<and> length (completionQ v) \<le> maxCompletedNotifications"

lemma srv_invD:
  assumes "srv_inv v"
  shows "distinct (map fst (pending v))" "distinct (map snd (pending v))"
    "(k, ch) \<in> set (pending v) \<Longrightarrow> ch < nextCh v" "(k, ch) \<in> set (pending v) \<Longrightarrow> waitChs v ch = None"
    "distinct (map fst (completed v))" "fst ` set (completed v) \<subseteq> set (completionQ v)"
    "length (completionQ v) \<le> maxCompletedNotifications" "nextCh v \<le> ch \<Longrightarrow> waitChs v ch = None"
  using assms by (force simp: srv_inv_def)+

lemma pending_inj:
  assumes "srv_inv v" "(k, ch) \<in> set (pending v)" "(k', ch) \<in> set (pending v)"
  shows "k = k'"
proof -
  have "inj_on snd (set (pending v))" using srv_invD(2) [OF assms(1)] by (simp add: distinct_map)
  from inj_onD [OF this _ assms(2,3)] show ?thesis by simp
qed

lemma set_delete: "set (AList.delete k xs) = {p \<in> set xs. fst p \<noteq> k}"
  by (auto simp: AList.delete_eq)

lemma distinct_delete_map: "distinct (map f xs) \<Longrightarrow> distinct (map f (AList.delete k xs))"
  by (simp add: AList.delete_eq distinct_map_filter)

lemma set_update_new: "k \<notin> fst ` set xs \<Longrightarrow> AList.update k v xs = xs @ [(k, v)]"
  by (induction xs) auto

lemma set_updateD: "(a, b) \<in> set (AList.update k v xs) \<Longrightarrow> a = k \<or> (a, b) \<in> set xs"
  by (induction xs) (auto split: if_splits)

section \<open>Operations\<close>

lemma register_inv:
  assumes "srv_inv v" "k \<notin> fst ` set (pending v)"
  shows "srv_inv (fst (register k v))"
  using assms
  by (auto simp: register_def srv_inv_def Let_def set_delete distinct_delete_map set_update_new less_Suc_eq
      split: option.splits) fastforce

lemma receive_inv: "srv_inv v \<Longrightarrow> receive ch v = Some (v', err) \<Longrightarrow> srv_inv v'"
  by (auto simp: receive_def srv_inv_def split: option.splits) force+

lemma forget_inv: "srv_inv v \<Longrightarrow> srv_inv (forget k v)"
  by (simp add: forget_def srv_inv_def set_delete distinct_delete_map) blast

lemma closeSignal_inv: "srv_inv v \<Longrightarrow> srv_inv (closeSignal v)"
  by (simp add: closeSignal_def srv_inv_def)

lemma store_inv [simp]: "srv_inv (v\<lparr>store := w\<rparr>) = srv_inv v"
  by (simp add: srv_inv_def)

lemma evictOldest_inv:
  assumes "srv_inv v"
  shows "srv_inv (evictOldest v)" "length (completionQ (evictOldest v)) < maxCompletedNotifications"
    "pending (evictOldest v) = pending v" "waitChs (evictOldest v) = waitChs v" "nextCh (evictOldest v) = nextCh v"
proof -
  have "set (completionQ v) \<subseteq> insert (hd (completionQ v)) (set (tl (completionQ v)))" by (cases "completionQ v") auto
  then show "srv_inv (evictOldest v)"
    using assms by (auto simp: srv_inv_def evictOldest_def set_delete distinct_delete_map)
  show "length (completionQ (evictOldest v)) < maxCompletedNotifications"
    using assms by (auto simp: srv_inv_def evictOldest_def maxCompletedNotifications_def)
qed (simp_all add: evictOldest_def)

text \<open>A notification never blocks.\<close>

lemma notify_registered:
  assumes "srv_inv v" "map_of (pending v) k = Some ch"
  shows "notifyApplied k err v
    = Some (v\<lparr>waitChs := (waitChs v)(ch := Some err), pending := AList.delete k (pending v)\<rparr>)"
  using assms srv_invD(4) [OF assms(1)] map_of_SomeD [OF assms(2)] by (auto simp: notifyApplied_def send_def)

lemma notify_unclaimed:
  assumes "map_of (pending v) k = None"
  shows "notifyApplied k err v = Some ((evictOldest v)\<lparr>completed := AList.update k err (completed (evictOldest v)),
    completionQ := completionQ (evictOldest v) @ [k]\<rparr>)"
  using assms by (simp add: notifyApplied_def Let_def)

lemma notify_inv:
  assumes "srv_inv v"
  shows "\<exists>v'. notifyApplied k err v = Some v' \<and> srv_inv v'"
proof (cases "map_of (pending v) k")
  case None
  have "srv_inv ((evictOldest v)\<lparr>completed := AList.update k err (completed (evictOldest v)),
      completionQ := completionQ (evictOldest v) @ [k]\<rparr>)"
    using evictOldest_inv [OF assms]
    by (auto simp: srv_inv_def distinct_update dest!: set_updateD)
  then show ?thesis using notify_unclaimed [OF None] by blast
next
  case (Some ch)
  have kc: "(k, ch) \<in> set (pending v)" using Some by (rule map_of_SomeD)
  have "k' = k" if "(k', ch) \<in> set (pending v)" for k'
    using that pending_inj [OF assms kc] by auto
  then have "srv_inv (v\<lparr>waitChs := (waitChs v)(ch := Some err), pending := AList.delete k (pending v)\<rparr>)"
    using assms srv_invD(3) [OF assms kc] by (auto simp: srv_inv_def set_delete distinct_delete_map)
  then show ?thesis using notify_registered [OF assms Some] by blast
qed

text \<open>Closing answers every registered call.\<close>

lemma closePending_spec:
  assumes "srv_inv v" "pending v = ps"
  shows "\<exists>v'. closePending ps v = Some v' \<and> srv_inv v' \<and> v' = v\<lparr>pending := [],
    waitChs := (\<lambda>ch. if ch \<in> snd ` set ps then Some (Some ErrServerClosed) else waitChs v ch)\<rparr>"
  using assms
proof (induction ps arbitrary: v)
  case Nil
  then show ?case by simp
next
  case (Cons p ps)
  obtain k ch where p: "p = (k, ch)" by fastforce
  let ?v = "v\<lparr>waitChs := (waitChs v)(ch := Some (Some ErrServerClosed)), pending := ps\<rparr>"
  have d: "k \<notin> fst ` set ps" "ch \<notin> snd ` set ps" "waitChs v ch = None" "ch < nextCh v"
    using Cons.prems by (auto simp: srv_inv_def p)
  have del: "AList.delete k (pending v) = ps" using d(1) Cons.prems(2) by (simp add: p delete_id)
  have "(k', ch) \<notin> set ps" for k' using d(2) by force
  then have "srv_inv ?v" using Cons.prems d by (auto simp: srv_inv_def p)
  from Cons.IH [OF this] obtain v' where v': "closePending ps ?v = Some v'" "srv_inv v'" "v' = ?v\<lparr>pending := [],
      waitChs := (\<lambda>c. if c \<in> snd ` set ps then Some (Some ErrServerClosed) else waitChs ?v c)\<rparr>" by auto
  have "closePending (p # ps) v = Some v'" using d(3) v'(1) del by (simp add: p send_def)
  moreover have "v' = v\<lparr>pending := [],
      waitChs := (\<lambda>c. if c \<in> snd ` set (p # ps) then Some (Some ErrServerClosed) else waitChs v c)\<rparr>"
    unfolding v'(3) using d(2) by (auto simp: p fun_eq_iff)
  ultimately show ?case using v'(2) by blast
qed

section \<open>A call that waits\<close>

text \<open>
  A call waits well when its channel is registered under its key, or its answer is in the channel and
  nobody will send on it again.
\<close>

definition waiting_ok :: "RaftKVServer \<Rightarrow> pendingKey \<Rightarrow> nat \<Rightarrow> (srv_error option \<Rightarrow> bool) \<Rightarrow> bool" where
  "waiting_ok v k ch P \<longleftrightarrow> ch < nextCh v \<and> (map_of (pending v) k = Some ch
     \<or> ch \<notin> snd ` set (pending v) \<and> (\<exists>err. waitChs v ch = Some err \<and> P err))"

lemma waiting_mono: "waiting_ok v k ch P \<Longrightarrow> (\<And>err. P err \<Longrightarrow> Q err) \<Longrightarrow> waiting_ok v k ch Q"
  by (auto simp: waiting_ok_def)

lemma waiting_closeSignal [simp]: "waiting_ok (closeSignal v) k ch P = waiting_ok v k ch P"
  by (simp add: waiting_ok_def closeSignal_def)

lemma waiting_store [simp]: "waiting_ok (v\<lparr>store := w\<rparr>) k ch P = waiting_ok v k ch P"
  by (simp add: waiting_ok_def)

lemma waiting_register:
  assumes "srv_inv v" "waiting_ok v k ch P" "k \<noteq> k'" "k' \<notin> fst ` set (pending v)"
  shows "waiting_ok (fst (register k' v)) k ch P"
  using assms by (auto simp: waiting_ok_def register_def Let_def update_conv' set_update_new split: option.splits)

lemma register_waits:
  assumes "register k v = (v', Waits ch)"
  shows "waiting_ok v' k ch P" "ch = nextCh v"
  using assms by (auto simp: waiting_ok_def register_def Let_def update_conv' split: if_splits option.splits)

lemma waiting_receive:
  assumes "receive ch' v = Some (v', err)" "waiting_ok v k ch P" "ch' \<noteq> ch"
  shows "waiting_ok v' k ch P"
  using assms by (auto simp: waiting_ok_def receive_def split: option.splits)

lemma waiting_forget: "waiting_ok v k ch P \<Longrightarrow> k' \<noteq> k \<Longrightarrow> waiting_ok (forget k' v) k ch P"
  by (auto simp: waiting_ok_def forget_def delete_conv' set_delete)

lemma waiting_notify:
  assumes v: "srv_inv v" and n: "notifyApplied k' err v = Some v'" and w: "waiting_ok v k ch P" and P: "k = k' \<Longrightarrow> P err"
  shows "waiting_ok v' k ch P"
proof (cases "map_of (pending v) k'")
  case None
  then show ?thesis
    using n w evictOldest_inv(3-5) [OF v] by (auto simp: notify_unclaimed waiting_ok_def)
next
  case (Some ch')
  note eq = notify_registered [OF v Some, of err]
  have m: "(k', ch') \<in> set (pending v)" using Some by (rule map_of_SomeD)
  show ?thesis
  proof (cases "map_of (pending v) k = Some ch")
    case True
    then have kc: "(k, ch) \<in> set (pending v)" by (rule map_of_SomeD)
    show ?thesis
    proof (cases "k = k'")
      case True
      then have "ch = ch'" using Some \<open>map_of (pending v) k = Some ch\<close> by simp
      then show ?thesis using eq n w P True pending_inj [OF v m] by (auto simp: waiting_ok_def set_delete)
    next
      case False
      then show ?thesis using eq n w \<open>map_of (pending v) k = Some ch\<close> by (auto simp: waiting_ok_def delete_conv')
    qed
  next
    case False
    then have "ch \<noteq> ch'" using w m by (force simp: waiting_ok_def)
    then show ?thesis using eq n w False by (auto simp: waiting_ok_def set_delete)
  qed
qed

lemma completed_notify:
  assumes "srv_inv v" "notifyApplied k' err v = Some v'" "map_of (completed v') k = Some e"
  shows "map_of (completed v) k = Some e \<or> k = k' \<and> e = err"
proof (cases "map_of (pending v) k'")
  case None
  then show ?thesis using assms
    by (auto simp: notify_unclaimed evictOldest_def update_conv' delete_conv' split: if_splits)
next
  case (Some ch)
  then show ?thesis using notify_registered [OF assms(1) Some, of err] assms(2,3) by simp
qed

lemma waiting_close:
  assumes v: "srv_inv v" and c: "closePending (pending v) v = Some v'" and w: "waiting_ok v k ch P" and P: "P (Some ErrServerClosed)"
  shows "waiting_ok v' k ch P"
proof -
  have v': "v' = v\<lparr>pending := [],
      waitChs := (\<lambda>c. if c \<in> snd ` set (pending v) then Some (Some ErrServerClosed) else waitChs v c)\<rparr>"
    using closePending_spec [OF v refl] c by auto
  show ?thesis
  proof (cases "map_of (pending v) k = Some ch")
    case True
    then have "ch \<in> snd ` set (pending v)" using map_of_SomeD by force
    then show ?thesis using w P by (simp add: v' waiting_ok_def)
  next
    case False
    then show ?thesis using w by (auto simp: v' waiting_ok_def)
  qed
qed

end
