(* ===== verification/ServiceInv.thy ===== *)
theory ServiceInv
  imports ServiceKeys ServerInv
begin

text \<open>
  The invariant of the service. Every answer a call can get is the outcome of the message with the call's
  own key on its own server, or says that the server was closed; every store holds what the commands its
  server has taken from the log say; a read saw the log at least up to its own barrier.
\<close>

section \<open>Commands on a map\<close>

definition reserved :: "Command \<Rightarrow> bool" where
  "reserved cmd \<longleftrightarrow> cmd_Type cmd = ''put'' \<and> cmd_Value cmd = tombstoneValue"

definition spec_command :: "Command \<Rightarrow> (string \<rightharpoonup> byte list) \<Rightarrow> (string \<rightharpoonup> byte list)" where
  "spec_command cmd m =
     (if cmd_Type cmd = ''put'' then (if reserved cmd then m else m(cmd_Key cmd \<mapsto> bytes_of (cmd_Value cmd)))
      else if cmd_Type cmd = ''delete'' then m(cmd_Key cmd := None) else m)"

definition replicated :: "ApplyMsg list \<Rightarrow> string \<rightharpoonup> byte list" where
  "replicated msgs = fold (\<lambda>msg. spec_command (am_Command msg)) msgs Map.empty"

lemma replicated_snoc: "replicated (msgs @ [msg]) = spec_command (am_Command msg) (replicated msgs)"
  by (simp add: replicated_def)

lemma store_ok_later: "store_ok t n w \<Longrightarrow> t \<le> t' \<Longrightarrow> n' \<le> n \<Longrightarrow> store_ok t' n' w"
  unfolding store_ok_def stamped_def by (meson add_left_mono le_less_trans order_trans)

text \<open>The engine does to its contents what the command does to a map.\<close>

lemma applyCommand_refines:
  assumes ok: "store_ok t (Suc n) w" and c: "storable t now cmd"
  shows "\<exists>w'. applyCommand no_faults now cmd w = (w', if reserved cmd then Some ReservedValue else None)
    \<and> contents w' = spec_command cmd (contents w) \<and> store_ok now n w'"
proof -
  consider (put) "cmd_Type cmd = ''put''" | (delete) "cmd_Type cmd = ''delete''" | (other) "cmd_Type cmd \<notin> {''put'', ''delete''}"
    by auto
  then show ?thesis
  proof cases
    case put
    then have "admissible t [OpPut now (cmd_Key cmd) (cmd_Value cmd)]" using c by simp
    from db_store.exec_refines [OF ok this] show ?thesis using put
      by (auto simp: applyCommand_def reserved_def spec_command_def split: prod.splits option.splits if_splits)
  next
    case delete
    then have "admissible t [OpDelete now (cmd_Key cmd)]" using c by simp
    from db_store.exec_refines [OF ok this] show ?thesis using delete
      by (auto simp: applyCommand_def reserved_def spec_command_def split: prod.splits option.splits)
  next
    case other
    have "store_ok now n w" using store_ok_later [OF ok, of now n] c by simp
    then show ?thesis using other by (simp add: applyCommand_def reserved_def spec_command_def)
  qed
qed

text \<open>On any store, also a closed one.\<close>

lemma applyCommand_outcome:
  "snd (applyCommand os now cmd w) = None \<Longrightarrow> \<not> reserved cmd"
  "snd (applyCommand os now cmd w) \<noteq> None \<Longrightarrow> cmd_Type cmd \<in> {''put'', ''delete''}"
  by (auto simp: applyCommand_def reserved_def DB_Put_def split: if_splits option.splits)

section \<open>The invariant\<close>

definition outcome :: "Command \<Rightarrow> srv_error option \<Rightarrow> bool" where
  "outcome cmd err \<longleftrightarrow> (err = None \<longrightarrow> \<not> reserved cmd) \<and> (err \<noteq> None \<longrightarrow> cmd_Type cmd \<in> {''put'', ''delete''})"

definition heard :: "service \<Rightarrow> int \<Rightarrow> pendingKey \<Rightarrow> srv_error option \<Rightarrow> bool" where
  "heard s i k err \<longleftrightarrow> (\<exists>m < taken s i. m < length (applied (raft s) i) \<and> msgKey (applied (raft s) i ! m) = k
     \<and> outcome (am_Command (applied (raft s) i ! m)) err)"

definition answer_ok :: "service \<Rightarrow> int \<Rightarrow> pendingKey \<Rightarrow> srv_error option \<Rightarrow> bool" where
  "answer_ok s i k err \<longleftrightarrow> err = Some ErrServerClosed \<or> heard s i k err"

definition read_ok :: "service \<Rightarrow> int \<Rightarrow> pendingKey \<Rightarrow> nat \<Rightarrow> string \<Rightarrow> byte list option \<Rightarrow> bool" where
  "read_ok s i k p key v \<longleftrightarrow> heard s i k None \<and> pk_index k \<le> int p \<and> p \<le> taken s i
     \<and> replicated (take p (applied (raft s) i)) key = v"

definition returned_ok :: "service \<Rightarrow> int \<Rightarrow> request \<Rightarrow> pendingKey \<Rightarrow> response \<Rightarrow> nat \<Rightarrow> bool" where
  "returned_ok s i req k r p \<longleftrightarrow>
     (case req of
        ReqGet key \<Rightarrow>
          (case r of
             Inr v \<Rightarrow> v \<noteq> None \<and> read_ok s i k p key v
           | Inl e \<Rightarrow> e = StoreErr ErrKeyNotFound \<longrightarrow> read_ok s i k p key None)
      | _ \<Rightarrow> (case r of Inr v \<Rightarrow> v = None \<and> heard s i k None \<and> p = nat (pk_index k) | Inl e \<Rightarrow> True))"

fun call_ok :: "service \<Rightarrow> call \<Rightarrow> bool" where
  "call_ok s x \<longleftrightarrow>
     (let i = c_server x
      in case c_pc x of
           Blocked k ch \<Rightarrow> waiting_ok (servers s i) k ch (answer_ok s i k)
         | Reading k \<Rightarrow> heard s i k None
         | Returned k r p \<Rightarrow> returned_ok s i (c_req x) k r p
         | _ \<Rightarrow> True)"

definition server_ok :: "string list \<Rightarrow> service \<Rightarrow> int \<Rightarrow> bool" where
  "server_ok ps s i \<longleftrightarrow> srv_inv (servers s i)
     \<and> (\<forall>k err. map_of (completed (servers s i)) k = Some err \<longrightarrow> heard s i k err)
     \<and> (\<forall>k err. notifying s i = Some (k, err) \<longrightarrow> heard s i k err)
     \<and> (\<forall>k ch. (k, ch) \<in> set (pending (servers s i)) \<longrightarrow> (\<exists>c. c_server (calls s c) = i \<and> c_pc (calls s c) = Blocked k ch))"

text \<open>How many more data files a store that has run \<open>n\<close> commands has numbers for.\<close>

definition room :: "nat \<Rightarrow> nat" where
  "room n = 2 ^ 64 - 3 - n"

definition store_inv :: "service \<Rightarrow> int \<Rightarrow> bool" where
  "store_inv s i \<longleftrightarrow>
       (if closing s i = Stopped then closed (fst (store (servers s i)))
        else store_ok (clock s i) (room (taken s i)) (store (servers s i))
          \<and> contents (store (servers s i)) = replicated (take (taken s i) (applied (raft s) i)))"

definition svc_inv :: "string list \<Rightarrow> service \<Rightarrow> bool" where
  "svc_inv ps s \<longleftrightarrow> (\<forall>i. taken s i \<le> length (applied (raft s) i)) \<and> (\<forall>c. call_ok s (calls s c))
     \<and> (\<forall>i. is_node ps i \<longrightarrow> server_ok ps s i \<and> store_inv s i)
     \<and> (\<forall>c c' k k' ch. c_server (calls s c) = c_server (calls s c') \<longrightarrow> c_pc (calls s c) = Blocked k ch
          \<longrightarrow> c_pc (calls s c') = Blocked k' ch \<longrightarrow> c = c')"

section \<open>Growth\<close>

text \<open>Nothing that has been heard or read is undone when logs grow and loops advance.\<close>

definition grows :: "service \<Rightarrow> service \<Rightarrow> bool" where
  "grows s s' \<longleftrightarrow> (\<forall>i. prefix (applied (raft s) i) (applied (raft s') i) \<and> taken s i \<le> taken s' i)"

lemma heard_grows: "grows s s' \<Longrightarrow> heard s i k err \<Longrightarrow> heard s' i k err"
  unfolding heard_def grows_def by (metis prefix_nth prefix_less less_le_trans)

lemma take_prefix: "prefix xs ys \<Longrightarrow> p \<le> length xs \<Longrightarrow> take p ys = take p xs"
  by (auto simp: prefix_def)

lemma read_ok_grows:
  assumes g: "grows s s'" and t: "taken s i \<le> length (applied (raft s) i)" and r: "read_ok s i k p key v"
  shows "read_ok s' i k p key v"
proof -
  have "prefix (applied (raft s) i) (applied (raft s') i)" "taken s i \<le> taken s' i" using g by (simp_all add: grows_def)
  moreover have "take p (applied (raft s') i) = take p (applied (raft s) i)"
    using r t calculation(1) by (intro take_prefix) (auto simp: read_ok_def)
  ultimately show ?thesis using r heard_grows [OF g] by (auto simp: read_ok_def)
qed

lemma returned_grows:
  "grows s s' \<Longrightarrow> taken s i \<le> length (applied (raft s) i) \<Longrightarrow> returned_ok s i req k r p \<Longrightarrow> returned_ok s' i req k r p"
  using read_ok_grows [of s s' i k p] heard_grows [of s s' i k None]
  by (auto simp: returned_ok_def split: request.splits sum.splits)

lemma answer_grows: "grows s s' \<Longrightarrow> answer_ok s i k err \<Longrightarrow> answer_ok s' i k err"
  using heard_grows by (auto simp: answer_ok_def)

lemma call_ok_grows:
  assumes g: "grows s s'" and t: "taken s (c_server x) \<le> length (applied (raft s) (c_server x))" and x: "call_ok s x"
    and w: "\<And>k ch. c_pc x = Blocked k ch \<Longrightarrow> waiting_ok (servers s' (c_server x)) k ch (answer_ok s' (c_server x) k)"
  shows "call_ok s' x"
  using x w heard_grows [OF g] returned_grows [OF g t] by (auto simp: Let_def split: callPC.splits)

text \<open>A step of the Raft nodes.\<close>

lemma svc_inv_raft:
  assumes I: "svc_inv ps s" and pre: "\<And>i. prefix (applied (raft s) i) (applied c i)"
  shows "svc_inv ps (s\<lparr>raft := c\<rparr>)" (is "svc_inv ps ?s")
proof -
  have g: "grows s ?s" using pre by (simp add: grows_def)
  have t: "taken s i \<le> length (applied (raft s) i)" for i using I by (simp add: svc_inv_def)
  have "call_ok ?s (calls s x)" for x
  proof (rule call_ok_grows [OF g t])
    show ok: "call_ok s (calls s x)" using I by (simp add: svc_inv_def)
    show "waiting_ok (servers ?s (c_server (calls s x))) k ch (answer_ok ?s (c_server (calls s x)) k)"
      if "c_pc (calls s x) = Blocked k ch" for k ch
      using ok that answer_grows [OF g] by (auto simp: Let_def elim!: waiting_mono)
  qed
  moreover have "taken s i \<le> length (applied c i)" for i using t [of i] pre [of i] by (auto simp: prefix_def)
  moreover have "server_ok ps ?s i \<and> store_inv ?s i" if "is_node ps i" for i
    using I that heard_grows [OF g] take_prefix [OF pre t] by (auto simp: svc_inv_def server_ok_def store_inv_def)
  ultimately show ?thesis using I by (simp add: svc_inv_def)
qed

text \<open>A step of one server that leaves the calls where they are.\<close>

lemma svc_inv_server:
  assumes I: "svc_inv ps s" and g: "grows s s'" and same: "calls s' = calls s" "raft s' = raft s"
    and srv: "servers s' = (servers s)(i := v)"
    and others: "\<And>j. j \<noteq> i \<Longrightarrow> taken s' j = taken s j \<and> notifying s' j = notifying s j \<and> closing s' j = closing s j \<and> clock s' j = clock s j"
    and t: "taken s' i \<le> length (applied (raft s) i)"
    and w: "\<And>c k ch. c_server (calls s c) = i \<Longrightarrow> c_pc (calls s c) = Blocked k ch \<Longrightarrow>
      waiting_ok (servers s i) k ch (answer_ok s i k) \<Longrightarrow> waiting_ok v k ch (answer_ok s' i k)"
    and ok: "server_ok ps s' i" "store_inv s' i"
  shows "svc_inv ps s'"
proof -
  have ts: "taken s j \<le> length (applied (raft s) j)" for j using I by (simp add: svc_inv_def)
  have "call_ok s' (calls s x)" for x
  proof (rule call_ok_grows [OF g ts])
    show x: "call_ok s (calls s x)" using I by (simp add: svc_inv_def)
    show "waiting_ok (servers s' (c_server (calls s x))) k ch (answer_ok s' (c_server (calls s x)) k)"
      if "c_pc (calls s x) = Blocked k ch" for k ch
    proof -
      have wx: "waiting_ok (servers s (c_server (calls s x))) k ch (answer_ok s (c_server (calls s x)) k)"
        using x that by (simp add: Let_def)
      then show ?thesis using w [OF _ that] answer_grows [OF g]
        by (cases "c_server (calls s x) = i") (auto simp: srv elim!: waiting_mono)
    qed
  qed
  moreover have "taken s' j \<le> length (applied (raft s) j)" for j using t ts [of j] others [of j] by (cases "j = i") auto
  moreover have "server_ok ps s' j \<and> store_inv s' j" if "is_node ps j" for j
  proof (cases "j = i")
    case False
    then show ?thesis using I that heard_grows [OF g] others [OF False]
      by (auto simp: svc_inv_def server_ok_def store_inv_def same srv)
  qed (use ok in simp)
  ultimately show ?thesis using I by (simp add: svc_inv_def same)
qed

end
