(* ===== verification/ServiceSteps.thy ===== *)
theory ServiceSteps
  imports ServiceInv
begin

text \<open>Every step of the service keeps its invariant.\<close>

section \<open>Steps of calls\<close>

lemma blocked_unique:
  assumes "svc_inv ps s" "c_server (calls s x) = c_server (calls s y)" "c_pc (calls s x) = Blocked k ch" "c_pc (calls s y) = Blocked k' ch"
  shows "x = y"
  using assms unfolding svc_inv_def by blast

lemma heard_cong: "raft s' = raft s \<Longrightarrow> taken s' = taken s \<Longrightarrow> heard s' = heard s"
  by (simp add: heard_def fun_eq_iff)

lemma answer_cong: "raft s' = raft s \<Longrightarrow> taken s' = taken s \<Longrightarrow> answer_ok s' = answer_ok s"
  by (simp add: answer_ok_def fun_eq_iff heard_cong [of s' s])

lemma returned_cong:
  assumes "raft s' = raft s" "taken s' = taken s"
  shows "returned_ok s' = returned_ok s"
proof -
  have "read_ok s' = read_ok s" by (simp add: read_ok_def fun_eq_iff heard_cong [OF assms] assms)
  then show ?thesis using heard_cong [OF assms] by (intro ext) (simp add: returned_ok_def split: request.split sum.split)
qed

lemmas set_simps = set_callpc_def set_srv_def

text \<open>What a piece of a call at key \<open>k\<close> may do to its server.\<close>

definition call_piece :: "pendingKey \<Rightarrow> callPC \<Rightarrow> RaftKVServer \<Rightarrow> RaftKVServer \<Rightarrow> bool" where
  "call_piece k p v v' \<longleftrightarrow> srv_inv v'
     \<and> (\<forall>k' err. map_of (completed v') k' = Some err \<longrightarrow> map_of (completed v) k' = Some err)
     \<and> (\<forall>k' ch. (k', ch) \<in> set (pending v') \<longrightarrow> k' \<noteq> k \<and> (k', ch) \<in> set (pending v) \<or> k' = k \<and> p = Blocked k ch)
     \<and> (\<forall>ch. p = Blocked k ch \<longrightarrow> nextCh v \<le> ch)"

lemma svc_inv_call:
  assumes I: "svc_inv ps s" and K: "keys_inv ps s h" and key: "call_key s c = Some k" "pc_key p = Some k"
    and i: "i = c_server (calls s c)" and s': "s' = set_callpc c p (set_srv i v s)"
    and piece: "call_piece k p (servers s i) v"
    and p: "call_ok s' ((calls s c)\<lparr>c_pc := p\<rparr>)" and st: "store_inv s' i"
    and w: "\<And>x k' ch P. x \<noteq> c \<Longrightarrow> c_server (calls s x) = i \<Longrightarrow> c_pc (calls s x) = Blocked k' ch \<Longrightarrow> k' \<noteq> k \<Longrightarrow>
      waiting_ok (servers s i) k' ch P \<Longrightarrow> waiting_ok v k' ch P"
  shows "svc_inv ps s'"
proof -
  have cong: "heard s' = heard s" "answer_ok s' = answer_ok s" "returned_ok s' = returned_ok s"
    by (intro heard_cong answer_cong returned_cong; simp add: s' set_simps)+
  have n: "is_node ps i" using keys_invD(1) [OF K key(1)] i by simp
  have other: "k' \<noteq> k" if "call_key s x = Some k'" "x \<noteq> c" for x k' using keys_invD(4) [OF K key(1), of x] that by auto
  have calls': "calls s' x = (if x = c then (calls s c)\<lparr>c_pc := p\<rparr> else calls s x)" for x by (simp add: s' set_simps)
  have srv': "servers s' j = (if j = i then v else servers s j)" for j by (simp add: s' set_simps)
  have rest: "raft s' = raft s" "taken s' = taken s" "notifying s' = notifying s" "closing s' = closing s" "clock s' = clock s"
    by (simp_all add: s' set_simps)
  have ok: "call_ok s (calls s x)" for x using I by (simp add: svc_inv_def)
  have "call_ok s' (calls s' x)" for x
  proof (cases "x = c")
    case False
    then show ?thesis using ok [of x] w [OF False] other [OF _ False]
      by (cases "c_server (calls s x) = i") (auto simp: calls' cong srv' Let_def split: callPC.splits)
  qed (use p in \<open>simp add: calls'\<close>)
  moreover have "server_ok ps s' j \<and> store_inv s' j" if j: "is_node ps j" for j
  proof -
    have sj: "server_ok ps s j" "store_inv s j" using I j by (simp_all add: svc_inv_def)
    have blk: "\<exists>x. c_server (calls s' x) = j \<and> c_pc (calls s' x) = Blocked k' ch"
      if pm: "(k', ch) \<in> set (pending (servers s j))" and ne: "j \<noteq> i \<or> k' \<noteq> k" for k' ch
    proof -
      obtain x where x: "c_server (calls s x) = j" "c_pc (calls s x) = Blocked k' ch" using sj(1) pm unfolding server_ok_def by blast
      then have "x \<noteq> c" using ne key(1) i by auto
      then show ?thesis using x by (auto simp: calls')
    qed
    show ?thesis
    proof (cases "j = i")
      case True
      have "\<exists>x. c_server (calls s' x) = i \<and> c_pc (calls s' x) = Blocked k' ch" if pv: "(k', ch) \<in> set (pending v)" for k' ch
      proof -
        consider "k' \<noteq> k" "(k', ch) \<in> set (pending (servers s i))" | "k' = k" "p = Blocked k ch"
          using piece pv unfolding call_piece_def by blast
        then show ?thesis
        proof cases
          case 2
          then show ?thesis using i by (intro exI [of _ c]) (simp add: calls')
        qed (use blk True in blast)
      qed
      moreover have "heard s i k' err" if "map_of (completed v) k' = Some err" for k' err
        using piece sj(1) that True unfolding call_piece_def server_ok_def by blast
      moreover have "srv_inv v" using piece by (simp add: call_piece_def)
      ultimately have "server_ok ps s' i" using sj(1) True unfolding server_ok_def cong by (simp add: srv' rest)
      then show ?thesis using st True by simp
    next
      case False
      then show ?thesis using sj blk unfolding server_ok_def store_inv_def cong by (auto simp: srv' rest)
    qed
  qed
  moreover have "x = y" if xy: "c_server (calls s' x) = c_server (calls s' y)" "c_pc (calls s' x) = Blocked k1 ch"
    "c_pc (calls s' y) = Blocked k2 ch" for x y k1 k2 ch
  proof -
    have lt: "ch < nextCh (servers s (c_server (calls s z)))" if "c_pc (calls s z) = Blocked k3 ch" for z k3
      using ok [of z] that by (simp add: waiting_ok_def Let_def)
    have fresh: "nextCh (servers s i) \<le> ch" if "p = Blocked k3 ch" for k3
      using piece that key(2) by (auto simp: call_piece_def)
    show ?thesis
    proof (cases "x = c \<or> y = c")
      case True
      then show ?thesis using xy lt [of x] lt [of y] fresh i by (auto simp: calls' split: if_splits)
    next
      case False
      then show ?thesis using xy I by (auto simp: calls' svc_inv_def)
    qed
  qed
  moreover have "taken s' j \<le> length (applied (raft s') j)" for j using I by (simp add: rest svc_inv_def)
  ultimately show ?thesis unfolding svc_inv_def by blast
qed

lemma not_pending:
  assumes I: "svc_inv ps s" and K: "keys_inv ps s h" and key: "call_key s c = Some k" and nb: "\<And>ch. c_pc (calls s c) \<noteq> Blocked k ch"
  shows "k \<notin> fst ` set (pending (servers s (c_server (calls s c))))"
proof
  assume "k \<in> fst ` set (pending (servers s (c_server (calls s c))))"
  then obtain ch where "(k, ch) \<in> set (pending (servers s (c_server (calls s c))))" by auto
  moreover have "server_ok ps s (c_server (calls s c))" using I keys_invD(1) [OF K key] by (simp add: svc_inv_def)
  ultimately obtain x where x: "c_pc (calls s x) = Blocked k ch" unfolding server_ok_def by blast
  then have "x = c" using keys_invD(4) [OF K key, of x] by simp
  then show False using x nb by simp
qed

lemma store_inv_callpc [simp]: "store_inv (set_callpc c p s) i = store_inv s i"
  by (simp add: store_inv_def set_callpc_def)

lemma store_inv_same:
  assumes "store_inv s i" "store v = store (servers s i)"
  shows "store_inv (set_callpc c p (set_srv i v s)) i"
  using assms by (simp add: store_inv_def set_simps)

lemma answer_get:
  assumes I: "inv ps (raft s) h" and k: "issued h k (commandOf (ReqGet key))" and a: "answer_ok s i k (Some e)"
  shows "e = ErrServerClosed"
proof (rule ccontr)
  assume "e \<noteq> ErrServerClosed"
  then obtain m where m: "m < length (applied (raft s) i)" "msgKey (applied (raft s) i ! m) = k"
    "outcome (am_Command (applied (raft s) i ! m)) (Some e)" using a by (auto simp: answer_ok_def heard_def)
  have "am_Command (applied (raft s) i ! m) = commandOf (ReqGet key)" by (rule issued_applied(1) [OF I k m(1,2)])
  with m(3) show False by (simp add: outcome_def commandTypeReadBarrier_def)
qed

text \<open>The call state after an answer is right when the answer is.\<close>

lemma afterWait_ok:
  assumes I: "inv ps (raft s) h" and K: "issued h k (commandOf (c_req x))" and i: "i = c_server x"
    and a: "answer_ok s i k err \<or> err \<in> {Some ErrCommitTimeout, Some ErrCanceled, Some ErrServerClosed}"
    and same: "raft s' = raft s" "taken s' = taken s"
  shows "call_ok s' (x\<lparr>c_pc := afterWait (c_req x) k err\<rparr>)" "pc_key (afterWait (c_req x) k err) = Some k"
    "afterWait (c_req x) k err \<noteq> Blocked k' ch"
proof -
  note cong = heard_cong [OF same] returned_cong [OF same]
  show "pc_key (afterWait (c_req x) k err) = Some k" "afterWait (c_req x) k err \<noteq> Blocked k' ch"
    by (auto simp: afterWait_def split: option.splits request.splits)
  show "call_ok s' (x\<lparr>c_pc := afterWait (c_req x) k err\<rparr>)"
  proof (cases err)
    case None
    then have "heard s i k None" using a by (auto simp: answer_ok_def)
    then show ?thesis using i None by (auto simp: afterWait_def cong returned_ok_def split: request.splits)
  next
    case (Some e)
    have "e \<noteq> StoreErr ErrKeyNotFound" if "c_req x = ReqGet key" for key
      using a answer_get [OF I, of k key i e] K that Some by auto
    then show ?thesis using Some by (auto simp: afterWait_def cong returned_ok_def split: request.splits)
  qed
qed

lemma svc_registerCall:
  assumes R: "inv ps (raft s) h" and I: "svc_inv ps s" and K: "keys_inv ps s h" and st: "registerCall c s = Some s'"
  shows "svc_inv ps s' \<and> keys_inv ps s' h"
proof -
  let ?i = "c_server (calls s c)"
  let ?v = "servers s ?i"
  obtain k where pc: "c_pc (calls s c) = Submitted k" using st by (auto simp: registerCall_def Let_def split: callPC.splits)
  then have key: "call_key s c = Some k" by simp
  have node: "is_node ps ?i" and k: "issued h k (commandOf (c_req (calls s c)))" using keys_invD(1,2) [OF K key] by simp_all
  have sv: "srv_inv ?v" "server_ok ps s ?i" "store_inv s ?i" using I node by (auto simp: svc_inv_def server_ok_def)
  have np: "k \<notin> fst ` set (pending ?v)" by (rule not_pending [OF I K key]) (simp add: pc)
  obtain v r where reg: "register k ?v = (v, r)" by fastforce
  have inv: "srv_inv v" using register_inv [OF sv(1) np] reg by simp
  have store: "store v = store ?v" using reg by (auto simp: register_def Let_def split: if_splits option.splits)
  define p where "p = (case r of Answered err \<Rightarrow> afterWait (c_req (calls s c)) k err | Waits ch \<Rightarrow> Blocked k ch)"
  have s': "s' = set_callpc c p (set_srv ?i v s)"
    using st pc reg by (auto simp: registerCall_def Let_def p_def split: registration.splits)
  have same: "raft s' = raft s" "taken s' = taken s" by (simp_all add: s' set_simps)
  have pk: "pc_key p = Some k" "call_ok s' ((calls s c)\<lparr>c_pc := p\<rparr>)" "call_piece k p ?v v"
  proof -
    have "pc_key p = Some k \<and> call_ok s' ((calls s c)\<lparr>c_pc := p\<rparr>) \<and> call_piece k p ?v v"
    proof (cases r)
      case (Answered err)
      have "answer_ok s ?i k err" using sv(2) reg Answered unfolding server_ok_def
        by (auto simp: register_def Let_def answer_ok_def split: if_splits option.splits)
      note aw = afterWait_ok [OF R k refl disjI1 [OF this] same]
      have "call_piece k p ?v v" using inv reg Answered aw(3) np
        by (auto simp: call_piece_def p_def register_def Let_def delete_conv' split: if_splits option.splits) force+
      then show ?thesis using aw by (simp add: p_def Answered)
    next
      case (Waits ch)
      note rw = register_waits [OF reg [unfolded Waits]]
      have "servers s' ?i = v" by (simp add: s' set_simps)
      then have "call_ok s' ((calls s c)\<lparr>c_pc := p\<rparr>)" using rw(1) by (simp add: p_def Waits)
      moreover have "call_piece k p ?v v" using inv reg Waits np rw(2)
        by (auto simp: call_piece_def p_def register_def Let_def set_update_new split: if_splits option.splits) force+
      ultimately show ?thesis by (simp add: p_def Waits)
    qed
    then show "pc_key p = Some k" "call_ok s' ((calls s c)\<lparr>c_pc := p\<rparr>)" "call_piece k p ?v v" by auto
  qed
  have "svc_inv ps s'"
  proof (rule svc_inv_call [OF I K key pk(1) refl s' pk(3,2)])
    show "store_inv s' ?i" unfolding s' by (rule store_inv_same [OF sv(3) store])
    show "waiting_ok v k' ch P" if "k' \<noteq> k" "waiting_ok ?v k' ch P" for k' ch P
      using waiting_register [OF sv(1) that(2,1) np] reg by simp
  qed
  moreover have "keys_inv ps s' h"
    by (rule keys_inv_call [OF K, of s' c p]) (use pk(1) key in \<open>simp_all add: s' set_simps\<close>)
  ultimately show ?thesis by blast
qed

text \<open>The three ways out of the wait.\<close>

lemma svc_answered:
  assumes R: "inv ps (raft s) h" and I: "svc_inv ps s" and K: "keys_inv ps s h" and pc: "c_pc (calls s c) = Blocked k ch"
    and i: "i = c_server (calls s c)" and s': "s' = set_callpc c (afterWait (c_req (calls s c)) k err) (set_srv i v s)"
    and a: "answer_ok s i k err \<or> err \<in> {Some ErrCommitTimeout, Some ErrCanceled, Some ErrServerClosed}"
    and v: "srv_inv v" "completed v = completed (servers s i)" "store v = store (servers s i)"
    and pend: "\<And>k' ch'. (k', ch') \<in> set (pending v) \<Longrightarrow> k' \<noteq> k \<and> (k', ch') \<in> set (pending (servers s i))"
    and w: "\<And>k' ch' P. k' \<noteq> k \<Longrightarrow> ch' \<noteq> ch \<Longrightarrow> waiting_ok (servers s i) k' ch' P \<Longrightarrow> waiting_ok v k' ch' P"
  shows "svc_inv ps s' \<and> keys_inv ps s' h"
proof -
  let ?p = "afterWait (c_req (calls s c)) k err"
  have key: "call_key s c = Some k" by (simp add: pc)
  have k: "issued h k (commandOf (c_req (calls s c)))" and n: "is_node ps i" using keys_invD(1,2) [OF K key] i by simp_all
  have same: "raft s' = raft s" "taken s' = taken s" by (simp_all add: s' set_simps)
  note aw = afterWait_ok [OF R k i a same]
  have "svc_inv ps s'"
  proof (rule svc_inv_call [OF I K key aw(2) i s'])
    show "call_piece k ?p (servers s i) v" using v pend aw(3) unfolding call_piece_def by metis
    show "call_ok s' ((calls s c)\<lparr>c_pc := ?p\<rparr>)" by (rule aw(1))
    show "store_inv s' i" unfolding s' by (rule store_inv_same) (use I n v(3) in \<open>simp_all add: svc_inv_def\<close>)
    show "waiting_ok v k' ch' P" if "x \<noteq> c" "c_server (calls s x) = i" "c_pc (calls s x) = Blocked k' ch'" "k' \<noteq> k"
      "waiting_ok (servers s i) k' ch' P" for x k' ch' P
    proof -
      have "ch' \<noteq> ch" using blocked_unique [OF I, of x c k' ch k] that(1-3) pc i by auto
      then show ?thesis using w that by blast
    qed
  qed
  moreover have "keys_inv ps s' h"
    by (rule keys_inv_call [OF K, of s' c ?p]) (use aw(2) key in \<open>simp_all add: s' set_simps\<close>)
  ultimately show ?thesis by blast
qed

lemma svc_receiveCall:
  assumes R: "inv ps (raft s) h" and I: "svc_inv ps s" and K: "keys_inv ps s h" and st: "receiveCall c s = Some s'"
  shows "svc_inv ps s' \<and> keys_inv ps s' h"
proof -
  let ?i = "c_server (calls s c)"
  let ?v = "servers s ?i"
  obtain k ch v err where pc: "c_pc (calls s c) = Blocked k ch" and r: "receive ch ?v = Some (v, err)"
    and s': "s' = set_callpc c (afterWait (c_req (calls s c)) k err) (set_srv ?i v s)"
    using st by (auto simp: receiveCall_def Let_def split: callPC.splits option.splits)
  have key: "call_key s c = Some k" by (simp add: pc)
  have so: "server_ok ps s ?i" using I keys_invD(1) [OF K key] by (simp add: svc_inv_def)
  then have sv: "srv_inv ?v" by (simp add: server_ok_def)
  have "call_ok s (calls s c)" using I by (simp add: svc_inv_def)
  then have wo: "waiting_ok ?v k ch (answer_ok s ?i k)" by (simp add: pc Let_def)
  have ch: "waitChs ?v ch = Some err" and v: "v = ?v\<lparr>waitChs := (waitChs ?v)(ch := None)\<rparr>"
    using r by (auto simp: receive_def split: option.splits)
  have "map_of (pending ?v) k \<noteq> Some ch" using srv_invD(4) [OF sv, of k ch] ch by (auto dest: map_of_SomeD)
  then have nc: "ch \<notin> snd ` set (pending ?v)" and a: "answer_ok s ?i k err" using wo ch by (auto simp: waiting_ok_def)
  have "k \<notin> fst ` set (pending ?v)"
  proof
    assume "k \<in> fst ` set (pending ?v)"
    then obtain ch' where m: "(k, ch') \<in> set (pending ?v)" by auto
    then obtain x where x: "c_pc (calls s x) = Blocked k ch'" using so unfolding server_ok_def by blast
    then have "x = c" using keys_invD(4) [OF K key, of x] by simp
    then show False using x pc nc m by force
  qed
  then have "k' \<noteq> k \<and> (k', ch') \<in> set (pending ?v)" if "(k', ch') \<in> set (pending v)" for k' ch' using that v by force
  then show ?thesis
    using svc_answered [OF R I K pc refl s' disjI1 [OF a] receive_inv [OF sv r]] waiting_receive [OF r] by (simp add: v)
qed

lemma svc_forget:
  assumes R: "inv ps (raft s) h" and I: "svc_inv ps s" and K: "keys_inv ps s h" and pc: "c_pc (calls s c) = Blocked k ch"
    and s': "s' = set_callpc c (afterWait (c_req (calls s c)) k (Some e)) (set_srv (c_server (calls s c)) (forget k (servers s (c_server (calls s c)))) s)"
    and e: "e \<in> {ErrCommitTimeout, ErrCanceled, ErrServerClosed}"
  shows "svc_inv ps s' \<and> keys_inv ps s' h"
proof (rule svc_answered [OF R I K pc refl s'])
  let ?v = "servers s (c_server (calls s c))"
  have "is_node ps (c_server (calls s c))" using keys_invD(1) [OF K, of c k] pc by simp
  then show "srv_inv (forget k ?v)" using I forget_inv by (simp add: svc_inv_def server_ok_def)
  show "answer_ok s (c_server (calls s c)) k (Some e) \<or> Some e \<in> {Some ErrCommitTimeout, Some ErrCanceled, Some ErrServerClosed}"
    using e by auto
  show "waiting_ok (forget k ?v) k' ch' P" if "k' \<noteq> k" "waiting_ok ?v k' ch' P" for k' ch' P
    using waiting_forget [OF that(2)] that(1) by simp
qed (auto simp: forget_def set_delete)

lemma svc_expireCall:
  assumes "inv ps (raft s) h" "svc_inv ps s" "keys_inv ps s h" and st: "expireCall c deadline s = Some s'"
  shows "svc_inv ps s' \<and> keys_inv ps s' h"
proof -
  obtain k ch where pc: "c_pc (calls s c) = Blocked k ch" using st by (auto simp: expireCall_def Let_def split: callPC.splits)
  show ?thesis
    by (rule svc_forget [OF assms(1-3) pc, where e = "if deadline then ErrCommitTimeout else ErrCanceled"])
      (use st pc in \<open>auto simp: expireCall_def contextDone_def Let_def\<close>)
qed

lemma svc_closedCall:
  assumes "inv ps (raft s) h" "svc_inv ps s" "keys_inv ps s h" and st: "closedCall c s = Some s'"
  shows "svc_inv ps s' \<and> keys_inv ps s' h"
proof -
  obtain k ch where pc: "c_pc (calls s c) = Blocked k ch" using st by (auto simp: closedCall_def Let_def split: callPC.splits)
  show ?thesis
    by (rule svc_forget [OF assms(1-3) pc, where e = ErrServerClosed])
      (use st pc in \<open>auto simp: closedCall_def serverClosed_def Let_def split: if_splits\<close>)
qed

text \<open>The read of a \<open>Get\<close>.\<close>

lemma heard_index:
  assumes "inv ps (raft s) h" "heard s i k err"
  shows "1 \<le> pk_index k" "pk_index k \<le> int (taken s i)" "nat (pk_index k) \<le> length (applied (raft s) i)"
proof -
  obtain m where m: "m < taken s i" "m < length (applied (raft s) i)" "msgKey (applied (raft s) i ! m) = k"
    using assms(2) by (auto simp: heard_def)
  have "pk_index k = int (Suc m)" using applied_entry(1) [OF assms(1) m(2)] m(3) by (auto simp: msgKey_def)
  then show "1 \<le> pk_index k" "pk_index k \<le> int (taken s i)" "nat (pk_index k) \<le> length (applied (raft s) i)" using m by auto
qed

lemma readStore_ok:
  assumes "store_inv s i"
  shows "\<exists>w. fst (readStore no_faults key (servers s i)) = (servers s i)\<lparr>store := w\<rparr> \<and> store_inv (set_srv i ((servers s i)\<lparr>store := w\<rparr>) s) i
    \<and> (snd (readStore no_faults key (servers s i)) = Inl (StoreErr ErrClosed)
       \<or> snd (readStore no_faults key (servers s i))
         = (case replicated (take (taken s i) (applied (raft s) i)) key of None \<Rightarrow> Inl (StoreErr ErrKeyNotFound) | Some b \<Rightarrow> Inr b))"
proof (cases "closing s i = Stopped")
  case True
  then show ?thesis using assms
    by (intro exI [of _ "store (servers s i)"]) (simp add: store_inv_def readStore_def DB_Get_def set_srv_def)
next
  case False
  then have ok: "store_ok (clock s i) (room (taken s i)) (store (servers s i))"
    and con: "contents (store (servers s i)) = replicated (take (taken s i) (applied (raft s) i))" using assms by (simp_all add: store_inv_def)
  from get_keeps [OF ok, of key] obtain w where "DB_Get no_faults key (store (servers s i))
      = (w, case contents (store (servers s i)) key of None \<Rightarrow> Inl ErrKeyNotFound | Some v \<Rightarrow> Inr v)"
    "contents w = contents (store (servers s i))" "store_ok (clock s i) (room (taken s i)) w" by blast
  then show ?thesis using False
    by (intro exI [of _ w]) (auto simp: readStore_def store_inv_def set_srv_def con split: option.splits)
qed

lemma svc_readCall:
  assumes R: "inv ps (raft s) h" and I: "svc_inv ps s" and K: "keys_inv ps s h" and st: "readCall c s = Some s'"
  shows "svc_inv ps s' \<and> keys_inv ps s' h"
proof -
  let ?i = "c_server (calls s c)"
  let ?v = "servers s ?i"
  obtain k key where pc: "c_pc (calls s c) = Reading k" and req: "c_req (calls s c) = ReqGet key"
    using st by (auto simp: readCall_def Let_def split: callPC.splits request.splits)
  have ck: "call_key s c = Some k" by (simp add: pc)
  have node: "is_node ps ?i" using keys_invD(1) [OF K ck] .
  have sv: "server_ok ps s ?i" "store_inv s ?i" "call_ok s (calls s c)" using I node by (simp_all add: svc_inv_def)
  then have hd: "heard s ?i k None" by (simp add: pc Let_def)
  obtain w where w: "fst (readStore no_faults key ?v) = ?v\<lparr>store := w\<rparr>" "store_inv (set_srv ?i (?v\<lparr>store := w\<rparr>) s) ?i"
    and r: "snd (readStore no_faults key ?v) = Inl (StoreErr ErrClosed) \<or> snd (readStore no_faults key ?v)
         = (case replicated (take (taken s ?i) (applied (raft s) ?i)) key of None \<Rightarrow> Inl (StoreErr ErrKeyNotFound) | Some b \<Rightarrow> Inr b)"
    using readStore_ok [OF sv(2), of key] by blast
  define p where "p = Returned k (case snd (readStore no_faults key ?v) of Inl e \<Rightarrow> Inl e | Inr b \<Rightarrow> Inr (Some b)) (taken s ?i)"
  have s': "s' = set_callpc c p (set_srv ?i (?v\<lparr>store := w\<rparr>) s)"
    using st pc req w(1) by (auto simp: readCall_def Let_def p_def split: prod.splits sum.splits)
  have same: "raft s' = raft s" "taken s' = taken s" by (simp_all add: s' set_simps)
  have "svc_inv ps s'"
  proof (rule svc_inv_call [OF I K ck _ refl s'])
    show "pc_key p = Some k" by (simp add: p_def)
    have "k \<notin> fst ` set (pending ?v)" by (rule not_pending [OF I K ck]) (simp add: pc)
    then show "call_piece k p ?v (?v\<lparr>store := w\<rparr>)" using sv(1) by (auto simp: call_piece_def server_ok_def p_def rev_image_eqI)
    show "call_ok s' ((calls s c)\<lparr>c_pc := p\<rparr>)"
      using r hd heard_index(2) [OF R hd] req
      by (auto simp: p_def returned_ok_def read_ok_def heard_cong [OF same] same split: option.splits)
    show "store_inv s' ?i" using w(2) by (simp add: s')
  qed simp
  moreover have "keys_inv ps s' h"
    by (rule keys_inv_call [OF K, of s' c p]) (use ck in \<open>simp_all add: s' set_simps p_def\<close>)
  ultimately show ?thesis by blast
qed

section \<open>Starting a call\<close>

lemma svc_inv_start:
  assumes I: "svc_inv ps s" and ns: "c_pc (calls s c) = NotStarted" and x: "c_pc x = Submitted k \<or> c_pc x = Refused e"
  shows "svc_inv ps (s\<lparr>calls := (calls s)(c := x)\<rparr>)" (is "svc_inv ps ?s")
proof -
  have cong: "heard ?s = heard s" "answer_ok ?s = answer_ok s" "returned_ok ?s = returned_ok s"
    by (intro heard_cong answer_cong returned_cong; simp)+
  have "call_ok ?s (calls ?s y)" for y
  proof (cases "y = c")
    case False
    have "call_ok s (calls s y)" using I by (simp add: svc_inv_def)
    then show ?thesis using False by (simp add: cong Let_def split: callPC.splits)
  qed (use x in auto)
  moreover have "server_ok ps ?s i \<and> store_inv ?s i" if i: "is_node ps i" for i
  proof -
    have so: "server_ok ps s i" "store_inv s i" using I i by (simp_all add: svc_inv_def)
    have "\<exists>y. c_server (calls ?s y) = i \<and> c_pc (calls ?s y) = Blocked k' ch" if pm: "(k', ch) \<in> set (pending (servers s i))" for k' ch
    proof -
      obtain y where y: "c_server (calls s y) = i" "c_pc (calls s y) = Blocked k' ch" using so(1) pm unfolding server_ok_def by blast
      then have "y \<noteq> c" using ns by auto
      then show ?thesis using y by auto
    qed
    then show ?thesis using so unfolding server_ok_def store_inv_def cong by simp
  qed
  moreover have "y = z" if "c_server (calls ?s y) = c_server (calls ?s z)" "c_pc (calls ?s y) = Blocked k1 ch"
    "c_pc (calls ?s z) = Blocked k2 ch" for y z k1 k2 ch
  proof -
    have "y \<noteq> c" "z \<noteq> c" using that(2,3) x by auto
    then show ?thesis using blocked_unique [OF I] that by simp
  qed
  moreover have "taken ?s i \<le> length (applied (raft ?s) i)" for i using I by (simp add: svc_inv_def)
  ultimately show ?thesis unfolding svc_inv_def by blast
qed

lemma svc_startCall:
  assumes R: "hreach ps (raft s) h" "length ps \<le> 3" and I: "svc_inv ps s" and K: "keys_inv ps s h"
    and st: "startCall c i req s = Some s'" and i: "is_node ps i"
  shows "\<exists>h'. hreach ps (raft s') h' \<and> keys_inv ps s' h' \<and> svc_inv ps s'"
proof -
  obtain n x k e where s': "s' = s\<lparr>raft := set_node i n (raft s), calls := (calls s)(c := x)\<rparr>"
    and x: "c_pc x = Submitted k \<or> c_pc x = Refused e" and ns: "c_pc (calls s c) = NotStarted"
    using st by (cases rule: startCall_cases) fastforce+
  have "svc_inv ps (s\<lparr>raft := set_node i n (raft s)\<rparr>)" by (rule svc_inv_raft [OF I]) simp
  from svc_inv_start [OF this _ x, of c] have "svc_inv ps s'" using ns by (simp add: s')
  then show ?thesis using keys_startCall [OF R K st i] by blast
qed

section \<open>Steps of servers\<close>

lemma applyCommand_closed: "closed (fst w) \<Longrightarrow> fst (applyCommand os now cmd w) = w"
  by (simp add: applyCommand_def DB_Put_def DB_Delete_def ensureOpen_def)

lemma svc_takeMessage:
  assumes I: "svc_inv ps s" and st: "takeMessage i now s = Some s'" and al: "allowed ps (TakeMessage i now) s"
  shows "svc_inv ps s'"
proof -
  let ?v = "servers s i" and ?msg = "applied (raft s) i ! taken s i"
  let ?r = "applyCommand no_faults now (am_Command ?msg) (store ?v)"
  have lt: "taken s i < length (applied (raft s) i)" using st by (auto simp: takeMessage_def split: if_splits)
  have s': "s' = (set_srv i (?v\<lparr>store := fst ?r\<rparr>) s)\<lparr>taken := (taken s)(i := taken s i + 1),
      notifying := (notifying s)(i := Some (msgKey ?msg, map_option StoreErr (snd ?r))), clock := (clock s)(i := now)\<rparr>"
    using st by (auto simp: takeMessage_def applyStore_def Let_def split: if_splits prod.splits)
  have g: "grows s s'" by (simp add: grows_def s' set_srv_def)
  have i: "is_node ps i" "int (taken s i) + 4 < 2 ^ 64" "storable (clock s i) now (am_Command ?msg)" using al by simp_all
  have so: "server_ok ps s i" "store_inv s i" using I i(1) by (simp_all add: svc_inv_def)
  have oc: "outcome (am_Command ?msg) (map_option StoreErr (snd ?r))"
    using applyCommand_outcome [of no_faults now "am_Command ?msg" "store ?v"] by (auto simp: outcome_def)
  have h: "heard s' i (msgKey ?msg) (map_option StoreErr (snd ?r))"
    unfolding heard_def by (intro exI [of _ "taken s i"]) (use lt oc in \<open>simp add: s' set_srv_def\<close>)
  show ?thesis
  proof (rule svc_inv_server [OF I g, where i = i and v = "?v\<lparr>store := fst ?r\<rparr>"])
    show "server_ok ps s' i" using so(1) h heard_grows [OF g] by (auto simp: server_ok_def s' set_srv_def)
    have tk: "take (Suc (taken s i)) (applied (raft s) i) = take (taken s i) (applied (raft s) i) @ [?msg]"
      by (rule take_Suc_conv_app_nth [OF lt])
    show "store_inv s' i"
    proof (cases "closing s i = Stopped")
      case True
      then show ?thesis using so(2) applyCommand_closed [of "store ?v"] by (simp add: store_inv_def s' set_srv_def)
    next
      case False
      have "room (taken s i) = Suc (room (Suc (taken s i)))" using i(2) by (simp add: room_def)
      then have "store_ok (clock s i) (Suc (room (Suc (taken s i)))) (store ?v)" using so(2) False by (simp add: store_inv_def)
      from applyCommand_refines [OF this i(3)] show ?thesis
        using so(2) False tk by (auto simp: store_inv_def s' set_srv_def replicated_snoc)
    qed
    show "waiting_ok (?v\<lparr>store := fst ?r\<rparr>) k ch (answer_ok s' i k)" if "waiting_ok ?v k ch (answer_ok s i k)" for k ch
      using that answer_grows [OF g] by (auto elim: waiting_mono)
  qed (use lt in \<open>auto simp: s' set_srv_def\<close>)
qed

lemma svc_notifyStep:
  assumes I: "svc_inv ps s" and st: "notifyStep i s = Some s'" and i: "is_node ps i"
  shows "svc_inv ps s'"
proof -
  let ?v = "servers s i"
  obtain k err v where n: "notifying s i = Some (k, err)" "notifyApplied k err ?v = Some v"
    and s': "s' = (set_srv i v s)\<lparr>notifying := (notifying s)(i := None)\<rparr>"
    using st by (auto simp: notifyStep_def split: option.splits)
  have so: "server_ok ps s i" "store_inv s i" using I i by (simp_all add: svc_inv_def)
  then have sv: "srv_inv ?v" and h: "heard s i k err" using n(1) by (simp_all add: server_ok_def)
  have cong: "heard s' = heard s" "answer_ok s' = answer_ok s" by (intro heard_cong answer_cong; simp add: s' set_srv_def)+
  have store: "store v = store ?v"
    using n(2) by (auto simp: notifyApplied_def evictOldest_def Let_def split: option.splits if_splits)
  have pend: "set (pending v) \<subseteq> set (pending ?v)"
    using n(2) by (auto simp: notifyApplied_def evictOldest_def Let_def set_delete split: option.splits if_splits)
  have vi: "srv_inv v" using notify_inv [OF sv, of k err] n(2) by auto
  show ?thesis
  proof (rule svc_inv_server [OF I, where i = i and v = v])
    show "grows s s'" by (simp add: grows_def s' set_srv_def)
    show "server_ok ps s' i"
      using so(1) h vi completed_notify [OF sv n(2)] pend unfolding server_ok_def cong by (fastforce simp: s' set_srv_def)
    show "store_inv s' i" using so(2) by (simp add: store_inv_def s' set_srv_def store)
    show "waiting_ok v k' ch (answer_ok s' i k')" if "waiting_ok ?v k' ch (answer_ok s i k')" for k' ch
      using waiting_notify [OF sv n(2) that] h by (simp add: cong answer_ok_def)
  qed (use I in \<open>auto simp: s' set_srv_def svc_inv_def\<close>)
qed

lemma DB_Close_closed: "closed (fst (DB_Close os db))"
  by (simp add: DB_Close_def Let_def)

lemma closeStep_cases:
  assumes "closeStep i s = Some s'" "srv_inv (servers s i)"
  obtains (signal) "closing s i = Running" "s' = (set_srv i (closeSignal (servers s i)) s)\<lparr>closing := (closing s)(i := Answering)\<rparr>"
  | (answer) v where "closing s i = Answering" "closePending (pending (servers s i)) (servers s i) = Some v" "srv_inv v"
      "completed v = completed (servers s i)" "pending v = []" "store v = store (servers s i)"
      "s' = (set_srv i v s)\<lparr>closing := (closing s)(i := Stopping)\<rparr>"
  | (stop) "closing s i = Stopping" "s' = (set_srv i (closeStore no_faults (servers s i)) s)\<lparr>closing := (closing s)(i := Stopped)\<rparr>"
proof (cases "closing s i")
  case Answering
  obtain v where v: "closePending (pending (servers s i)) (servers s i) = Some v" "srv_inv v"
    "v = (servers s i)\<lparr>pending := [], waitChs := (\<lambda>ch. if ch \<in> snd ` set (pending (servers s i)) then Some (Some ErrServerClosed)
      else waitChs (servers s i) ch)\<rparr>" using closePending_spec [OF assms(2) refl] by blast
  have "completed v = completed (servers s i)" "pending v = []" "store v = store (servers s i)" by (simp_all add: v(3))
  then show ?thesis using answer [OF Answering v(1,2)] assms(1) Answering v(1) by (simp add: closeStep_def)
qed (use assms(1) signal stop in \<open>auto simp: closeStep_def\<close>)

lemma svc_closeStep:
  assumes I: "svc_inv ps s" and st: "closeStep i s = Some s'" and i: "is_node ps i"
  shows "svc_inv ps s'"
proof -
  let ?v = "servers s i"
  have so: "server_ok ps s i" "store_inv s i" using I i by (simp_all add: svc_inv_def)
  then have sv: "srv_inv ?v" by (simp add: server_ok_def)
  have frame: "svc_inv ps s'" if s': "s' = (set_srv i v s)\<lparr>closing := (closing s)(i := p)\<rparr>" and v: "srv_inv v"
    "completed v = completed ?v" "set (pending v) \<subseteq> set (pending ?v)" and st: "store_inv s' i"
    and w: "\<And>k ch. waiting_ok ?v k ch (answer_ok s i k) \<Longrightarrow> waiting_ok v k ch (answer_ok s i k)" for v p
  proof (rule svc_inv_server [OF I, where i = i and v = v])
    have cong: "heard s' = heard s" "answer_ok s' = answer_ok s" by (intro heard_cong answer_cong; simp add: s' set_srv_def)+
    show "grows s s'" by (simp add: grows_def s' set_srv_def)
    show "server_ok ps s' i" using so(1) v unfolding server_ok_def cong by (fastforce simp: s' set_srv_def)
    show "waiting_ok v k ch (answer_ok s' i k)" if "waiting_ok ?v k ch (answer_ok s i k)" for k ch
      using w [OF that] by (simp add: cong)
  qed (use I st in \<open>auto simp: s' set_srv_def svc_inv_def\<close>)
  from st sv show ?thesis
  proof (cases rule: closeStep_cases)
    case signal
    then have "store_inv s' i" using so(2) by (simp add: store_inv_def closeSignal_def set_srv_def)
    then show ?thesis by (rule frame [OF signal(2) closeSignal_inv [OF sv], rotated 2]) (simp_all, simp_all add: closeSignal_def)
  next
    case (answer v)
    then have "store_inv s' i" using so(2) by (simp add: store_inv_def set_srv_def)
    with answer waiting_close [OF sv answer(2)] show ?thesis by (intro frame [OF answer(7,3)]) (simp_all add: answer_ok_def)
  next
    case stop
    then have "store_inv s' i" using DB_Close_closed by (simp add: store_inv_def closeStore_def set_srv_def)
    then show ?thesis by (rule frame [OF stop(2), rotated 3]) (use sv in \<open>simp_all add: closeStore_def\<close>)
  qed
qed

section \<open>The start\<close>

lemma normalizeConfig_store:
  assumes "normalizeConfig cfg = Inr cfg'" "MaxDataFileSizeBytes (StoreOptions cfg) < 2 ^ 63"
  shows "ReadWrite (StoreOptions cfg')" "MaxDataFileSizeBytes (StoreOptions cfg') < 2 ^ 63"
proof -
  obtain mid where m: "fillClientPeers (fillClientAddress cfg) = Inr mid" "cfg' = fillDefaults mid"
    using assms(1) by (rule normalizeConfig_Inr)
  have "StoreOptions mid = StoreOptions (fillClientAddress cfg)" by (subst fillClientPeers_Inr [OF m(1)]) simp
  also have "\<dots> = StoreOptions cfg" by (simp add: fillClientAddress_def)
  finally show "ReadWrite (StoreOptions cfg')" "MaxDataFileSizeBytes (StoreOptions cfg') < 2 ^ 63" using assms(2) by (simp_all add: m(2))
qed

lemma new_server:
  assumes "NewRaftKVServer no_faults False cfg [] = (d, Inr (v, n))" "MaxDataFileSizeBytes (StoreOptions cfg) < 2 ^ 63"
  shows "srv_inv v" "completed v = []" "pending v = []" "store_ok 0 (room 0) (store v)" "contents (store v) = Map.empty"
proof -
  obtain cfg' where c: "normalizeConfig cfg = Inr cfg'" using assms(1) by (auto simp: NewRaftKVServer_def split: sum.splits)
  note o = normalizeConfig_store [OF c assms(2)]
  have v: "v = \<lparr>srv_id = cfg_ID cfg', address = RaftAddress cfg', clientAddress = ClientAddress cfg',
      store = (fresh_db (StoreOptions cfg'), fresh_dir), pending = [], completed = [], completionQ = [],
      commitTimeout = CommitTimeout cfg', clientPeers = clientPeers v, closedCh = False, waitChs = (\<lambda>_. None), nextCh = 0\<rparr>"
    using assms(1) c open_empty [OF o(1)] by (auto simp: NewRaftKVServer_def Let_def split: if_splits)
  show "completed v = []" "pending v = []" by (subst v; simp)+
  show "srv_inv v" by (subst v) (simp add: srv_inv_def)
  have "2 + room 0 < 2 ^ 64" by (simp add: room_def)
  then show "store_ok 0 (room 0) (store v)" by (subst v) (simp add: store_ok_fresh [OF o])
  show "contents (store v) = Map.empty" by (subst v) (simp add: contents_empty [OF log_fresh [OF o]])
qed

lemma svc_inv_init:
  assumes "made_servers ps cfgs srvs"
  shows "svc_inv ps (initService ps srvs)" "keys_inv ps (initService ps srvs) h"
proof -
  have "server_ok ps (initService ps srvs) i \<and> store_inv (initService ps srvs) i" if n: "is_node ps i" for i
  proof -
    obtain d where "NewRaftKVServer no_faults False (cfgs i) [] = (d, Inr (srvs i, nodes (initCluster ps) i))"
      "MaxDataFileSizeBytes (StoreOptions (cfgs i)) < 2 ^ 63" using assms n unfolding made_servers_def by blast
    from new_server [OF this] show ?thesis
      by (simp add: server_ok_def store_inv_def initService_def replicated_def)
  qed
  then show "svc_inv ps (initService ps srvs)" by (simp add: svc_inv_def initService_def idleCall_def)
  show "keys_inv ps (initService ps srvs) h" by (simp add: keys_inv_def initService_def idleCall_def)
qed

section \<open>Every reachable state\<close>

lemma call_steps_raft:
  "registerCall c s = Some s' \<Longrightarrow> raft s' = raft s"
  "receiveCall c s = Some s' \<Longrightarrow> raft s' = raft s"
  "expireCall c b s = Some s' \<Longrightarrow> raft s' = raft s"
  "closedCall c s = Some s' \<Longrightarrow> raft s' = raft s"
  "readCall c s = Some s' \<Longrightarrow> raft s' = raft s"
  by (auto simp: registerCall_def receiveCall_def expireCall_def closedCall_def readCall_def Let_def set_simps
      split: callPC.splits prod.splits registration.splits option.splits request.splits sum.splits)

lemma svc_exec_inv:
  assumes R: "hreach ps (raft s) h" "length ps \<le> 3" and K: "keys_inv ps s h" and I: "svc_inv ps s"
    and al: "allowed ps e s" and st: "svc_exec e s = Some s'"
  shows "\<exists>h'. hreach ps (raft s') h' \<and> keys_inv ps s' h' \<and> svc_inv ps s'"
proof -
  have J: "inv ps (raft s) h" by (rule hreach_inv [OF R])
  show ?thesis
  proof (cases e)
    case (RaftEvent x)
    obtain c where c: "exec x (raft s) = Some c" "s' = s\<lparr>raft := c\<rparr>"
      using st RaftEvent by (auto split: event.splits option.splits)
    have "hreach ps c (hist x (raft s) h)" using al RaftEvent by (intro hreach_step [OF R(1) _ c(1)]) simp
    moreover have "keys_inv ps s' (hist x (raft s) h)"
      by (rule keys_inv_mono [OF K hist_le_exec [OF J c(1)]]) (simp_all add: c applied_exec(1) [OF c(1)])
    moreover have "svc_inv ps s'" unfolding c(2) by (rule svc_inv_raft [OF I applied_exec(1) [OF c(1)]])
    ultimately show ?thesis by (auto simp: c(2))
  next
    case (StartCall c i req)
    then show ?thesis using svc_startCall [OF R I K] al st by simp
  next
    case (TakeMessage i now)
    then have "svc_inv ps s'" "calls s' = calls s" "raft s' = raft s"
      using svc_takeMessage [OF I, of i now s'] al st
      by (auto simp: takeMessage_def Let_def set_srv_def split: if_splits prod.splits)
    then show ?thesis using R(1) keys_inv_mono [OF K hist_le_refl] by fastforce
  next
    case (NotifyStep i)
    then have "svc_inv ps s'" "calls s' = calls s" "raft s' = raft s"
      using svc_notifyStep [OF I, of i s'] al st by (auto simp: notifyStep_def set_srv_def split: option.splits)
    then show ?thesis using R(1) keys_inv_mono [OF K hist_le_refl] by fastforce
  next
    case (CloseStep i)
    then have "svc_inv ps s'" "calls s' = calls s" "raft s' = raft s"
      using svc_closeStep [OF I, of i s'] al st by (auto simp: closeStep_def set_srv_def split: option.splits closePC.splits)
    then show ?thesis using R(1) keys_inv_mono [OF K hist_le_refl] by fastforce
  next
    case (RegisterCall c)
    then show ?thesis using svc_registerCall [OF J I K, of c s'] call_steps_raft(1) [of c s s'] R(1) st by auto
  next
    case (ReceiveCall c)
    then show ?thesis using svc_receiveCall [OF J I K, of c s'] call_steps_raft(2) [of c s s'] R(1) st by auto
  next
    case (ExpireCall c b)
    then show ?thesis using svc_expireCall [OF J I K, of c b s'] call_steps_raft(3) [of c b s s'] R(1) st by auto
  next
    case (ClosedCall c)
    then show ?thesis using svc_closedCall [OF J I K, of c s'] call_steps_raft(4) [of c s s'] R(1) st by auto
  next
    case (ReadCall c)
    then show ?thesis using svc_readCall [OF J I K, of c s'] call_steps_raft(5) [of c s s'] R(1) st by auto
  qed
qed

lemma served_inv:
  assumes "served ps s" "length ps \<le> 3"
  obtains h where "hreach ps (raft s) h" "inv ps (raft s) h" "keys_inv ps s h" "svc_inv ps s"
proof -
  have "\<exists>h. hreach ps (raft s) h \<and> keys_inv ps s h \<and> svc_inv ps s" using assms(1)
  proof (induction rule: served.induct)
    case (served_init cfgs srvs)
    have "hreach ps (raft (initService ps srvs)) initHistory" by (simp add: initService_def hreach_init)
    then show ?case using svc_inv_init [OF served_init] by blast
  next
    case (served_step s e s')
    then show ?case using svc_exec_inv [OF _ assms(2)] by blast
  qed
  then show ?thesis using that hreach_inv assms(2) by blast
qed

end
