(* ===== verification/ServiceSafety.thy ===== *)
theory ServiceSafety
  imports ServiceSteps
begin

text \<open>
  What the service promises its clients, in every state that any interleaving of clients, servers, Raft
  nodes and network can reach: one log explains every answer, answers respect real time, replicas agree,
  no goroutine blocks on a channel and no call misses its answer.
\<close>

section \<open>Runs\<close>

text \<open>A run of allowed events.\<close>

fun svc_runs :: "string list \<Rightarrow> svc_event list \<Rightarrow> service \<Rightarrow> service option" where
  "svc_runs ps [] s = Some s"
| "svc_runs ps (e # es) s =
     (if allowed ps e s then (case svc_exec e s of None \<Rightarrow> None | Some s' \<Rightarrow> svc_runs ps es s') else None)"

lemma svc_runs_served: "served ps s \<Longrightarrow> svc_runs ps es s = Some s' \<Longrightarrow> served ps s'"
  by (induction es arbitrary: s) (auto split: if_splits option.splits intro: served_step)

lemma svc_runs_append:
  "svc_runs ps (es @ fs) s = (case svc_runs ps es s of None \<Rightarrow> None | Some s' \<Rightarrow> svc_runs ps fs s')"
  by (induction es arbitrary: s) (auto split: option.splits)

section \<open>A run of the service\<close>

text \<open>
  Three servers on empty directories. Node 0 is elected; a \<open>Get\<close> on it is replicated, applied and answered
  through its channel; then a second one, which registers only after its barrier was applied and finds
  its answer among the completed ones. The states of this run are the witnesses below.
\<close>

definition demo_opts :: OpenOptions where
  "demo_opts = \<lparr>ReadWrite = True, SyncOnPut = True, MaxDataFileSizeBytes = 1024\<rparr>"

definition demo_cfg :: "int \<Rightarrow> Config" where
  "demo_cfg i = \<lparr>cfg_ID = i, RaftAddress = ''a:1'', ClientAddress = [], Peers = ps3, ClientPeers = [], StoreDir = ''d'',
     StoreOptions = demo_opts, ApplyBuffer = 8, CommitTimeout = 5\<rparr>"

definition demo_srv :: "int \<Rightarrow> RaftKVServer" where
  "demo_srv i = \<lparr>srv_id = i, address = ''a:1'', clientAddress = [], store = (fresh_db demo_opts, fresh_dir), pending = [],
     completed = [], completionQ = [], commitTimeout = 5, clientPeers = [], closedCh = False, waitChs = (\<lambda>_. None), nextCh = 0\<rparr>"

lemma demo_made: "made_servers ps3 demo_cfg demo_srv"
proof -
  have "NewRaftKVServer no_faults False (demo_cfg i) [] = (fresh_dir, Inr (demo_srv i, nodes (initCluster ps3) i))"
    if "is_node ps3 i" for i
  proof -
    have "normalizeConfig (demo_cfg i) = Inr (demo_cfg i)"
      using that by (simp add: normalizeConfig_def fillClientPeers_def fillClientAddress_def fillDefaults_def demo_cfg_def demo_opts_def
          is_node_def len_def ps3_def)
    then show ?thesis using open_empty [of demo_opts]
      by (simp add: NewRaftKVServer_def demo_srv_def demo_cfg_def addressesByID_def initCluster_def demo_opts_def)
  qed
  then show ?thesis by (auto simp: made_servers_def demo_cfg_def demo_opts_def)
qed

definition barrier :: "int \<Rightarrow> LogEntry" where
  "barrier n = \<lparr>le_Term = 1, le_Index = n, le_Command = commandOf (ReqGet [])\<rparr>"

definition first_get :: "svc_event list" where
  "first_get = map RaftEvent election_run @ [StartCall 0 0 (ReqGet ''k''), RegisterCall 0] @
     map RaftEvent [SendAppend 0 1, DeliverAppend 0 1 (areq [barrier 1] 0 0 0),
       ReceiveAppendReply 0 1 (areq [barrier 1] 0 0 0) arep, ApplyEntry 0] @
     [TakeMessage 0 1, NotifyStep 0, ReceiveCall 0, ReadCall 0]"

definition second_get :: "svc_event list" where
  "second_get = [StartCall 1 0 (ReqGet ''k'')] @
     map RaftEvent [SendAppend 0 1, DeliverAppend 0 1 (areq [barrier 2] 1 1 1),
       ReceiveAppendReply 0 1 (areq [barrier 2] 1 1 1) arep, ApplyEntry 0] @
     [TakeMessage 0 2, NotifyStep 0, RegisterCall 1, ReadCall 1]"

definition get_once :: service where
  "get_once = the (svc_runs ps3 first_get (initService ps3 demo_srv))"

definition get_twice :: service where
  "get_twice = the (svc_runs ps3 second_get get_once)"

lemma get_once_state:
  "case svc_runs ps3 first_get (initService ps3 demo_srv) of None \<Rightarrow> False
   | Some s \<Rightarrow> c_pc (calls s 0) = Returned \<lparr>pk_index = 1, pk_term = 1\<rparr> (Inl (StoreErr ErrKeyNotFound)) 1
       \<and> c_req (calls s 0) = ReqGet ''k'' \<and> c_pc (calls s 1) = NotStarted"
  by code_simp

lemma get_twice_state:
  "case svc_runs ps3 (first_get @ second_get) (initService ps3 demo_srv) of None \<Rightarrow> False
   | Some s \<Rightarrow> c_pc (calls s 1) = Returned \<lparr>pk_index = 2, pk_term = 1\<rparr> (Inl (StoreErr ErrKeyNotFound)) 2
       \<and> c_req (calls s 1) = ReqGet ''k'' \<and> closing s 0 = Running \<and> closing s 1 = Running \<and> closing s 2 = Running
       \<and> taken s 0 = 2 \<and> taken s 1 = 0 \<and> taken s 2 = 0"
  by code_simp

lemma get_once_run: "svc_runs ps3 first_get (initService ps3 demo_srv) = Some get_once"
  using get_once_state by (auto simp: get_once_def split: option.splits)

lemma get_twice_run: "svc_runs ps3 second_get get_once = Some get_twice"
  using get_twice_state by (auto simp: get_twice_def svc_runs_append get_once_run split: option.splits)

lemma get_once_served: "served ps3 get_once"
  by (rule svc_runs_served [OF served_init [OF demo_made] get_once_run])

lemma get_twice_served: "served ps3 get_twice"
  by (rule svc_runs_served [OF get_once_served get_twice_run])

lemmas get_once_call = get_once_state [unfolded get_once_run option.case, THEN conjunct1]
  get_once_state [unfolded get_once_run option.case, THEN conjunct2, THEN conjunct1]
  get_once_state [unfolded get_once_run option.case, THEN conjunct2, THEN conjunct2]

lemma get_twice_call:
  "c_pc (calls get_twice 1) = Returned \<lparr>pk_index = 2, pk_term = 1\<rparr> (Inl (StoreErr ErrKeyNotFound)) 2"
  "c_req (calls get_twice 1) = ReqGet ''k''" "closing get_twice 0 = Running" "closing get_twice 1 = Running"
  "closing get_twice 2 = Running" "taken get_twice 0 = 2" "taken get_twice 1 = 0" "taken get_twice 2 = 0"
  using get_twice_state by (simp_all add: svc_runs_append get_once_run get_twice_run)

lemma ps3_nodes: "is_node ps3 0" "is_node ps3 1" "is_node ps3 2"
  by (simp_all add: is_node_def len_def ps3_def)

section \<open>One log\<close>

text \<open>The answers that report an effect: success, and a \<open>Get\<close> that found no key.\<close>

fun answered :: "request \<Rightarrow> response \<Rightarrow> bool" where
  "answered req (Inr v) = True"
| "answered (ReqGet key) (Inl e) = (e = StoreErr ErrKeyNotFound)"
| "answered req (Inl e) = False"

definition answer_of :: "byte list option \<Rightarrow> response" where
  "answer_of v = (case v of None \<Rightarrow> Inl (StoreErr ErrKeyNotFound) | Some b \<Rightarrow> Inr (Some b))"

text \<open>
  A log explains a call's answer: the call's command stands in the log, after everything any node had
  applied when the call began, and the answer is what the log up to the call's position says.
\<close>

definition explained :: "ApplyMsg list \<Rightarrow> call \<Rightarrow> bool" where
  "explained L x \<longleftrightarrow>
     (case c_pc x of
        Returned k r p \<Rightarrow> answered (c_req x) r \<longrightarrow>
          (\<forall>i. int (c_floor x i) < pk_index k) \<and> 1 \<le> pk_index k \<and> pk_index k \<le> int p \<and> p \<le> length L
          \<and> am_Command (L ! (nat (pk_index k) - 1)) = commandOf (c_req x)
          \<and> (case c_req x of
               ReqGet key \<Rightarrow> r = answer_of (replicated (take p L) key)
             | ReqPut key value \<Rightarrow> r = Inr None \<and> int p = pk_index k \<and> replicated (take p L) key = Some (bytes_of value)
             | ReqDelete key \<Rightarrow> r = Inr None \<and> int p = pk_index k \<and> replicated (take p L) key = None)
      | _ \<Rightarrow> True)"

text \<open>The longest of the sequences of messages the nodes have sent.\<close>

lemma longest_applied:
  assumes R: "hreach ps c h" and I: "inv ps c h"
  obtains j where "\<And>i. prefix (applied c i) (applied c j)"
proof -
  have fin: "finite ((\<lambda>i. length (applied c i)) ` UNIV)"
  proof -
    have "(\<lambda>i. length (applied c i)) ` UNIV \<subseteq> insert 0 ((\<lambda>i. length (applied c i)) ` {i. is_node ps i})"
      using hreach_applied [OF R] by fastforce
    moreover have "{i. is_node ps i} = {0..<len ps}" by (auto simp: is_node_def)
    ultimately show ?thesis by (metis finite_atLeastLessThan_int finite_imageI finite_insert finite_subset)
  qed
  obtain j where j: "length (applied c j) = Max ((\<lambda>i. length (applied c i)) ` UNIV)"
    using Max_in [OF fin] by fastforce
  have "prefix (applied c i) (applied c j)" for i
  proof -
    have "length (applied c i) \<le> length (applied c j)" unfolding j by (rule Max_ge [OF fin]) simp
    then show ?thesis using applied_comparable [OF I, of i j]
      by (metis prefix_length_le prefix_length_prefix prefix_order.order_refl)
  qed
  then show ?thesis using that by blast
qed

lemma heard_explains:
  assumes I: "inv ps (raft s) h" and K: "keys_inv ps s h" and key: "call_key s c = Some k"
    and hd: "heard s (c_server (calls s c)) k None" and L: "\<And>i. prefix (applied (raft s) i) L"
  shows "int (c_floor (calls s c) i) < pk_index k" "1 \<le> pk_index k" "nat (pk_index k) \<le> length L"
    "am_Command (L ! (nat (pk_index k) - 1)) = commandOf (c_req (calls s c))" "\<not> reserved (commandOf (c_req (calls s c)))"
proof -
  let ?j = "c_server (calls s c)"
  obtain m where m: "m < length (applied (raft s) ?j)" "msgKey (applied (raft s) ?j ! m) = k"
    "outcome (am_Command (applied (raft s) ?j ! m)) None" using hd by (auto simp: heard_def)
  note ap = issued_applied [OF I keys_invD(2) [OF K key] m(1,2)]
  show "1 \<le> pk_index k" using ap(2) by simp
  show "nat (pk_index k) \<le> length L" using ap(2) m(1) prefix_length_le [OF L [of ?j]] by simp
  show "am_Command (L ! (nat (pk_index k) - 1)) = commandOf (c_req (calls s c))"
    using ap prefix_nth [OF L m(1)] by (simp add: nat_add_distrib)
  show "\<not> reserved (commandOf (c_req (calls s c)))" using m(3) ap(1) by (simp add: outcome_def)
  show "int (c_floor (calls s c) i) < pk_index k"
  proof (rule ccontr)
    assume "\<not> int (c_floor (calls s c) i) < pk_index k"
    then have "m < c_floor (calls s c) i" using ap(2) by simp
    then have "m < length (applied (raft s) i)" "msgKey (applied (raft s) i ! m) \<noteq> k"
      using keys_invD(3) [OF K key] by (auto simp: unsent_def)
    then show False using applied_same [OF I m(1), of i] m(2) by simp
  qed
qed

lemma replicated_last:
  assumes "0 < p" "p \<le> length L"
  shows "replicated (take p L) = spec_command (am_Command (L ! (p - 1))) (replicated (take (p - 1) L))"
  using assms take_Suc_conv_app_nth [of "p - 1" L] by (simp add: replicated_snoc)

lemma call_explained:
  assumes I: "inv ps (raft s) h" and K: "keys_inv ps s h" and V: "svc_inv ps s" and L: "\<And>i. prefix (applied (raft s) i) L"
  shows "explained L (calls s c)"
proof (cases "\<exists>k r p. c_pc (calls s c) = Returned k r p \<and> answered (c_req (calls s c)) r")
  case False
  then show ?thesis by (auto simp: explained_def split: callPC.splits)
next
  case True
  let ?i = "c_server (calls s c)"
  obtain k r p where pc: "c_pc (calls s c) = Returned k r p" and a: "answered (c_req (calls s c)) r" using True by blast
  have "call_ok s (calls s c)" and tk: "taken s ?i \<le> length (applied (raft s) ?i)" using V by (simp_all add: svc_inv_def)
  then have ok: "returned_ok s ?i (c_req (calls s c)) k r p" by (simp add: pc Let_def)
  have hd: "heard s ?i k None" using ok a
    by (cases "c_req (calls s c)"; cases r) (auto simp: returned_ok_def read_ok_def)
  have key: "call_key s c = Some k" by (simp add: pc)
  note he = heard_explains [OF I K key hd L]
  show ?thesis
  proof (cases "c_req (calls s c)")
    case (ReqGet kk)
    have "read_ok s ?i k p kk (case r of Inr v \<Rightarrow> v | Inl e \<Rightarrow> None)" "r = answer_of (case r of Inr v \<Rightarrow> v | Inl e \<Rightarrow> None)"
      using ok a by (auto simp: returned_ok_def ReqGet answer_of_def split: sum.splits)
    moreover have "take p (applied (raft s) ?i) = take p L" if "p \<le> taken s ?i" for p
      using take_prefix [OF L [of ?i], of p] that tk by simp
    moreover have "length (applied (raft s) ?i) \<le> length L" by (rule prefix_length_le [OF L])
    ultimately show ?thesis using he pc ReqGet tk by (auto simp: explained_def read_ok_def)
  next
    case (ReqPut kk v)
    then have "r = Inr None" "p = nat (pk_index k)" using ok a by (auto simp: returned_ok_def split: sum.splits)
    then show ?thesis using he pc ReqPut replicated_last [of p L]
      by (auto simp: explained_def spec_command_def reserved_def)
  next
    case (ReqDelete kk)
    then have "r = Inr None" "p = nat (pk_index k)" using ok a by (auto simp: returned_ok_def split: sum.splits)
    then show ?thesis using he pc ReqDelete replicated_last [of p L]
      by (auto simp: explained_def spec_command_def)
  qed
qed

text \<open>
  C1: Linearizability, the explanation. In every reachable state of the service there is one sequence of
  commands, an extension of what every node has applied, that explains every answer given so far: an
  acknowledged \<open>Put\<close> or \<open>Delete\<close> stands in it at its own position and took effect there; a \<open>Get\<close> returned
  what the sequence up to its position says, and its position is not before its own read barrier; and
  each call's command comes after everything any node had applied when the call began.
\<close>

theorem service_linearizable:
  assumes "served ps s" "length ps \<le> 3"
  shows "\<exists>L. (\<forall>i. prefix (applied (raft s) i) L) \<and> (\<forall>c. explained L (calls s c))"
proof -
  obtain h where h: "hreach ps (raft s) h" "inv ps (raft s) h" "keys_inv ps s h" "svc_inv ps s" using assms by (rule served_inv)
  obtain j where "\<And>i. prefix (applied (raft s) i) (applied (raft s) j)" by (rule longest_applied [OF h(1,2)]) blast
  then show ?thesis using call_explained [OF h(2-4)] by blast
qed

theorem service_linearizable_witness:
  "\<exists>L. (\<forall>i. prefix (applied (raft get_once) i) L) \<and> explained L (calls get_once 0)
     \<and> c_pc (calls get_once 0) = Returned \<lparr>pk_index = 1, pk_term = 1\<rparr> (Inl (StoreErr ErrKeyNotFound)) 1"
  using service_linearizable [OF get_once_served length_ps3] get_once_call(1) by blast

section \<open>Real time\<close>

text \<open>What later steps keep of earlier ones.\<close>

lemma svc_exec_keeps:
  assumes "svc_exec e s = Some s'"
  shows "prefix (applied (raft s) i) (applied (raft s') i)"
    "c_pc (calls s c) = Returned k r p \<Longrightarrow> calls s' c = calls s c"
    "c_pc (calls s c) \<noteq> NotStarted \<Longrightarrow> c_pc (calls s' c) \<noteq> NotStarted \<and> c_floor (calls s' c) = c_floor (calls s c)"
    "c_pc (calls s c) = NotStarted \<Longrightarrow> c_pc (calls s' c) = NotStarted \<or> c_floor (calls s' c) = (\<lambda>j. length (applied (raft s) j))"
proof -
  have aw: "afterWait req k' err \<noteq> NotStarted" for req k' err by (auto simp: afterWait_def split: option.splits request.splits)
  have "prefix (applied (raft s) i) (applied (raft s') i)
    \<and> (c_pc (calls s c) = Returned k r p \<longrightarrow> calls s' c = calls s c)
    \<and> (c_pc (calls s c) \<noteq> NotStarted \<longrightarrow> c_pc (calls s' c) \<noteq> NotStarted \<and> c_floor (calls s' c) = c_floor (calls s c))
    \<and> (c_pc (calls s c) = NotStarted \<longrightarrow> c_pc (calls s' c) = NotStarted \<or> c_floor (calls s' c) = (\<lambda>j. length (applied (raft s) j)))"
  proof (cases e)
    case (RaftEvent x)
    then obtain c' where "exec x (raft s) = Some c'" "s' = s\<lparr>raft := c'\<rparr>"
      using assms by (auto split: event.splits option.splits)
    then show ?thesis using applied_exec(1) by auto
  next
    case (StartCall x j req)
    then have "startCall x j req s = Some s'" using assms by simp
    then show ?thesis by (cases rule: startCall_cases) auto
  next
    case (TakeMessage j now)
    then show ?thesis using assms by (auto simp: takeMessage_def Let_def set_srv_def split: if_splits prod.splits)
  next
    case (NotifyStep j)
    then show ?thesis using assms by (auto simp: notifyStep_def set_srv_def split: option.splits)
  next
    case (CloseStep j)
    then show ?thesis using assms by (auto simp: closeStep_def set_srv_def split: option.splits closePC.splits)
  next
    case (RegisterCall x)
    then show ?thesis using assms aw
      by (auto simp: registerCall_def Let_def set_simps split: if_splits callPC.splits prod.splits registration.splits)
  next
    case (ReceiveCall x)
    then show ?thesis using assms aw by (auto simp: receiveCall_def Let_def set_simps split: if_splits callPC.splits option.splits)
  next
    case (ExpireCall x b)
    then show ?thesis using assms aw by (auto simp: expireCall_def Let_def set_simps split: if_splits callPC.splits prod.splits)
  next
    case (ClosedCall x)
    then show ?thesis using assms aw by (auto simp: closedCall_def Let_def set_simps split: if_splits callPC.splits option.splits)
  next
    case (ReadCall x)
    then show ?thesis using assms
      by (auto simp: readCall_def Let_def set_simps split: if_splits callPC.splits request.splits prod.splits sum.splits)
  qed
  then show "prefix (applied (raft s) i) (applied (raft s') i)"
    "c_pc (calls s c) = Returned k r p \<Longrightarrow> calls s' c = calls s c"
    "c_pc (calls s c) \<noteq> NotStarted \<Longrightarrow> c_pc (calls s' c) \<noteq> NotStarted \<and> c_floor (calls s' c) = c_floor (calls s c)"
    "c_pc (calls s c) = NotStarted \<Longrightarrow> c_pc (calls s' c) = NotStarted \<or> c_floor (calls s' c) = (\<lambda>j. length (applied (raft s) j))"
    by blast+
qed

lemma svc_runs_returned:
  "svc_runs ps es s = Some s' \<Longrightarrow> c_pc (calls s c) = Returned k r p \<Longrightarrow> calls s' c = calls s c"
proof (induction es arbitrary: s)
  case (Cons e es)
  then show ?case using svc_exec_keeps(2) by (fastforce split: if_splits option.splits)
qed simp

lemma svc_runs_started:
  "svc_runs ps es s = Some s' \<Longrightarrow> c_pc (calls s c) \<noteq> NotStarted \<Longrightarrow> c_floor (calls s' c) = c_floor (calls s c)"
proof (induction es arbitrary: s)
  case (Cons e es)
  then obtain s1 where "svc_exec e s = Some s1" "svc_runs ps es s1 = Some s'" by (auto split: if_splits option.splits)
  then show ?case using Cons svc_exec_keeps(3) by metis
qed simp

text \<open>A call that began during a run began after everything applied before the run.\<close>

lemma svc_runs_floor:
  "svc_runs ps es s = Some s' \<Longrightarrow> c_pc (calls s c) = NotStarted \<Longrightarrow> c_pc (calls s' c) \<noteq> NotStarted \<Longrightarrow>
    length (applied (raft s) i) \<le> c_floor (calls s' c) i"
proof (induction es arbitrary: s)
  case (Cons e es)
  obtain s1 where s1: "svc_exec e s = Some s1" "svc_runs ps es s1 = Some s'" using Cons.prems(1) by (auto split: if_splits option.splits)
  show ?case
  proof (cases "c_pc (calls s1 c) = NotStarted")
    case True
    have "length (applied (raft s) i) \<le> length (applied (raft s1) i)"
      by (rule prefix_length_le [OF svc_exec_keeps(1) [OF s1(1)]])
    also have "\<dots> \<le> c_floor (calls s' c) i" by (rule Cons.IH [OF s1(2) True Cons.prems(3)])
    finally show ?thesis .
  next
    case False
    then have "c_floor (calls s1 c) = (\<lambda>j. length (applied (raft s) j))" using svc_exec_keeps(4) [OF s1(1) Cons.prems(2)] by blast
    then show ?thesis using svc_runs_started [OF s1(2) False] by simp
  qed
qed simp

text \<open>
  C2: Linearizability, real time. If call \<open>a\<close> had its answer before call \<open>b\<close> began, \<open>a\<close>'s position in the log
  is before the command of \<open>b\<close>, which is not after \<open>b\<close>'s position; and the answer of \<open>a\<close> does not change. So a
  \<open>Get\<close> that begins after a \<open>Put\<close> was acknowledged, on any server, sees that \<open>Put\<close>, whichever leaders were
  elected in between.
\<close>

theorem answers_respect_real_time:
  assumes "served ps s" "length ps \<le> 3" "svc_runs ps es s = Some s'"
    and "c_pc (calls s a) = Returned ka ra pa" "answered (c_req (calls s a)) ra" "c_pc (calls s b) = NotStarted"
    and "c_pc (calls s' b) = Returned kb rb pb" "answered (c_req (calls s' b)) rb"
  shows "calls s' a = calls s a \<and> int pa < pk_index kb \<and> pk_index kb \<le> int pb"
proof -
  obtain h where h: "hreach ps (raft s) h" "inv ps (raft s) h" "keys_inv ps s h" "svc_inv ps s" using assms(1,2) by (rule served_inv)
  obtain h' where h': "hreach ps (raft s') h'" "inv ps (raft s') h'" "keys_inv ps s' h'" "svc_inv ps s'"
    using svc_runs_served [OF assms(1,3)] assms(2) by (rule served_inv)
  obtain j where j: "\<And>i. prefix (applied (raft s) i) (applied (raft s) j)" by (rule longest_applied [OF h(1,2)]) blast
  obtain j' where j': "\<And>i. prefix (applied (raft s') i) (applied (raft s') j')" by (rule longest_applied [OF h'(1,2)]) blast
  have "pa \<le> length (applied (raft s) j)"
    using call_explained [OF h(2-4) j, of a] assms(4,5) by (simp add: explained_def)
  also have "\<dots> \<le> c_floor (calls s' b) j" by (rule svc_runs_floor [OF assms(3,6)]) (simp add: assms(7))
  finally have "pa \<le> c_floor (calls s' b) j" .
  moreover have "int (c_floor (calls s' b) j) < pk_index kb" "pk_index kb \<le> int pb"
    using call_explained [OF h'(2-4) j', of b] assms(7,8) by (simp_all add: explained_def)
  ultimately show ?thesis using svc_runs_returned [OF assms(3,4)] by simp
qed

theorem answers_respect_real_time_witness:
  "calls get_twice 0 = calls get_once 0 \<and> (1 :: int) < 2"
proof -
  have "answered (c_req (calls get_once 0)) (Inl (StoreErr ErrKeyNotFound))" "answered (c_req (calls get_twice 1)) (Inl (StoreErr ErrKeyNotFound))"
    unfolding get_once_call(2) get_twice_call(2) by simp_all
  from answers_respect_real_time [OF get_once_served length_ps3 get_twice_run get_once_call(1) this(1) get_once_call(3) get_twice_call(1) this(2)]
  show ?thesis by simp
qed

section \<open>Replicas\<close>

text \<open>
  C30: State machine replication, down to the files. The store of every server that is not closed holds
  exactly the effect of the commands its apply loop has taken from the log; two servers that have taken
  equally many hold the same contents, although they wrote them at different times into different files.
\<close>

theorem replicas_agree:
  assumes "served ps s" "length ps \<le> 3" "is_node ps i" "is_node ps j" "closing s i \<noteq> Stopped" "closing s j \<noteq> Stopped"
  shows "contents (store (servers s i)) = replicated (take (taken s i) (applied (raft s) i))
       \<and> (taken s i = taken s j \<longrightarrow> contents (store (servers s i)) = contents (store (servers s j)))"
proof -
  obtain h where h: "inv ps (raft s) h" "svc_inv ps s" using assms(1,2) by (rule served_inv)
  have c: "contents (store (servers s x)) = replicated (take (taken s x) (applied (raft s) x))" if "x = i \<or> x = j" for x
    using h(2) assms(3-6) that by (auto simp: svc_inv_def store_inv_def)
  have le: "taken s x \<le> length (applied (raft s) x)" for x using h(2) by (simp add: svc_inv_def)
  have "take (taken s i) (applied (raft s) i) = take (taken s i) (applied (raft s) j)" if "taken s i = taken s j"
    using applied_comparable [OF h(1), of i j] take_prefix le [of i] le [of j] that by metis
  then show ?thesis using c by auto
qed

theorem replicas_agree_witness:
  "contents (store (servers get_twice 0)) = replicated (take 2 (applied (raft get_twice) 0))
   \<and> contents (store (servers get_twice 1)) = contents (store (servers get_twice 2))"
proof -
  have "contents (store (servers get_twice 0)) = replicated (take (taken get_twice 0) (applied (raft get_twice) 0))"
    using replicas_agree [OF get_twice_served length_ps3 ps3_nodes(1,1)] by (simp add: get_twice_call(3))
  moreover have "contents (store (servers get_twice 1)) = contents (store (servers get_twice 2))"
    using replicas_agree [OF get_twice_served length_ps3 ps3_nodes(2,3)] by (auto simp: get_twice_call(4,5,7,8))
  ultimately show ?thesis by (simp add: get_twice_call(6))
qed

section \<open>Channels and locks\<close>

lemma served_server:
  assumes "served ps s" "length ps \<le> 3" "is_node ps i"
  shows "srv_inv (servers s i)"
proof -
  obtain h where "svc_inv ps s" using assms(1,2) by (rule served_inv)
  then show ?thesis using assms(3) by (simp add: svc_inv_def server_ok_def)
qed

text \<open>
  C31: no goroutine blocks while it holds \<open>pendingLock\<close>. In every reachable state the notification of any key
  and the loop of \<open>Close\<close> over the registered calls find every channel they send on empty, and \<open>Close\<close>
  leaves no call registered.
\<close>

theorem sends_never_block:
  assumes "served ps s" "length ps \<le> 3" "is_node ps i"
  shows "notifyApplied k err (servers s i) \<noteq> None
       \<and> (\<exists>v. closePending (pending (servers s i)) (servers s i) = Some v \<and> pending v = [])"
  using notify_inv [OF served_server [OF assms], of k err] closePending_spec [OF served_server [OF assms] refl] by auto

theorem sends_never_block_witness:
  "notifyApplied \<lparr>pk_index = 1, pk_term = 1\<rparr> None (servers get_once 0) \<noteq> None"
  using sends_never_block [OF get_once_served length_ps3 ps3_nodes(1)] by blast

text \<open>
  C32: no lost wake-up. A call that waits on its channel can receive an answer as soon as the apply loop has
  notified its key, or \<open>Close\<close> has gone through the registered calls, whatever happened in between.
\<close>

theorem no_lost_wakeup:
  assumes "served ps s" "length ps \<le> 3" "c_pc (calls s c) = Blocked k ch" "i = c_server (calls s c)"
    and "notifying s i = Some (k, err) \<and> notifyStep i s = Some s' \<or> closing s i = Answering \<and> closeStep i s = Some s'"
  shows "receiveCall c s' \<noteq> None"
proof -
  obtain h where h: "keys_inv ps s h" "svc_inv ps s" using assms(1,2) by (rule served_inv)
  have n: "is_node ps i" using keys_invD(1) [OF h(1), of c k] assms(3,4) by simp
  have sv: "srv_inv (servers s i)" by (rule served_server [OF assms(1,2) n])
  have "call_ok s (calls s c)" using h(2) by (simp add: svc_inv_def)
  then have w: "waiting_ok (servers s i) k ch (\<lambda>_. True)" using assms(3,4) by (auto simp: Let_def elim: waiting_mono)
  obtain v where v: "servers s' i = v" "calls s' = calls s" "waiting_ok v k ch (\<lambda>_. True)" "k \<notin> fst ` set (pending v)"
  proof (cases "closing s i = Answering \<and> closeStep i s = Some s'")
    case True
    then obtain v where v: "closePending (pending (servers s i)) (servers s i) = Some v"
      "s' = (set_srv i v s)\<lparr>closing := (closing s)(i := Stopping)\<rparr>" by (auto simp: closeStep_def split: option.splits)
    have "pending v = []" using closePending_spec [OF sv refl] v(1) by auto
    then show ?thesis using that [of v] waiting_close [OF sv v(1) w] by (simp add: v(2) set_srv_def)
  next
    case False
    then obtain v where v: "notifyApplied k err (servers s i) = Some v" "s' = (set_srv i v s)\<lparr>notifying := (notifying s)(i := None)\<rparr>"
      using assms(5) by (auto simp: notifyStep_def split: option.splits)
    have "k \<notin> fst ` set (pending v)" using v(1)
      by (auto simp: notifyApplied_def evictOldest_def Let_def set_delete map_of_eq_None_iff split: option.splits if_splits)
    then show ?thesis using that [of v] waiting_notify [OF sv v(1) w] by (simp add: v(2) set_srv_def)
  qed
  have "map_of (pending v) k = None" using v(4) by (simp add: map_of_eq_None_iff)
  then obtain e where "waitChs v ch = Some e" using v(3) by (auto simp: waiting_ok_def)
  then show ?thesis using v(1,2) assms(3,4) by (simp add: receiveCall_def receive_def Let_def)
qed

definition get_notified :: service where
  "get_notified = the (svc_runs ps3 (take 15 first_get) (initService ps3 demo_srv))"

lemma get_notified_state:
  "case svc_runs ps3 (take 15 first_get) (initService ps3 demo_srv) of None \<Rightarrow> False
   | Some s \<Rightarrow> c_pc (calls s 0) = Blocked \<lparr>pk_index = 1, pk_term = 1\<rparr> 0 \<and> c_server (calls s 0) = 0
       \<and> notifying s 0 = Some (\<lparr>pk_index = 1, pk_term = 1\<rparr>, None) \<and> notifyStep 0 s \<noteq> None"
  by code_simp

lemma get_notified_run: "svc_runs ps3 (take 15 first_get) (initService ps3 demo_srv) = Some get_notified"
  using get_notified_state unfolding get_notified_def by (cases "svc_runs ps3 (take 15 first_get) (initService ps3 demo_srv)") simp_all

theorem no_lost_wakeup_witness:
  "c_pc (calls get_notified 0) = Blocked \<lparr>pk_index = 1, pk_term = 1\<rparr> 0 \<and> receiveCall 0 (the (notifyStep 0 get_notified)) \<noteq> None"
proof -
  note st = get_notified_state [unfolded get_notified_run option.case]
  have "served ps3 get_notified" by (rule svc_runs_served [OF served_init [OF demo_made] get_notified_run])
  from no_lost_wakeup [OF this length_ps3 conjunct1 [OF st] refl, of None "the (notifyStep 0 get_notified)"] show ?thesis using st by simp
qed

section \<open>Unclaimed outcomes\<close>

text \<open>
  C33: bounded memory. However many entries a server applies for which no call registers (all of them, on a
  follower), it keeps at most 1024 outcomes and as many keys.
\<close>

theorem completions_bounded:
  assumes "served ps s" "length ps \<le> 3" "is_node ps i"
  shows "length (completionQ (servers s i)) \<le> 1024 \<and> length (completed (servers s i)) \<le> 1024"
proof -
  note v = srv_invD [OF served_server [OF assms]]
  have "length (completed (servers s i)) = card (fst ` set (completed (servers s i)))"
    using distinct_card [OF v(5)] by simp
  also have "\<dots> \<le> card (set (completionQ (servers s i)))" by (rule card_mono [OF _ v(6)]) simp
  also have "\<dots> \<le> length (completionQ (servers s i))" by (rule card_length)
  finally show ?thesis using v(7) by (simp add: maxCompletedNotifications_def)
qed

theorem completions_bounded_witness:
  "length (completionQ (servers get_twice 0)) \<le> 1024"
  using completions_bounded [OF get_twice_served length_ps3 ps3_nodes(1)] by blast

end
