(* ===== verification/Client.thy ===== *)
theory Client
  imports Server
begin

text \<open>
  The client side: \<open>common/types.go\<close>, \<open>common/kv_api.go\<close>, \<open>common/logging.go\<close>, the line interpreter of
  \<open>cmd/kv-client\<close>, the start of \<open>cmd/kv-server\<close> and the retrying writer of \<open>cmd/kv-bench\<close>. The gRPC
  library is a parameter: a call takes the state of the rest of the system to its next state and returns
  the response, or \<open>None\<close> when the call itself failed.
\<close>

section \<open>Text\<close>

text \<open>\<open>strings.Fields\<close>, \<open>strings.Split\<close> at one character, \<open>strings.ToLower\<close> for ASCII text and \<open>strings.Contains\<close>.\<close>

function Fields :: "string \<Rightarrow> string list" where
  "Fields s =
     (let s = dropWhile is_space s
      in if s = [] then [] else takeWhile (\<lambda>c. \<not> is_space c) s # Fields (dropWhile (\<lambda>c. \<not> is_space c) s))"
  by auto
termination
proof (relation "measure length")
  fix s x
  assume "x = dropWhile is_space s" "x \<noteq> []"
  then have "\<not> is_space (hd x)" using hd_dropWhile by blast
  moreover obtain c cs where "x = c # cs" using \<open>x \<noteq> []\<close> by (cases x) auto
  moreover have "length x \<le> length s" using \<open>x = dropWhile is_space s\<close> by (simp add: length_dropWhile_le)
  ultimately show "(dropWhile (\<lambda>c. \<not> is_space c) x, s) \<in> measure length"
    using length_dropWhile_le [of "\<lambda>c. \<not> is_space c" cs] by simp
qed simp

declare Fields.simps [simp del]

fun Split :: "char \<Rightarrow> string \<Rightarrow> string list" where
  "Split sep [] = [[]]"
| "Split sep (c # s) =
     (if c = sep then [] # Split sep s
      else case Split sep s of [] \<Rightarrow> [[c]] | t # ts \<Rightarrow> (c # t) # ts)"

definition lower_char :: "char \<Rightarrow> char" where
  "lower_char c = (if 65 \<le> (of_char c :: nat) \<and> (of_char c :: nat) \<le> 90 then char_of ((of_char c :: nat) + 32) else c)"

definition ToLower :: "string \<Rightarrow> string" where
  "ToLower s = map lower_char s"

fun Contains :: "string \<Rightarrow> string \<Rightarrow> bool" where
  "Contains [] sub = (sub = [])"
| "Contains (c # s) sub = (take (length sub) (c # s) = sub \<or> Contains s sub)"

section \<open>Requests of a client\<close>

record ClientRequest =
  req_Type :: string
  req_Key :: string
  req_Value :: string

record ClientResponse =
  cr_Success :: bool
  cr_Value :: string
  cr_Error :: string
  cr_Leader :: string

definition OpGet :: string where "OpGet = ''get''"
definition OpPut :: string where "OpPut = ''put''"
definition OpDelete :: string where "OpDelete = ''delete''"

text \<open>The methods of \<open>pb.KVServiceClient\<close>, with the fields of the request they send.\<close>

datatype kv_call = CallGet string | CallPut string string | CallDelete string

definition clientResponse :: "KVResponse \<Rightarrow> ClientResponse" where
  "clientResponse resp = \<lparr>cr_Success = Success resp, cr_Value = string_of (resp_Value resp),
     cr_Error = resp_Error resp, cr_Leader = resp_Leader resp\<rparr>"

definition InvokeKV :: "(kv_call \<Rightarrow> 'w \<Rightarrow> 'w \<times> KVResponse option) \<Rightarrow> ClientRequest \<Rightarrow> 'w \<Rightarrow> 'w \<times> ClientResponse option" where
  "InvokeKV client req w =
     (if req_Type req = OpGet then
        (case client (CallGet (req_Key req)) w of (w, r) \<Rightarrow> (w, map_option clientResponse r))
      else if req_Type req = OpPut then
        (case client (CallPut (req_Key req) (req_Value req)) w of (w, r) \<Rightarrow> (w, map_option clientResponse r))
      else if req_Type req = OpDelete then
        (case client (CallDelete (req_Key req)) w of (w, r) \<Rightarrow> (w, map_option clientResponse r))
      else (w, Some \<lparr>cr_Success = False, cr_Value = [], cr_Error = ''unknown command'', cr_Leader = []\<rparr>))"

section \<open>Logging\<close>

datatype log_level = LevelDebug | LevelInfo | LevelWarn | LevelError
datatype log_format = TextHandler | JSONHandler
datatype logger_error = UnknownLevel string | UnknownFormat string

definition ConfigureLogger :: "string \<Rightarrow> string \<Rightarrow> logger_error + (log_level \<times> log_format)" where
  "ConfigureLogger level format =
     (let l = ToLower (TrimSpace level); f = ToLower (TrimSpace format);
          lvl = (if l = ''debug'' then Some LevelDebug
                 else if l = ''info'' \<or> l = [] then Some LevelInfo
                 else if l = ''warn'' \<or> l = ''warning'' then Some LevelWarn
                 else if l = ''error'' then Some LevelError
                 else None);
          handler = (if f = [] \<or> f = ''text'' then Some TextHandler
                     else if f = ''json'' then Some JSONHandler
                     else None)
      in case lvl of
           None \<Rightarrow> Inl (UnknownLevel level)
         | Some lvl \<Rightarrow>
             (case handler of
                None \<Rightarrow> Inl (UnknownFormat format)
              | Some handler \<Rightarrow> Inr (lvl, handler)))"

section \<open>The interactive client\<close>

text \<open>What the client prints, one constructor for each message.\<close>

datatype client_output =
    Goodbye | Help | Usage string | PrintOK | PrintValue string | PrintError string
  | TryDifferentNode | LeaderHint string | UnknownCommand string | RPCError

definition printLeaderHint :: "string \<Rightarrow> client_output list" where
  "printLeaderHint leader = (if leader = [] then [TryDifferentNode] else [LeaderHint leader])"

text \<open>The branches for put, get and delete after \<open>invoke\<close>; the boolean says whether the loop goes on.\<close>

definition printResponse :: "(string \<Rightarrow> client_output) \<Rightarrow> ClientResponse option \<Rightarrow> client_output list \<times> bool" where
  "printResponse ok r =
     (case r of
        None \<Rightarrow> ([RPCError], False)
      | Some resp \<Rightarrow>
          if cr_Success resp then ([ok (cr_Value resp)], True)
          else (PrintError (cr_Error resp) # (if cr_Error resp = ''not leader'' then printLeaderHint (cr_Leader resp) else []), True))"

definition clientLine ::
  "(kv_call \<Rightarrow> 'w \<Rightarrow> 'w \<times> KVResponse option) \<Rightarrow> string \<Rightarrow> 'w \<Rightarrow> 'w \<times> client_output list \<times> bool" where
  "clientLine client line w =
     (case Fields line of
        [] \<Rightarrow> (w, [], True)
      | cmd # args \<Rightarrow>
          if cmd = ''quit'' \<or> cmd = ''exit'' then (w, [Goodbye], False)
          else if cmd = ''help'' then (w, [Help], True)
          else if cmd = ''put'' then
            (case args of
               [k, v] \<Rightarrow> (case InvokeKV client \<lparr>req_Type = OpPut, req_Key = k, req_Value = v\<rparr> w of
                           (w, r) \<Rightarrow> (w, printResponse (\<lambda>_. PrintOK) r))
             | _ \<Rightarrow> (w, [Usage ''put <key> <value>''], True))
          else if cmd = ''get'' then
            (case args of
               [k] \<Rightarrow> (case InvokeKV client \<lparr>req_Type = OpGet, req_Key = k, req_Value = []\<rparr> w of
                        (w, r) \<Rightarrow> (w, printResponse PrintValue r))
             | _ \<Rightarrow> (w, [Usage ''get <key>''], True))
          else if cmd = ''delete'' then
            (case args of
               [k] \<Rightarrow> (case InvokeKV client \<lparr>req_Type = OpDelete, req_Key = k, req_Value = []\<rparr> w of
                        (w, r) \<Rightarrow> (w, printResponse (\<lambda>_. PrintOK) r))
             | _ \<Rightarrow> (w, [Usage ''delete <key>''], True))
          else (w, [UnknownCommand cmd], True))"

fun clientLoop ::
  "(kv_call \<Rightarrow> 'w \<Rightarrow> 'w \<times> KVResponse option) \<Rightarrow> string list \<Rightarrow> 'w \<Rightarrow> 'w \<times> client_output list" where
  "clientLoop client [] w = (w, [])"
| "clientLoop client (line # lines) w =
     (case clientLine client line w of
        (w, out, False) \<Rightarrow> (w, out)
      | (w, out, True) \<Rightarrow> (case clientLoop client lines w of (w, rest) \<Rightarrow> (w, out @ rest)))"

section \<open>Starting a server\<close>

record server_flags =
  flag_id :: int
  flag_port :: int
  flag_client_port :: int
  flag_peers :: string
  flag_client_peers :: string
  flag_log_level :: string
  flag_log_format :: string

datatype exit_reason = BadLogger logger_error | InvalidId | ConstructFailed new_error | StartFailed | ClientListenerFailed

definition flagConfig :: "server_flags \<Rightarrow> Config" where
  "flagConfig f =
     \<lparr>cfg_ID = flag_id f, RaftAddress = ''localhost:'' @ Itoa (flag_port f), ClientAddress = ''localhost:'' @ Itoa (flag_client_port f),
      Peers = (if flag_peers f = [] then [] else Split CHR '','' (flag_peers f)),
      ClientPeers = (if flag_client_peers f = [] then [] else Split CHR '','' (flag_client_peers f)),
      StoreDir = [], StoreOptions = \<lparr>ReadWrite = False, SyncOnPut = False, MaxDataFileSizeBytes = 0\<rparr>,
      ApplyBuffer = 0, CommitTimeout = 0\<rparr>"

text \<open>
  \<open>main\<close> up to the point where it waits for a signal; \<open>raftListens\<close> and \<open>clientListens\<close> say whether the
  operating system gives it the two ports.
\<close>

definition serverMain ::
  "os_env \<Rightarrow> bool \<Rightarrow> bool \<Rightarrow> bool \<Rightarrow> server_flags \<Rightarrow> dir \<Rightarrow> dir \<times> (exit_reason + RaftKVServer \<times> Node)" where
  "serverMain os held raftListens clientListens f d =
     (case ConfigureLogger (flag_log_level f) (flag_log_format f) of
        Inl e \<Rightarrow> (d, Inl (BadLogger e))
      | Inr _ \<Rightarrow>
          if flag_id f < 0 then (d, Inl InvalidId)
          else case NewRaftKVServer os held (flagConfig f) d of
                 (d, Inl e) \<Rightarrow> (d, Inl (ConstructFailed e))
               | (d, Inr (s, n)) \<Rightarrow>
                   if \<not> raftListens then (d, Inl StartFailed)
                   else case StartClientListener clientListens (ClientAddress (flagConfig f)) s of
                          None \<Rightarrow> (snd (store (closeStore os s)), Inl ClientListenerFailed)
                        | Some s \<Rightarrow> (d, Inr (s, n)))"

section \<open>The writer of the benchmark\<close>

text \<open>
  What the benchmark uses of the network and the clock: whether a connection to an address can be made, a
  call on it, how often a loop that polls until a timeout looks at the clock before it expires, and the
  time as text.
\<close>

record 'w net =
  net_dial :: "string \<Rightarrow> 'w \<Rightarrow> 'w \<times> bool"
  net_call :: "string \<Rightarrow> kv_call \<Rightarrow> 'w \<Rightarrow> 'w \<times> KVResponse option"
  net_rounds :: "int \<Rightarrow> 'w \<Rightarrow> nat"
  net_nanos :: "'w \<Rightarrow> string"

definition sendRequest :: "'w net \<Rightarrow> string \<Rightarrow> ClientRequest \<Rightarrow> 'w \<Rightarrow> 'w \<times> ClientResponse option" where
  "sendRequest net addr req w =
     (case net_dial net addr w of
        (w, False) \<Rightarrow> (w, None)
      | (w, True) \<Rightarrow> InvokeKV (net_call net addr) req w)"

definition isNotLeader :: "string \<Rightarrow> bool" where
  "isNotLeader errText = Contains (ToLower errText) ''not leader''"

definition putRequest :: "string \<Rightarrow> string \<Rightarrow> ClientRequest" where
  "putRequest key value = \<lparr>req_Type = OpPut, req_Key = key, req_Value = value\<rparr>"

definition getRequest :: "string \<Rightarrow> ClientRequest" where
  "getRequest key = \<lparr>req_Type = OpGet, req_Key = key, req_Value = []\<rparr>"

fun probeLeader :: "'w net \<Rightarrow> string \<Rightarrow> string list \<Rightarrow> 'w \<Rightarrow> 'w \<times> string option" where
  "probeLeader net probeValue [] w = (w, None)"
| "probeLeader net probeValue (addr # addrs) w =
     (case sendRequest net addr (putRequest ''__bench_leader_probe__'' probeValue) w of
        (w, None) \<Rightarrow> probeLeader net probeValue addrs w
      | (w, Some resp) \<Rightarrow> if cr_Success resp then (w, Some addr) else probeLeader net probeValue addrs w)"

fun discoverLoop :: "'w net \<Rightarrow> string \<Rightarrow> string list \<Rightarrow> nat \<Rightarrow> 'w \<Rightarrow> 'w \<times> string option" where
  "discoverLoop net probeValue addrs 0 w = (w, None)"
| "discoverLoop net probeValue addrs (Suc rounds) w =
     (case probeLeader net probeValue addrs w of
        (w, Some addr) \<Rightarrow> (w, Some addr)
      | (w, None) \<Rightarrow> discoverLoop net probeValue addrs rounds w)"

definition discoverLeader :: "'w net \<Rightarrow> int \<Rightarrow> string list \<Rightarrow> 'w \<Rightarrow> 'w \<times> string option" where
  "discoverLeader net timeout addrs w = discoverLoop net (net_nanos net w) addrs (net_rounds net timeout w) w"

text \<open>
  One attempt of \<open>putWithRetryPersistent\<close>. The client is \<open>None\<close> for nil and otherwise the address its
  connection leads to; the outcome is \<open>None\<close> when the loop goes on.
\<close>

datatype put_error = PutRejected string string | PutFailedAfterRetries

type_synonym put_outcome = "(put_error + string) option"

definition putOnce ::
  "'w net \<Rightarrow> string \<Rightarrow> string \<Rightarrow> string \<Rightarrow> 'w \<Rightarrow> 'w \<times> string \<times> string option \<times> put_outcome" where
  "putOnce net key value leader w =
     (case InvokeKV (net_call net leader) (putRequest key value) w of
        (w, None) \<Rightarrow> (w, [], None, None)
      | (w, Some resp) \<Rightarrow>
          if cr_Success resp then (w, leader, Some leader, Some (Inr leader))
          else if isNotLeader (cr_Error resp) then (w, [], None, None)
          else (w, leader, Some leader, Some (Inl (PutRejected leader (cr_Error resp)))))"

definition putAttempt ::
  "'w net \<Rightarrow> string list \<Rightarrow> string \<Rightarrow> string \<Rightarrow> string \<Rightarrow> string option \<Rightarrow> 'w \<Rightarrow> 'w \<times> string \<times> string option \<times> put_outcome" where
  "putAttempt net addrs key value leader client w =
     (case (if leader = [] then discoverLeader net 3000 addrs w else (w, Some leader)) of
        (w, None) \<Rightarrow> (w, leader, client, None)
      | (w, Some leader) \<Rightarrow>
          if client = Some leader then putOnce net key value leader w
          else case net_dial net leader w of
                 (w, False) \<Rightarrow> (w, [], None, None)
               | (w, True) \<Rightarrow> putOnce net key value leader w)"

fun putLoop ::
  "'w net \<Rightarrow> string list \<Rightarrow> string \<Rightarrow> string \<Rightarrow> nat \<Rightarrow> string \<Rightarrow> string option \<Rightarrow> 'w
    \<Rightarrow> 'w \<times> string \<times> string option \<times> (put_error + string)" where
  "putLoop net addrs key value 0 leader client w = (w, leader, client, Inl PutFailedAfterRetries)"
| "putLoop net addrs key value (Suc attempts) leader client w =
     (case putAttempt net addrs key value leader client w of
        (w, leader, client, Some r) \<Rightarrow> (w, leader, client, r)
      | (w, leader, client, None) \<Rightarrow> putLoop net addrs key value attempts leader client w)"

definition putWithRetryPersistent ::
  "'w net \<Rightarrow> string list \<Rightarrow> string \<Rightarrow> string \<Rightarrow> string \<Rightarrow> string option \<Rightarrow> 'w
    \<Rightarrow> 'w \<times> string \<times> string option \<times> (put_error + string)" where
  "putWithRetryPersistent net addrs key value leader client w = putLoop net addrs key value 12 leader client w"

fun readLoop :: "'w net \<Rightarrow> string list \<Rightarrow> string \<Rightarrow> string \<Rightarrow> nat \<Rightarrow> string \<Rightarrow> 'w \<Rightarrow> 'w \<times> string \<times> bool" where
  "readLoop net addrs key expected 0 leader w = (w, leader, False)"
| "readLoop net addrs key expected (Suc rounds) leader w =
     (case (if leader = [] then discoverLeader net 2000 addrs w else (w, Some leader)) of
        (w, None) \<Rightarrow> readLoop net addrs key expected rounds leader w
      | (w, Some leader) \<Rightarrow>
          (case sendRequest net leader (getRequest key) w of
             (w, None) \<Rightarrow> readLoop net addrs key expected rounds [] w
           | (w, Some resp) \<Rightarrow>
               if cr_Success resp \<and> cr_Value resp = expected then (w, leader, True)
               else readLoop net addrs key expected rounds (if isNotLeader (cr_Error resp) then [] else leader) w))"

definition waitForCommittedRead :: "'w net \<Rightarrow> string list \<Rightarrow> string \<Rightarrow> string \<Rightarrow> string \<Rightarrow> int \<Rightarrow> 'w \<Rightarrow> 'w \<times> string \<times> bool" where
  "waitForCommittedRead net addrs leaderHint key expected timeout w =
     readLoop net addrs key expected (net_rounds net timeout w) leaderHint w"

section \<open>The processes of the benchmark\<close>

text \<open>
  \<open>Start\<close> of \<open>internal/bench/cluster\<close>: the flags it gives to the server it starts as node \<open>i\<close>, from the
  ports it reserved. The other flags keep the defaults of \<open>cmd/kv-server\<close>.
\<close>

fun Join :: "string \<Rightarrow> string list \<Rightarrow> string" where
  "Join sep [] = []"
| "Join sep [s] = s"
| "Join sep (s # t # ss) = s @ sep @ Join sep (t # ss)"

definition localAddresses :: "int list \<Rightarrow> string list" where
  "localAddresses ports = map (\<lambda>p. ''127.0.0.1:'' @ Itoa p) ports"

definition nodeFlags :: "int list \<Rightarrow> int list \<Rightarrow> nat \<Rightarrow> server_flags" where
  "nodeFlags raftPorts clientPorts i =
     \<lparr>flag_id = int i, flag_port = raftPorts ! i, flag_client_port = clientPorts ! i,
      flag_peers = Join '','' (localAddresses raftPorts), flag_client_peers = [],
      flag_log_level = ''info'', flag_log_format = ''text''\<rparr>"

end
