(* ===== verification/ServerProps.thy ===== *)
theory ServerProps
  imports ServerInv Durability
begin

text \<open>
  Properties of the server's own functions: the outcomes kept for late calls, the addresses clients are
  sent to, and the normal form of a configuration.
\<close>

section \<open>Unclaimed outcomes\<close>

abbreviation last_kept :: "'a list \<Rightarrow> 'a list" where
  "last_kept xs \<equiv> drop (length xs - maxCompletedNotifications) xs"

lemma last_kept_snoc:
  "last_kept (xs @ [x]) = (if maxCompletedNotifications \<le> length (last_kept xs) then tl (last_kept xs) else last_kept xs) @ [x]"
proof (cases "maxCompletedNotifications \<le> length xs")
  case True
  have "0 < maxCompletedNotifications" by (simp add: maxCompletedNotifications_def)
  then show ?thesis using True by (simp add: Suc_diff_le drop_Suc tl_drop)
qed simp

text \<open>
  What calls and the apply loop do to the outcomes a server keeps: a notification, the registration of a
  call, and a call that gives up.
\<close>

datatype book_op = Notify pendingKey "srv_error option" | Register pendingKey | GiveUp pendingKey

fun book :: "book_op \<Rightarrow> RaftKVServer \<Rightarrow> RaftKVServer option" where
  "book (Notify k err) v = notifyApplied k err v"
| "book (Register k) v = Some (fst (register k v))"
| "book (GiveUp k) v = Some (forget k v)"

fun books :: "book_op list \<Rightarrow> RaftKVServer \<Rightarrow> RaftKVServer option" where
  "books [] v = Some v"
| "books (x # xs) v = (case book x v of None \<Rightarrow> None | Some v \<Rightarrow> books xs v)"

lemma books_snoc: "books (xs @ [x]) v = (case books xs v of None \<Rightarrow> None | Some v \<Rightarrow> book x v)"
  by (induction xs arbitrary: v) (auto split: option.splits)

text \<open>
  The same without a bound: the calls that wait, all outcomes nobody waited for in the order they came, and
  the keys of those that a call has claimed since.
\<close>

record outcomes =
  waiting :: "pendingKey set"
  missed :: "(pendingKey \<times> srv_error option) list"
  claimed :: "pendingKey set"

definition no_outcomes :: outcomes where
  "no_outcomes = \<lparr>waiting = {}, missed = [], claimed = {}\<rparr>"

definition still_kept :: "outcomes \<Rightarrow> pendingKey \<Rightarrow> srv_error option option" where
  "still_kept s k = (if k \<in> claimed s then None else map_of (last_kept (missed s)) k)"

fun record_outcome :: "book_op \<Rightarrow> outcomes \<Rightarrow> outcomes" where
  "record_outcome (Notify k err) s =
     (if k \<in> waiting s then s\<lparr>waiting := waiting s - {k}\<rparr> else s\<lparr>missed := missed s @ [(k, err)]\<rparr>)"
| "record_outcome (Register k) s =
     (if still_kept s k \<noteq> None then s\<lparr>claimed := insert k (claimed s)\<rparr> else s\<lparr>waiting := insert k (waiting s)\<rparr>)"
| "record_outcome (GiveUp k) s = s\<lparr>waiting := waiting s - {k}\<rparr>"

fun notified :: "book_op \<Rightarrow> pendingKey list" where
  "notified (Notify k err) = [k]"
| "notified _ = []"

fun registered :: "book_op \<Rightarrow> pendingKey list" where
  "registered (Register k) = [k]"
| "registered _ = []"

definition keeps :: "RaftKVServer \<Rightarrow> outcomes \<Rightarrow> bool" where
  "keeps v s \<longleftrightarrow> srv_inv v \<and> \<not> closedCh v \<and> dom (map_of (pending v)) = waiting s
     \<and> completionQ v = map fst (last_kept (missed s)) \<and> map_of (completed v) = still_kept s
     \<and> distinct (map fst (missed s)) \<and> claimed s \<subseteq> fst ` set (missed s)"

lemma kept_waiting [simp]: "still_kept (s\<lparr>waiting := ws\<rparr>) = still_kept s"
  by (simp add: still_kept_def fun_eq_iff)

lemma dom_delete: "dom (map_of (AList.delete k xs)) = dom (map_of xs) - {k}"
  by (auto simp: delete_conv' split: if_splits)

lemma map_of_tl:
  assumes "distinct (map fst xs)" "xs \<noteq> []"
  shows "map_of (tl xs) = (map_of xs)(fst (hd xs) := None)"
  using assms by (cases xs) (auto simp: fun_eq_iff map_of_eq_None_iff)

lemma evict_spec:
  assumes q: "completionQ v = map fst l" "map_of (completed v) = (\<lambda>k. if k \<in> X then None else map_of l k)" and d: "distinct (map fst l)"
  defines "ks \<equiv> (if maxCompletedNotifications \<le> length l then tl l else l)"
  shows "completionQ (evictOldest v) = map fst ks" "map_of (completed (evictOldest v)) = (\<lambda>k. if k \<in> X then None else map_of ks k)"
proof -
  have ne: "l \<noteq> []" if "maxCompletedNotifications \<le> length l" using that by (auto simp: maxCompletedNotifications_def)
  show "completionQ (evictOldest v) = map fst ks" using q(1) by (simp add: evictOldest_def ks_def map_tl)
  show "map_of (completed (evictOldest v)) = (\<lambda>k. if k \<in> X then None else map_of ks k)"
  proof (cases "maxCompletedNotifications \<le> length l")
    case True
    then have "completed (evictOldest v) = AList.delete (fst (hd l)) (completed v)" using q(1) ne by (simp add: evictOldest_def hd_map)
    then show ?thesis using map_of_tl [OF d ne [OF True]] True q(2) by (auto simp: ks_def delete_conv' fun_eq_iff)
  next
    case False
    then have e: "evictOldest v = v" "ks = l" using q(1) by (simp_all add: evictOldest_def ks_def)
    show ?thesis unfolding e by (rule q(2))
  qed
qed

lemma keeps_notify:
  assumes K: "keeps v s" and k: "k \<notin> fst ` set (missed s)"
  shows "\<exists>v'. notifyApplied k err v = Some v' \<and> keeps v' (record_outcome (Notify k err) s)"
proof -
  have I: "srv_inv v" using K by (simp add: keeps_def)
  obtain v' where v': "notifyApplied k err v = Some v'" "srv_inv v'" using notify_inv [OF I] by blast
  show ?thesis
  proof (cases "map_of (pending v) k")
    case None
    have nk: "k \<notin> waiting s" using K None by (auto simp: keeps_def)
    define ks where "ks = (if maxCompletedNotifications \<le> length (last_kept (missed s)) then tl (last_kept (missed s)) else last_kept (missed s))"
    have ev: "completionQ (evictOldest v) = map fst ks" "map_of (completed (evictOldest v)) = (\<lambda>k. if k \<in> claimed s then None else map_of ks k)"
    proof -
      have "completionQ v = map fst (last_kept (missed s))" "map_of (completed v) = still_kept s" "distinct (map fst (last_kept (missed s)))"
        using K by (simp_all add: keeps_def drop_map [symmetric])
      then have "map_of (completed v) = (\<lambda>k. if k \<in> claimed s then None else map_of (last_kept (missed s)) k)" by (simp add: still_kept_def fun_eq_iff)
      from evict_spec [OF \<open>completionQ v = _\<close> this \<open>distinct _\<close>] show "completionQ (evictOldest v) = map fst ks"
        "map_of (completed (evictOldest v)) = (\<lambda>k. if k \<in> claimed s then None else map_of ks k)" unfolding ks_def .
    qed
    have l: "last_kept (missed s @ [(k, err)]) = ks @ [(k, err)]" by (simp only: last_kept_snoc ks_def)
    have "set (tl xs) \<subseteq> set xs" for xs :: "(pendingKey \<times> srv_error option) list" by (cases xs) auto
    then have "set ks \<subseteq> set (missed s)" unfolding ks_def by (auto dest: in_set_dropD)
    then have kn: "k \<notin> fst ` set ks" "k \<notin> claimed s" using k K by (auto simp: keeps_def)
    then have "(map_of (completed (evictOldest v)))(k \<mapsto> err) = (\<lambda>x. if x \<in> claimed s then None else map_of (ks @ [(k, err)]) x)"
      using map_of_eq_None_iff [of ks k] by (auto simp: ev(2) fun_eq_iff map_add_def split: option.splits)
    moreover have "v' = (evictOldest v)\<lparr>completed := AList.update k err (completed (evictOldest v)),
        completionQ := completionQ (evictOldest v) @ [k]\<rparr>" using v'(1) notify_unclaimed [OF None] by simp
    moreover have "closedCh (evictOldest v) = closedCh v" by (simp add: evictOldest_def)
    ultimately have "keeps v' (s\<lparr>missed := missed s @ [(k, err)]\<rparr>)"
      using v'(2) K k ev(1) evictOldest_inv(3) [OF I] l
      by (simp add: keeps_def still_kept_def update_conv' fun_eq_iff) blast
    then show ?thesis using v'(1) nk by simp
  next
    case (Some ch)
    then have "k \<in> waiting s" using K by (auto simp: keeps_def)
    moreover have "keeps v' (s\<lparr>waiting := waiting s - {k}\<rparr>)"
    proof -
      have "v' = v\<lparr>waitChs := (waitChs v)(ch := Some err), pending := AList.delete k (pending v)\<rparr>"
        using v'(1) notify_registered [OF I Some] by simp
      then show ?thesis using v'(2) K by (simp add: keeps_def dom_delete)
    qed
    ultimately show ?thesis using v'(1) by simp
  qed
qed

lemma keeps_register:
  assumes K: "keeps v s" and k: "k \<notin> waiting s"
  shows "keeps (fst (register k v)) (record_outcome (Register k) s)"
proof -
  have "k \<notin> fst ` set (pending v)" using K k by (auto simp: keeps_def dom_map_of_conv_image_fst)
  then have "srv_inv (fst (register k v))" using K register_inv by (simp add: keeps_def)
  moreover have "k \<in> fst ` set (missed s)" if "still_kept s k = Some e" for e
    using that by (force simp: still_kept_def split: if_splits dest: map_of_SomeD in_set_dropD)
  ultimately show ?thesis
    using K by (auto simp: keeps_def register_def Let_def still_kept_def delete_conv' update_conv' fun_eq_iff split: option.splits)
qed

lemma outcome_sets:
  "fst ` set (missed (record_outcome x s)) \<subseteq> fst ` set (missed s) \<union> set (notified x)" "waiting (record_outcome x s) \<subseteq> waiting s \<union> set (registered x)"
  by (cases x; auto)+

lemma books_keep:
  assumes "keeps v no_outcomes" "distinct (concat (map notified ops))" "distinct (concat (map registered ops))"
  shows "\<exists>v'. books ops v = Some v' \<and> keeps v' (fold record_outcome ops no_outcomes)
    \<and> fst ` set (missed (fold record_outcome ops no_outcomes)) \<subseteq> set (concat (map notified ops))
    \<and> waiting (fold record_outcome ops no_outcomes) \<subseteq> set (concat (map registered ops))"
  using assms(2,3)
proof (induction ops rule: rev_induct)
  case Nil
  then show ?case using assms(1) by (simp add: no_outcomes_def)
next
  case (snoc x ops)
  let ?s = "fold record_outcome ops no_outcomes"
  obtain v1 where v1: "books ops v = Some v1" "keeps v1 ?s" "fst ` set (missed ?s) \<subseteq> set (concat (map notified ops))"
    "waiting ?s \<subseteq> set (concat (map registered ops))" using snoc by auto
  have "\<exists>v'. book x v1 = Some v' \<and> keeps v' (record_outcome x ?s)"
  proof (cases x)
    case (Notify k err)
    then have "k \<notin> fst ` set (missed ?s)" using v1(3) snoc.prems(1) by auto
    then show ?thesis using keeps_notify [OF v1(2)] Notify by simp
  next
    case (Register k)
    then have "k \<notin> waiting ?s" using v1(4) snoc.prems(2) by auto
    then show ?thesis using keeps_register [OF v1(2)] Register by simp
  next
    case (GiveUp k)
    then show ?thesis using v1(2) forget_inv [of v1 k] by (simp add: keeps_def forget_def dom_delete)
  qed
  then obtain v' where "books (ops @ [x]) v = Some v'" "keeps v' (fold record_outcome (ops @ [x]) no_outcomes)" using v1(1) by (auto simp: books_snoc)
  moreover have "fst ` set (missed (record_outcome x ?s)) \<subseteq> set (concat (map notified ops)) \<union> set (notified x)"
    "waiting (record_outcome x ?s) \<subseteq> set (concat (map registered ops)) \<union> set (registered x)"
    using outcome_sets [of x ?s] v1(3,4) by blast+
  ultimately show ?case by auto
qed

text \<open>
  C34: the bookkeeping of outcomes, bounded at 1024 entries, refines the unbounded one. Take any sequence of
  notifications, registrations and calls that give up, with distinct keys, on a server that has nothing to
  remember. No send blocks; the queue holds the keys of the last 1024 entries nobody waited for, in the order
  they were applied; the outcomes that can still be found are those of these entries that no call has
  claimed, claimed ones counting towards the 1024; and the calls that wait are those of the unbounded record.
  A call that registers later than that does not find its outcome and waits until its deadline, although its
  command was applied.
\<close>

theorem outcomes_kept:
  assumes "srv_inv v" "\<not> closedCh v" "pending v = []" "completionQ v = []"
    and "distinct (concat (map notified ops))" "distinct (concat (map registered ops))"
  defines "s \<equiv> fold record_outcome ops no_outcomes"
  shows "\<exists>v'. books ops v = Some v' \<and> completionQ v' = map fst (last_kept (missed s))
    \<and> map_of (completed v') = still_kept s \<and> dom (map_of (pending v')) = waiting s"
proof -
  have "completed v = []" using srv_invD(6) [OF assms(1)] assms(4) by simp
  then have "keeps v no_outcomes" using assms(1-4) by (simp add: keeps_def no_outcomes_def still_kept_def fun_eq_iff)
  from books_keep [OF this assms(5,6)] show ?thesis unfolding s_def keeps_def by blast
qed

definition idle_server :: RaftKVServer where
  "idle_server = \<lparr>srv_id = 0, address = [], clientAddress = [],
     store = (newDB \<lparr>ReadWrite = True, SyncOnPut = False, MaxDataFileSizeBytes = 1\<rparr>, []), pending = [], completed = [],
     completionQ = [], commitTimeout = 1, clientPeers = [], closedCh = False, waitChs = (\<lambda>_. None), nextCh = 0\<rparr>"

text \<open>1024 outcomes nobody waited for, one of which is claimed; the next one still evicts the oldest.\<close>

definition key_of :: "nat \<Rightarrow> pendingKey" where
  "key_of n = \<lparr>pk_index = int n, pk_term = 1\<rparr>"

lemma key_of_eq [simp]: "key_of m = key_of n \<longleftrightarrow> m = n"
  by (simp add: key_of_def)

lemma concat_nothing: "concat (map (\<lambda>x. []) xs) = []"
  by (induction xs) auto

lemma fold_notify:
  "waiting s = {} \<Longrightarrow> fold record_outcome (map (\<lambda>n. Notify (key_of n) None) ns) s = s\<lparr>missed := missed s @ map (\<lambda>n. (key_of n, None)) ns\<rparr>"
  by (induction ns arbitrary: s) auto

theorem outcomes_kept_witness:
  "\<exists>v'. books (map (\<lambda>n. Notify (key_of n) None) [0..<1024] @ [Register (key_of 5), Notify (key_of 1024) None]) idle_server = Some v'
    \<and> length (completionQ v') = 1024 \<and> map_of (completed v') (key_of 0) = None \<and> map_of (completed v') (key_of 5) = None
    \<and> map_of (completed v') (key_of 1024) = Some None"
proof -
  let ?ns = "map (\<lambda>n. Notify (key_of n) None) [0..<1024]" and ?ops = "map (\<lambda>n. Notify (key_of n) None) [0..<1024] @ [Register (key_of 5), Notify (key_of 1024) None]"
  have m: "map_of (map (\<lambda>n. (key_of n, None :: srv_error option)) ns) (key_of n) = (if n \<in> set ns then Some None else None)" for ns n
    by (induction ns) auto
  have "fold record_outcome ?ns no_outcomes = \<lparr>waiting = {}, missed = map (\<lambda>n. (key_of n, None)) [0..<1024], claimed = {}\<rparr>"
    by (simp add: fold_notify no_outcomes_def)
  then have s: "fold record_outcome ?ops no_outcomes = \<lparr>waiting = {}, missed = map (\<lambda>n. (key_of n, None)) [0..<1025], claimed = {key_of 5}\<rparr>"
    using upt_Suc_append [of 0 1024] by (simp add: still_kept_def m maxCompletedNotifications_def)
  have d: "distinct (concat (map notified ?ops))" "distinct (concat (map registered ?ops))"
    by (auto simp: comp_def distinct_map inj_on_def concat_nothing)
  have i: "srv_inv idle_server" "\<not> closedCh idle_server" "pending idle_server = []" "completionQ idle_server = []"
    by (simp_all add: idle_server_def srv_inv_def)
  have l: "drop (1025 - maxCompletedNotifications) (map (\<lambda>n. (key_of n, None :: srv_error option)) [0..<1025]) = map (\<lambda>n. (key_of n, None)) [1..<1025]"
    by (simp add: maxCompletedNotifications_def drop_map)
  show ?thesis using outcomes_kept [OF i d, unfolded s] by (auto simp: still_kept_def l m)
qed

section \<open>Ports and addresses\<close>

lemma Atoi_Itoa:
  assumes "0 \<le> i" "is_int64 i"
  shows "Atoi (Itoa i) = Some i"
proof -
  obtain m where d: "digits_value 0 (decimal (nat i)) = Some (0 * 10 ^ m + nat i)" using digits_value_decimal by blast
  have "digit_val (hd (decimal (nat i))) \<noteq> None"
    using d by (cases "decimal (nat i)") (auto split: option.splits)
  then have "hd (decimal (nat i)) \<noteq> CHR ''-''" "hd (decimal (nat i)) \<noteq> CHR ''+''" by (auto simp: digit_val_def)
  then show ?thesis using d assms by (simp add: Atoi_def Itoa_def Let_def)
qed

lemma int64_id: "is_int64 i \<Longrightarrow> int64 i = i"
  by (simp add: int64_def sint_word_of_int64)

lemma int64_is_int64: "is_int64 (int64 i)"
  using sint_range_size [of "word_of_int i :: u64"] by (simp add: int64_def is_int64_def word_size)

lemma int64_add_sub: "is_int64 c \<Longrightarrow> int64 (r + int64 (c - r)) = c"
  using sint_word_of_int64 [of c] by (simp add: int64_def flip: wi_hom_add wi_hom_sub)

lemma decimal_digits: "c \<in> set (decimal n) \<Longrightarrow> c \<in> digit_char ` {0..<10}"
proof (induction n rule: decimal.induct)
  case (1 n)
  then show ?case by (cases "n < 10") (auto simp: decimal.simps [of n])
qed

lemma Itoa_plain: "0 \<le> i \<Longrightarrow> c \<in> {CHR '':'', CHR ''['', CHR '']''} \<Longrightarrow> c \<notin> set (Itoa i)"
proof
  assume "0 \<le> i" "c \<in> {CHR '':'', CHR ''['', CHR '']''}" "c \<in> set (Itoa i)"
  then obtain d where "d < 10" "c = digit_char d" using decimal_digits by (fastforce simp: Itoa_def)
  then have "digit_val c = Some d" by (simp add: digit_val_digit_char)
  then show False using \<open>c \<in> {CHR '':'', CHR ''['', CHR '']''}\<close> by (auto simp: digit_val_def)
qed

lemma splitLast_append: "c \<notin> set ys \<Longrightarrow> splitLast c (xs @ c # ys) = Some (xs, ys)"
  by (simp add: splitLast_def dropWhile_append takeWhile_append)

lemma SplitHostPort_JoinHostPort:
  assumes h: "CHR ''['' \<notin> set host" "CHR '']'' \<notin> set host" and p: "set port \<inter> {CHR '':'', CHR ''['', CHR '']''} = {}"
  shows "SplitHostPort (JoinHostPort host port) = Some (host, port)"
proof (cases "CHR '':'' \<in> set host")
  case True
  have t: "takeWhile (\<lambda>x. x \<noteq> CHR '']'') (host @ CHR '']'' # CHR '':'' # port) = host"
    "dropWhile (\<lambda>x. x \<noteq> CHR '']'') (host @ CHR '']'' # CHR '':'' # port) = CHR '']'' # CHR '':'' # port"
    using h(2) by (auto simp: takeWhile_append2 dropWhile_append2 takeWhile_append dropWhile_append)
  have "splitLast CHR '':'' (CHR ''['' # host @ CHR '']'' # CHR '':'' # port) = Some (CHR ''['' # host @ [CHR '']''], port)"
    using splitLast_append [of "CHR '':''" port "CHR ''['' # host @ [CHR '']'']"] p by auto
  then show ?thesis using True t h p by (auto simp: SplitHostPort_def JoinHostPort_def)
next
  case False
  have "splitLast CHR '':'' (host @ CHR '':'' # port) = Some (host, port)" using splitLast_append p by auto
  moreover have "hd (host @ CHR '':'' # port) \<noteq> CHR ''[''" using h by (cases host) auto
  ultimately show ?thesis using False h p by (auto simp: SplitHostPort_def JoinHostPort_def)
qed

lemma SplitHostPort_host:
  assumes "SplitHostPort a = Some (host, port)"
  shows "CHR ''['' \<notin> set host" "CHR '']'' \<notin> set host"
proof -
  obtain before where b: "splitLast CHR '':'' a = Some (before, port)"
    using assms by (auto simp: SplitHostPort_def Let_def split: option.splits if_splits)
  have sub: "set before \<subseteq> set a" using b by (auto simp: splitLast_def split: if_splits dest!: in_set_dropD set_dropWhileD)
  show "CHR ''['' \<notin> set host" using assms b sub
    by (auto simp: SplitHostPort_def Let_def split: if_splits dest: set_takeWhileD)
  show "CHR '']'' \<notin> set host" using assms b sub
    by (auto simp: SplitHostPort_def Let_def split: if_splits dest: set_takeWhileD)
qed

lemma parsePort_Inr:
  assumes "parsePort shown a = Inr (host, port)"
  obtains pt where "SplitHostPort a = Some (host, pt)" "Atoi pt = Some port" "is_int64 port"
  using assms by (auto simp: parsePort_def Atoi_def Let_def split: option.splits if_splits)

lemma parsePort_joined:
  assumes "parsePort shown a = Inr (host, port)" "0 < q" "is_int64 q"
  shows "parsePort shown' (JoinHostPort host (Itoa q)) = Inr (host, q)"
proof -
  obtain pt where t: "SplitHostPort a = Some (host, pt)" using assms(1) by (rule parsePort_Inr)
  have "set (Itoa q) \<inter> {CHR '':'', CHR ''['', CHR '']''} = {}" using Itoa_plain [of q] assms(2) by auto
  then have "SplitHostPort (JoinHostPort host (Itoa q)) = Some (host, Itoa q)"
    by (rule SplitHostPort_JoinHostPort [OF SplitHostPort_host [OF t]])
  then show ?thesis using Atoi_Itoa [of q] assms(2,3) by (simp add: parsePort_def)
qed

lemma derivePeers_nth:
  assumes "derivePeers offset addrs = Inr cs"
  shows "length cs = length addrs \<and> (\<forall>i < length addrs. \<exists>host port. parsePort (addrs ! i) (TrimSpace (addrs ! i)) = Inr (host, port)
    \<and> 0 < int64 (port + offset) \<and> cs ! i = JoinHostPort host (Itoa (int64 (port + offset))))"
  using assms
proof (induction addrs arbitrary: cs)
  case (Cons addr addrs)
  obtain host port rest where p: "parsePort addr (TrimSpace addr) = Inr (host, port)" "0 < int64 (port + offset)"
    and r: "derivePeers offset addrs = Inr rest" "cs = JoinHostPort host (Itoa (int64 (port + offset))) # rest"
    using Cons.prems by (auto simp: Let_def not_le split: sum.splits if_splits)
  show ?case using Cons.IH [OF r(1)] p r(2) by (auto simp: nth_Cons less_Suc_eq_0_disj)
qed simp

text \<open>
  C39: the client addresses a server derives for its peers. There is one for each peer; read back, it has the
  peer's host and the peer's Raft port moved by the distance between the server's own two ports; in
  particular the one derived from the server's own Raft address has its own client port.
\<close>

theorem derived_addresses:
  assumes "deriveClientPeerAddresses addrs raftAddr clientAddr = Inr cs" "i < length addrs"
  shows "length cs = length addrs \<and> (\<exists>rhost rport chost cport host port.
      parsePort raftAddr raftAddr = Inr (rhost, rport) \<and> parsePort clientAddr clientAddr = Inr (chost, cport)
      \<and> parsePort (addrs ! i) (TrimSpace (addrs ! i)) = Inr (host, port)
      \<and> parsePort (cs ! i) (cs ! i) = Inr (host, int64 (port + int64 (cport - rport)))
      \<and> (TrimSpace (addrs ! i) = raftAddr \<longrightarrow> parsePort (cs ! i) (cs ! i) = Inr (rhost, cport)))"
proof -
  obtain rhost rport chost cport where r: "parsePort raftAddr raftAddr = Inr (rhost, rport)"
    and c: "parsePort clientAddr clientAddr = Inr (chost, cport)" and d: "derivePeers (int64 (cport - rport)) addrs = Inr cs"
    using assms(1) by (auto simp: deriveClientPeerAddresses_def split: sum.splits)
  obtain host port where p: "parsePort (addrs ! i) (TrimSpace (addrs ! i)) = Inr (host, port)"
    "0 < int64 (port + int64 (cport - rport))" "cs ! i = JoinHostPort host (Itoa (int64 (port + int64 (cport - rport))))"
    using derivePeers_nth [OF d] assms(2) by blast
  have rb: "parsePort (cs ! i) (cs ! i) = Inr (host, int64 (port + int64 (cport - rport)))"
    unfolding p(3) by (rule parsePort_joined [OF p(1,2) int64_is_int64])
  have "host = rhost \<and> port = rport" if "TrimSpace (addrs ! i) = raftAddr"
    using p(1) r that by (auto simp: parsePort_def split: option.splits)
  moreover have "is_int64 cport" using c by (rule parsePort_Inr)
  ultimately have "parsePort (cs ! i) (cs ! i) = Inr (rhost, cport)" if "TrimSpace (addrs ! i) = raftAddr"
    using rb that int64_add_sub by auto
  then show ?thesis using derivePeers_nth [OF d] r c p(1) rb by blast
qed

theorem derived_addresses_witness:
  "\<exists>cs rhost. deriveClientPeerAddresses [''h1:71'', '' [::2]:72''] ''h1:71'' '':81'' = Inr cs \<and> length cs = 2
    \<and> parsePort (cs ! 0) (cs ! 0) = Inr (rhost, 81)"
proof -
  have d: "deriveClientPeerAddresses [''h1:71'', '' [::2]:72''] ''h1:71'' '':81'' = Inr [''h1:81'', ''[::2]:82'']"
    "TrimSpace ''h1:71'' = ''h1:71''" "parsePort '':81'' '':81'' = Inr ([], 81)" by code_simp+
  show ?thesis using derived_addresses [OF d(1), of 0] d by fastforce
qed

section \<open>Redirection\<close>

lemma addressesByID_lookup:
  "map_of (addressesByID as) (int i) = (if i < length as \<and> TrimSpace (as ! i) \<noteq> [] then Some (TrimSpace (as ! i)) else None)"
proof -
  have "map_of (filter (\<lambda>(i, a). a \<noteq> []) (map (\<lambda>(i, a). (int i, TrimSpace a)) (enumerate n as))) (int (n + i))
    = (if i < length as \<and> TrimSpace (as ! i) \<noteq> [] then Some (TrimSpace (as ! i)) else None)" for n
  proof (induction as arbitrary: n i)
    case (Cons a as)
    have none: "map_of (filter (\<lambda>(i, a). a \<noteq> []) (map (\<lambda>(i, a). (int i, TrimSpace a)) (enumerate (Suc n) as))) (int n) = None"
      by (auto simp: map_of_eq_None_iff in_set_enumerate_eq)
    show ?case using Cons.IH [of "Suc n" "i - 1"] none by (cases i) auto
  qed simp
  from this [of 0] show ?thesis by (simp add: addressesByID_def)
qed

lemma TrimSpace_snoc: "\<not> is_space c \<Longrightarrow> TrimSpace (xs @ [c]) \<noteq> []"
proof -
  assume c: "\<not> is_space c"
  have "\<exists>ys. dropWhile is_space (xs @ [c]) = ys @ [c]" using c by (induction xs) auto
  then obtain ys where "dropWhile is_space (xs @ [c]) = ys @ [c]" ..
  then show ?thesis using c by (simp add: TrimSpace_def)
qed

lemma JoinHostPort_shown:
  assumes "0 \<le> q"
  shows "TrimSpace (JoinHostPort host (Itoa q)) \<noteq> []"
proof -
  let ?d = "decimal (nat q)"
  have "last ?d \<in> digit_char ` {0..<10}" by (rule decimal_digits [of _ "nat q"]) simp
  then obtain k where k: "last ?d = digit_char k" "k < 10" by auto
  then have "digit_val (last ?d) = Some k" by (simp add: digit_val_digit_char)
  then have c: "\<not> is_space (last ?d)" by (auto simp: is_space_def digit_val_def)
  have "\<exists>xs. JoinHostPort host (Itoa q) = xs @ ?d"
    using assms by (auto simp: JoinHostPort_def Itoa_def intro: exI [of _ "CHR ''['' # host @ '']:''"] exI [of _ "host @ '':''"])
  then obtain xs where "JoinHostPort host (Itoa q) = xs @ ?d" ..
  then have "JoinHostPort host (Itoa q) = (xs @ butlast ?d) @ [last ?d]" by simp
  then show ?thesis using TrimSpace_snoc [OF c] by metis
qed

text \<open>
  C40: where a server sends the clients of another leader. A server that derived its peers' client addresses
  answers \<open>ErrNotLeader\<close> with the address derived for the leader it knows, and with its own client address
  when it is that leader itself; it names nobody while it knows no leader.
\<close>

theorem redirects_to_leader:
  assumes "NewRaftKVServer os held cfg d = (d', Inr (v, n0))"
    and "ClientAddress cfg \<noteq> []" "ClientPeers cfg = []" "Peers cfg \<noteq> []" "LeaderID n < int (length (Peers cfg))"
  shows "\<exists>cs. deriveClientPeerAddresses (Peers cfg) (RaftAddress cfg) (ClientAddress cfg) = Inr cs
    \<and> resp_Leader (errorResponse errText (Some n) v ErrNotLeader) =
        (if LeaderID n < 0 then [] else if LeaderID n = cfg_ID cfg then ClientAddress cfg else TrimSpace (cs ! nat (LeaderID n)))"
proof -
  obtain cfg' where c: "normalizeConfig cfg = Inr cfg'" using assms(1) by (auto simp: NewRaftKVServer_def split: sum.splits)
  obtain mid where m: "fillClientPeers (fillClientAddress cfg) = Inr mid" "cfg' = fillDefaults mid"
    using c by (rule normalizeConfig_Inr)
  obtain cs where cs: "deriveClientPeerAddresses (Peers cfg) (RaftAddress cfg) (ClientAddress cfg) = Inr cs" "mid = cfg\<lparr>ClientPeers := cs\<rparr>"
    using m(1) assms(2-4) by (auto simp: fillClientPeers_def fillClientAddress_def split: sum.splits)
  have v: "clientPeers v = AList.update (cfg_ID cfg) (ClientAddress cfg) (addressesByID cs)"
    using assms(1,2) c by (auto simp: NewRaftKVServer_def m(2) cs(2) Let_def split: prod.splits sum.splits)
  have "map_of (addressesByID cs) (LeaderID n) = Some (TrimSpace (cs ! nat (LeaderID n)))" if "0 \<le> LeaderID n"
  proof -
    obtain off where "derivePeers off (Peers cfg) = Inr cs" using cs(1) by (auto simp: deriveClientPeerAddresses_def split: sum.splits)
    note nth = derivePeers_nth [OF this]
    have l: "nat (LeaderID n) < length (Peers cfg)" using assms(5) that by simp
    then obtain host q where "0 < q" "cs ! nat (LeaderID n) = JoinHostPort host (Itoa q)" using nth by blast
    then show ?thesis using addressesByID_lookup [of cs "nat (LeaderID n)"] nth l that JoinHostPort_shown [of q host] by simp
  qed
  then show ?thesis using cs(1) v by (auto simp: errorResponse_def leaderAddress_def Let_def update_conv')
qed

definition two_nodes :: Config where
  "two_nodes = \<lparr>cfg_ID = 0, RaftAddress = ''h1:71'', ClientAddress = ''h1:81'', Peers = [''h1:71'', ''h2:72''], ClientPeers = [],
     StoreDir = ''d'', StoreOptions = \<lparr>ReadWrite = False, SyncOnPut = True, MaxDataFileSizeBytes = 0\<rparr>, ApplyBuffer = 0, CommitTimeout = 0\<rparr>"

lemma two_nodes_normal:
  "normalizeConfig two_nodes = Inr (two_nodes\<lparr>ClientPeers := [''h1:81'', ''h2:82''], StoreOptions := \<lparr>ReadWrite = True, SyncOnPut = True,
     MaxDataFileSizeBytes = 67108864\<rparr>, ApplyBuffer := 256, CommitTimeout := 5000000000\<rparr>)"
  "deriveClientPeerAddresses (Peers two_nodes) (RaftAddress two_nodes) (ClientAddress two_nodes) = Inr [''h1:81'', ''h2:82'']"
  "TrimSpace ''h2:82'' = ''h2:82''"
  by code_simp+

theorem redirects_to_leader_witness:
  "\<exists>d v n0. NewRaftKVServer no_faults False two_nodes [] = (d, Inr (v, n0))
    \<and> resp_Leader (errorResponse (\<lambda>_. []) (Some ((NewNode 0 (Peers two_nodes))\<lparr>leaderID := 1\<rparr>)) v ErrNotLeader) = ''h2:82''"
proof -
  let ?n = "(NewNode 0 (Peers two_nodes))\<lparr>leaderID := 1\<rparr>"
  obtain d v n0 where N: "NewRaftKVServer no_faults False two_nodes [] = (d, Inr (v, n0))"
    using open_empty by (auto simp: NewRaftKVServer_def two_nodes_normal(1) Let_def)
  have c: "ClientAddress two_nodes \<noteq> []" "ClientPeers two_nodes = []" "Peers two_nodes \<noteq> []" "LeaderID ?n < int (length (Peers two_nodes))"
    "LeaderID ?n = 1" "cfg_ID two_nodes = 0" by (simp_all add: two_nodes_def LeaderID_def)
  show ?thesis using redirects_to_leader [OF N c(1-4)] N two_nodes_normal(2,3) by (auto simp: c(5,6))
qed

section \<open>Normal configurations\<close>

lemma fillDefaults_idem: "fillDefaults (fillDefaults cfg) = fillDefaults cfg"
proof (rule Config.equality)
  show "StoreOptions (fillDefaults (fillDefaults cfg)) = StoreOptions (fillDefaults cfg)"
    by (rule OpenOptions.equality) simp_all
  show "StoreDir (fillDefaults (fillDefaults cfg)) = StoreDir (fillDefaults cfg)" by simp
qed simp_all

lemma derive_length: "deriveClientPeerAddresses addrs r c = Inr cs \<Longrightarrow> length cs = length addrs"
  using derivePeers_nth by (auto simp: deriveClientPeerAddresses_def split: sum.splits)

lemma fillClientPeers_cases:
  assumes "fillClientPeers cfg = Inr mid"
  obtains (derived) cs where "ClientPeers cfg = []" "Peers cfg \<noteq> []" "ClientAddress cfg \<noteq> []" "length cs = length (Peers cfg)"
      "mid = cfg\<lparr>ClientPeers := cs\<rparr>"
  | (kept) "mid = cfg" "ClientPeers cfg \<noteq> [] \<or> Peers cfg = [] \<or> ClientAddress cfg = []"
proof (cases "length (ClientPeers cfg) = 0 \<and> length (Peers cfg) > 0 \<and> ClientAddress cfg \<noteq> []")
  case True
  then obtain cs where cs: "deriveClientPeerAddresses (Peers cfg) (RaftAddress cfg) (ClientAddress cfg) = Inr cs" "mid = cfg\<lparr>ClientPeers := cs\<rparr>"
    using assms by (auto simp: fillClientPeers_def split: sum.splits)
  from True have "ClientPeers cfg = []" "Peers cfg \<noteq> []" "ClientAddress cfg \<noteq> []" by simp_all
  then show ?thesis using derive_length [OF cs(1)] cs(2) by (rule derived)
next
  case False
  then have "mid = cfg" using assms unfolding fillClientPeers_def by (simp only: if_False sum.inject)
  moreover have "ClientPeers cfg \<noteq> [] \<or> Peers cfg = [] \<or> ClientAddress cfg = []" using False by simp
  ultimately show ?thesis by (rule kept)
qed

text \<open>
  A configuration that \<open>normalizeConfig\<close> accepts is in normal form afterwards: its store is writable with a
  positive file size, its directory, buffer and timeout are set, its client peers are none or as many as
  the peers, and normalizing it again changes nothing.
\<close>

theorem normalizeConfig_normal:
  assumes "normalizeConfig cfg = Inr cfg'"
  shows "normalizeConfig cfg' = Inr cfg' \<and> ReadWrite (StoreOptions cfg') \<and> 0 < MaxDataFileSizeBytes (StoreOptions cfg')
    \<and> StoreDir cfg' \<noteq> [] \<and> 0 < ApplyBuffer cfg' \<and> 0 < CommitTimeout cfg' \<and> cfg_ID cfg' = cfg_ID cfg
    \<and> Peers cfg' = Peers cfg \<and> (ClientPeers cfg' = [] \<or> length (ClientPeers cfg') = length (Peers cfg'))"
proof -
  obtain mid where m: "fillClientPeers (fillClientAddress cfg) = Inr mid" "cfg' = fillDefaults mid" "0 \<le> cfg_ID cfg" "RaftAddress cfg \<noteq> []"
    "ClientPeers cfg = [] \<or> length (ClientPeers cfg) = length (Peers cfg)" using assms by (rule normalizeConfig_Inr)
  have same: "cfg_ID mid = cfg_ID cfg" "RaftAddress mid = RaftAddress cfg" "Peers mid = Peers cfg"
    by (subst fillClientPeers_Inr [OF m(1)]; simp add: fillClientAddress_def)+
  let ?cfg = "fillClientAddress cfg"
  have fields: "Peers ?cfg = Peers cfg" "ClientPeers ?cfg = ClientPeers cfg" "cfg_ID ?cfg = cfg_ID cfg" by (simp_all add: fillClientAddress_def)
  have len: "ClientPeers mid = [] \<or> length (ClientPeers mid) = length (Peers mid)"
    and none: "ClientPeers mid = [] \<Longrightarrow> Peers mid = [] \<or> ClientAddress mid = []"
    using m(1,5) by (cases rule: fillClientPeers_cases; auto simp: fields)+
  have addr: "TrimSpace (ClientPeers mid ! nat (cfg_ID mid)) = []" if "ClientAddress mid = []" "cfg_ID mid < int (length (ClientPeers mid))"
    using m(1)
  proof (cases rule: fillClientPeers_cases)
    case kept
    then show ?thesis using that by (auto simp: fillClientAddress_def split: if_splits)
  qed (use that in simp)
  have "fillClientAddress cfg' = cfg'"
    using addr m(3) by (auto simp: fillClientAddress_def m(2) same)
  moreover have "fillClientPeers cfg' = Inr cfg'" using none by (auto simp: fillClientPeers_def m(2))
  ultimately have "normalizeConfig cfg' = Inr cfg'"
    using m(3,4) len same by (auto simp: normalizeConfig_def m(2) fillDefaults_idem)
  then show ?thesis using same len by (simp add: m(2))
qed

theorem normalizeConfig_normal_witness:
  "\<exists>cfg'. normalizeConfig two_nodes = Inr cfg' \<and> normalizeConfig cfg' = Inr cfg' \<and> length (ClientPeers cfg') = 2"
  using normalizeConfig_normal [OF two_nodes_normal(1)] two_nodes_normal(1) by fastforce

end
