(* ===== verification/ClientProps.thy ===== *)
theory ClientProps
  imports Client ServerProps
begin

text \<open>
  Properties of the client side: the retrying writer of the benchmark, the addresses given to servers on the
  command line, and what the interactive client shows.
\<close>

section \<open>Retries\<close>

lemma InvokeKV_put:
  "InvokeKV c (putRequest k v) w = (case c (CallPut k v) w of (w, r) \<Rightarrow> (w, map_option clientResponse r))"
  by (simp add: InvokeKV_def putRequest_def OpGet_def OpPut_def)

text \<open>The network with a counter of the Puts of one key.\<close>

definition counted :: "string \<Rightarrow> 'w net \<Rightarrow> ('w \<times> nat) net" where
  "counted key net =
     \<lparr>net_dial = (\<lambda>a (w, n). case net_dial net a w of (w, b) \<Rightarrow> ((w, n), b)),
      net_call = (\<lambda>a q (w, n). case net_call net a q w of
                    (w, r) \<Rightarrow> ((w, case q of CallPut k v \<Rightarrow> if k = key then Suc n else n | _ \<Rightarrow> n), r)),
      net_rounds = (\<lambda>t (w, n). net_rounds net t w), net_nanos = (\<lambda>(w, n). net_nanos net w)\<rparr>"

lemma counted_simps [simp]:
  "net_dial (counted key net) a s = (case net_dial net a (fst s) of (w, b) \<Rightarrow> ((w, snd s), b))"
  "net_call (counted key net) a (CallPut k v) s =
     (case net_call net a (CallPut k v) (fst s) of (w, r) \<Rightarrow> ((w, if k = key then Suc (snd s) else snd s), r))"
  by (simp_all add: counted_def split: prod.splits)

abbreviation probe :: string where
  "probe \<equiv> ''__bench_leader_probe__''"

lemma probeLeader_count:
  "key \<noteq> probe \<Longrightarrow> snd (fst (probeLeader (counted key net) pv addrs s)) = snd s"
proof (induction addrs arbitrary: s)
  case (Cons a addrs)
  then show ?case by (auto simp: sendRequest_def InvokeKV_put split: prod.splits option.splits bool.splits)
qed simp

lemma discoverLeader_count:
  assumes "key \<noteq> probe"
  shows "snd (fst (discoverLeader (counted key net) t addrs s)) = snd s"
proof -
  have "snd (fst (discoverLoop (counted key net) pv addrs n s)) = snd s" for pv n
  proof (induction n arbitrary: s)
    case (Suc n)
    then show ?case using probeLeader_count [OF assms, of net pv addrs s] by (auto split: prod.splits option.splits)
  qed simp
  then show ?thesis by (simp add: discoverLeader_def)
qed

lemma putOnce_count: "snd (fst (putOnce (counted key net) key value leader s)) = Suc (snd s)"
  by (auto simp: putOnce_def InvokeKV_put split: prod.splits option.splits)

lemma putAttempt_count:
  assumes "key \<noteq> probe"
  shows "snd (fst (putAttempt (counted key net) addrs key value leader client s)) \<le> Suc (snd s)"
  using discoverLeader_count [OF assms, of net "3000" addrs s] putOnce_count [of key net "value"]
  by (auto simp: putAttempt_def split: prod.splits option.splits bool.splits)

lemma putLoop_count:
  assumes "key \<noteq> probe"
  shows "snd (fst (putLoop (counted key net) addrs key value k leader client s)) \<le> snd s + k"
proof (induction k arbitrary: leader client s)
  case (Suc k)
  obtain s' l c r where p: "putAttempt (counted key net) addrs key value leader client s = (s', l, c, r)"
    by (metis prod_cases4)
  then show ?case using putAttempt_count [OF assms, of net addrs "value" leader client s] Suc.IH [of l c s']
    by (auto split: option.splits)
qed simp

text \<open>How an attempt ends the loop.\<close>

definition put_ends :: "'w net \<Rightarrow> string \<Rightarrow> string \<Rightarrow> 'w \<Rightarrow> string \<Rightarrow> put_error + string \<Rightarrow> bool" where
  "put_ends net key value w leader r \<longleftrightarrow>
     (\<exists>w1 resp. net_call net leader (CallPut key value) w1 = (w, Some resp) \<and>
        (case r of
           Inr addr \<Rightarrow> addr = leader \<and> Success resp
         | Inl e \<Rightarrow> e = PutRejected leader (resp_Error resp) \<and> \<not> Success resp \<and> \<not> isNotLeader (resp_Error resp)))"

lemma putOnce_ends:
  "putOnce net key value l w = (w', leader, client, Some r) \<Longrightarrow> put_ends net key value w' leader r"
  by (auto simp: putOnce_def InvokeKV_put put_ends_def clientResponse_def split: prod.splits option.splits if_splits) blast+
 
lemma putAttempt_ends:
  "putAttempt net addrs key value l c w = (w', leader, client, Some r) \<Longrightarrow> put_ends net key value w' leader r"
  by (auto simp: putAttempt_def intro: putOnce_ends split: prod.splits option.splits if_splits bool.splits)

lemma putLoop_ends:
  "putLoop net addrs key value k l c w = (w', leader, client, r)
     \<Longrightarrow> r = Inl PutFailedAfterRetries \<or> put_ends net key value w' leader r"
proof (induction k arbitrary: l c w)
  case (Suc k)
  then show ?case using putAttempt_ends [of net addrs key "value" l c w]
    by (auto split: prod.splits option.splits)
qed simp

text \<open>
  C38: the benchmark's writer sends a Put at most twelve times. It reports success only when the last call
  was acknowledged by the server whose address it returns, and a rejection only when a server answered with
  an error that does not say that it is not the leader.
\<close>

theorem put_retry_sound:
  assumes "key \<noteq> ''__bench_leader_probe__''"
    and "putWithRetryPersistent (counted key net) addrs key value leader client (w, 0) = ((w', n), leader', client', r)"
  shows "n \<le> 12 \<and> (r = Inl PutFailedAfterRetries \<or>
     (\<exists>s resp. net_call (counted key net) leader' (CallPut key value) s = ((w', n), Some resp) \<and>
        (case r of
           Inr addr \<Rightarrow> addr = leader' \<and> Success resp
         | Inl e \<Rightarrow> e = PutRejected leader' (resp_Error resp) \<and> \<not> Success resp \<and> \<not> isNotLeader (resp_Error resp))))"
  using putLoop_count [OF assms(1), of net addrs "value" "12" leader client "(w, 0)"]
    putLoop_ends [of "counted key net" addrs key "value" "12" leader client "(w, 0)"] assms(2)
  by (auto simp: putWithRetryPersistent_def put_ends_def)

text \<open>Node \<open>a\<close> is not the leader any more, node \<open>b\<close> acknowledges.\<close>

definition demo_net :: "nat net" where
  "demo_net =
     \<lparr>net_dial = (\<lambda>a w. (w, True)),
      net_call = (\<lambda>a q w. (Suc w, Some (if a = ''b''
                    then \<lparr>Success = True, resp_Value = [], resp_Error = [], resp_Leader = []\<rparr>
                    else \<lparr>Success = False, resp_Value = [], resp_Error = ''not leader'', resp_Leader = []\<rparr>))),
      net_rounds = (\<lambda>t w. 1), net_nanos = (\<lambda>w. ''7'')\<rparr>"

theorem put_retry_sound_witness:
  "putWithRetryPersistent (counted ''k'' demo_net) [''a'', ''b''] ''k'' ''v'' ''a'' None (0, 0) = ((4, 2), ''b'', Some ''b'', Inr ''b'')
   \<and> (2 :: nat) \<le> 12 \<and> (\<exists>s resp. net_call (counted ''k'' demo_net) ''b'' (CallPut ''k'' ''v'') s = ((4, 2), Some resp) \<and> Success resp)"
proof -
  have r: "putWithRetryPersistent (counted ''k'' demo_net) [''a'', ''b''] ''k'' ''v'' ''a'' None (0, 0)
      = ((4, 2), ''b'', Some ''b'', Inr ''b'')" by code_simp
  have k: "''k'' \<noteq> ''__bench_leader_probe__''" by simp
  show ?thesis using r put_retry_sound [OF k r] by auto
qed

section \<open>Addresses on the command line\<close>

lemma Split_no_sep: "sep \<notin> set s \<Longrightarrow> Split sep s = [s]"
  by (induction s) auto

lemma Split_append: "sep \<notin> set s \<Longrightarrow> Split sep (s @ sep # t) = s # Split sep t"
  by (induction s) auto

lemma Split_Join: "ss \<noteq> [] \<Longrightarrow> \<forall>s \<in> set ss. sep \<notin> set s \<Longrightarrow> Split sep (Join [sep] ss) = ss"
  by (induction "[sep]" ss rule: Join.induct) (simp_all add: Split_no_sep Split_append)

lemma comma_notin_Itoa: "CHR '','' \<notin> set (Itoa i)"
proof
  assume "CHR '','' \<in> set (Itoa i)"
  then have "CHR '','' \<in> set (decimal (nat (- i))) \<or> CHR '','' \<in> set (decimal (nat i))" by (simp add: Itoa_def split: if_splits)
  then obtain d where "d < 10" "CHR '','' = digit_char d" using decimal_digits by fastforce
  then have "digit_val (CHR '','') = Some d" by (simp add: digit_val_digit_char)
  then show False by (simp add: digit_val_def)
qed

lemma Join_eq_Nil: "Join sep ss = [] \<Longrightarrow> ss = [] \<or> [] \<in> set ss"
  by (induction sep ss rule: Join.induct) auto

text \<open>A server started by the benchmark gets the Raft addresses of all nodes, in order.\<close>

lemma nodeFlags_peers: "Peers (flagConfig (nodeFlags raftPorts clientPorts i)) = localAddresses raftPorts"
proof (cases "raftPorts = []")
  case True
  then show ?thesis by (simp add: flagConfig_def nodeFlags_def localAddresses_def)
next
  case False
  let ?as = "localAddresses raftPorts"
  have "?as \<noteq> []" "[] \<notin> set ?as" "\<forall>s \<in> set ?as. CHR '','' \<notin> set s"
    using False comma_notin_Itoa by (auto simp: localAddresses_def)
  then show ?thesis using Split_Join [of ?as "CHR '',''"] Join_eq_Nil [of "'',''" ?as]
    by (auto simp: flagConfig_def nodeFlags_def)
qed

text \<open>
  It gets no client addresses and derives them from its own two ports. As \<open>Start\<close> reserves the client ports
  independently of the Raft ports, a derived address need not be the one the other node listens on.
\<close>

lemma bench_hint_elsewhere:
  "map_sum (\<lambda>e. e) ClientPeers (normalizeConfig (flagConfig (nodeFlags [71, 72, 73] [81, 87, 83] 0)))
     = Inr [''127.0.0.1:81'', ''127.0.0.1:82'', ''127.0.0.1:83'']"
  by code_simp

section \<open>What is typed and what is shown\<close>

lemma Fields_skip: "\<forall>c \<in> set sp. is_space c \<Longrightarrow> Fields (sp @ s) = Fields s"
  by (subst (1 2) Fields.simps) (simp add: dropWhile_append2)

lemma Fields_word:
  assumes "f \<noteq> []" "\<forall>c \<in> set f. \<not> is_space c" "s = [] \<or> is_space (hd s)"
  shows "Fields (f @ s) = f # Fields s"
proof -
  have "dropWhile is_space (f @ s) = f @ s" using assms by (cases f) auto
  moreover have "takeWhile (\<lambda>c. \<not> is_space c) (f @ s) = f" "dropWhile (\<lambda>c. \<not> is_space c) (f @ s) = s"
    using assms by (cases s; auto simp: takeWhile_append2 dropWhile_append2)+
  ultimately show ?thesis using assms(1) by (subst Fields.simps) (simp add: Let_def)
qed

lemma Fields_Nil: "Fields [] = []"
  by (simp add: Fields.simps)

lemma Fields_Join:
  assumes "\<forall>f \<in> set fs. f \<noteq> [] \<and> (\<forall>c \<in> set f. \<not> is_space c)"
  shows "Fields (Join '' '' fs) = fs"
  using assms
proof (induction "'' ''" fs rule: Join.induct)
  case 1
  then show ?case by (simp add: Fields_Nil)
next
  case (2 s)
  then show ?case using Fields_word [of s "[]"] by (simp add: Fields_Nil)
next
  case (3 s t ss)
  have sp: "is_space CHR '' ''" by (simp add: is_space_def)
  have "Fields (s @ '' '' @ Join '' '' (t # ss)) = s # Fields ('' '' @ Join '' '' (t # ss))"
    using 3(2) sp by (intro Fields_word) auto
  also have "Fields ('' '' @ Join '' '' (t # ss)) = Fields (Join '' '' (t # ss))"
    using sp by (intro Fields_skip) auto
  finally show ?case using 3 by simp
qed

text \<open>A command typed with its arguments reaches the server as the call it names.\<close>

lemma clientLine_put:
  assumes "\<forall>f \<in> {k, v}. f \<noteq> [] \<and> (\<forall>c \<in> set f. \<not> is_space c)"
  shows "clientLine client (Join '' '' [''put'', k, v]) w
    = (case client (CallPut k v) w of (w, r) \<Rightarrow> (w, printResponse (\<lambda>_. PrintOK) (map_option clientResponse r)))"
proof -
  have "Fields (Join '' '' [''put'', k, v]) = [''put'', k, v]" using assms by (intro Fields_Join) (auto simp: is_space_def)
  then show ?thesis by (simp add: clientLine_def InvokeKV_def OpGet_def OpPut_def split: prod.splits)
qed

lemma clientLine_get:
  assumes "k \<noteq> []" "\<forall>c \<in> set k. \<not> is_space c"
  shows "clientLine client (Join '' '' [''get'', k]) w
    = (case client (CallGet k) w of (w, r) \<Rightarrow> (w, printResponse PrintValue (map_option clientResponse r)))"
proof -
  have "Fields (Join '' '' [''get'', k]) = [''get'', k]" using assms by (intro Fields_Join) (auto simp: is_space_def)
  then show ?thesis by (simp add: clientLine_def InvokeKV_def OpGet_def split: prod.splits)
qed

lemma clientLine_delete:
  assumes "k \<noteq> []" "\<forall>c \<in> set k. \<not> is_space c"
  shows "clientLine client (Join '' '' [''delete'', k]) w
    = (case client (CallDelete k) w of (w, r) \<Rightarrow> (w, printResponse (\<lambda>_. PrintOK) (map_option clientResponse r)))"
proof -
  have "Fields (Join '' '' [''delete'', k]) = [''delete'', k]" using assms by (intro Fields_Join) (auto simp: is_space_def)
  then show ?thesis by (simp add: clientLine_def InvokeKV_def OpGet_def OpPut_def OpDelete_def split: prod.splits)
qed

text \<open>The answer of a server that is not the leader is shown with the address it knows.\<close>

lemma printResponse_not_leader:
  assumes "errText ErrNotLeader = ''not leader''" "leaderAddress node s \<noteq> []"
  shows "printResponse ok (Some (clientResponse (errorResponse errText node s ErrNotLeader)))
    = ([PrintError ''not leader'', LeaderHint (leaderAddress node s)], True)"
  using assms by (simp add: printResponse_def clientResponse_def errorResponse_def printLeaderHint_def Let_def)

end
