(* ===== verification/Spec2Isabelle.thy ===== *)
theory Spec2Isabelle
  imports OpenModes StoreFaults StoreReads RaftFaults RaftProgress Wire ServiceSafety ClientProps
begin

text \<open>
  Verification of kvraft: a replicated key-value store made of a Raft consensus layer (\<open>src/raft\<close>), a
  Bitcask-style storage engine (\<open>src/kvstore\<close>) and a server that joins them (\<open>src/server\<close>), with a command
  line client, a server program and a benchmark around them (\<open>src/common\<close>, \<open>src/cmd\<close>, \<open>src/internal\<close>).

  \<^bold>\<open>The program.\<close> A client calls \<open>Get\<close>, \<open>Put\<close> or \<open>Delete\<close> on a server. The server submits a command to its
  Raft node (for a \<open>Get\<close> a read barrier), which accepts it only as leader and returns the index and term
  of the new log entry. The nodes replicate the log; each hands committed entries to the apply loop of its
  server in order. The loop runs the command on the server's storage engine and wakes the call that waits
  for this index and term; a \<open>Get\<close> then reads the engine. The engine appends records to data files, keeps
  an index of the newest record of each key in memory, and rebuilds it from the files when it is opened.

  \<^bold>\<open>Conventions.\<close> A Go \<open>int\<close> is an \<open>int\<close>, with \<open>is_int64\<close> and \<open>int64\<close> where its width matters; \<open>uint32\<close>,
  \<open>uint64\<close> and the \<open>int32\<close> fields of the wire format are words. Strings are lists of bytes. An error is a
  value: a sum, or an option where the code returns only an error. Functions of Go's standard library are
  defined from their documentation; gRPC and the operating system's choice of failures are parameters.
  Reading from an open file, \<open>Seek\<close> and the removal of files do not fail in the model.

  \<^bold>\<open>Storage engine.\<close>
  \<^item> Prelude, Bytes: names of types, error values, little-endian integers, \<open>io.ReadFull\<close>, CRC-32.
  \<^item> Codec (\<open>codec.go\<close>): the two record formats. The locale \<open>record_codec\<close> states what a stream of records
    needs of its codec; it is interpreted for data and hint records.
  \<^item> Filesystem: the directory as an association list and the system calls; an \<open>os_env\<close> says which fail.
  \<^item> Paths (\<open>paths.go\<close>), Store (\<open>store.go\<close>, \<open>write.go\<close>, \<open>read.go\<close>), Recovery (\<open>open.go\<close>), Merge (\<open>merge.go\<close>):
    one definition for each function; a loop that the code has inline is a definition of its own.
    A \<open>world\<close> is a \<open>DB\<close> and its directory.
  \<^item> StoreInv: the invariant \<open>db_inv\<close>, kept by every write, and \<open>contents\<close>, the map that \<open>Get\<close> shows.
  \<^item> Replay, Layout, OpenLayout: a directory written by the engine as a list of files with their records
    (\<open>describes\<close>); opening replays them, with or without hint files, and cuts a torn tail.
  \<^item> LogStore, Durability: the locale \<open>kv_store\<close> is the contract of a map; the engine is an instance. Any
    sequence of sessions behaves as one run of a finite map (\<open>sessions_refine_map\<close>); torn and damaged
    records are cut off or reported.
  \<^item> OpenModes, StoreReads, StoreFaults: read-only handles, the writer lock, hint files, \<open>Fold\<close>; and what
    goes wrong after failed writes (the bytes left over shift what the next \<open>Put\<close> wrote) and rotations, a
    clock set back, and a tear at a field boundary.
  \<^item> MergeInv, MergeLayout, MergeSafety: a merge keeps every value, also across a restart; the delete
    of a key whose record the merge moved is undone by the next open, unless the active file was full.

  \<^bold>\<open>Consensus.\<close>
  \<^item> RaftRpc (\<open>rpc.go\<close>): messages and wire conversions. Wire: the way of a message through \<open>GRPCClient\<close> and
    \<open>GRPCRaftService\<close> is the delivery of the message itself while its numbers fit in 32 bits.
  \<^item> RaftNode (\<open>node.go\<close>): every section that holds \<open>n.mu\<close> as a function on \<open>Node\<close>; \<open>None\<close> is a panic.
  \<^item> RaftCluster: the goroutines of all nodes and the network as events (\<open>exec\<close>), and \<open>reachable\<close>. Messages
    may be lost, delayed and reordered, timers may expire at any time.
  \<^item> RaftHistory, RaftInv, RaftSteps, RaftLeaderSteps, RaftElectionSteps, RaftElect, RaftLogSteps: history
    variables of a run, the invariant \<open>inv\<close> over them, and a lemma for each event that it is kept.
  \<^item> RaftSafety: Election Safety, Log Matching, Leader Completeness, State Machine Safety, Leader
    Append-Only, durability of committed entries, that no step panics, and that a leader was
    voted for by every other node in its run (\<open>voted\<close>).
  \<^item> RaftProgress: the loop of \<open>replicationWorker\<close> ends and brings the follower up to date; it never ends
    when a follower that had acknowledged everything restarts empty.
  \<^item> RaftFaults: runs outside the bounds of the theorems: two leaders in a term with five nodes, and no
    leader with one, whose candidate waits for a reply that nobody sends.

  \<^bold>\<open>Server.\<close>
  \<^item> ServerConfig, Server (\<open>server.go\<close>): the configuration, the sections of \<open>submitAndWait\<close>, of the apply loop
    and of \<open>Close\<close>, the gRPC handlers and \<open>GRPCClient\<close>. ServerInv, ServerProps: no send on a channel
    blocks, the bounded bookkeeping of outcomes refines an unbounded one (\<open>outcomes\<close>), derived addresses and
    redirects are right.
  \<^item> Service: servers, calls and the cluster as one system (\<open>svc_exec\<close>, \<open>served\<close>). ServiceKeys, ServiceInv,
    ServiceSteps: its invariant, on top of the one of the cluster and the contract of the engine.
  \<^item> ServiceSafety: one sequence of commands explains every answer and respects real time; replicas that
    have applied equally many commands hold the same contents; no goroutine blocks, no wakeup is lost.

  \<^bold>\<open>Clients.\<close> Client (\<open>common\<close>, \<open>cmd/kv-client\<close>, \<open>cmd/kv-server\<close>, \<open>cmd/kv-bench\<close>, \<open>internal/bench/cluster\<close>):
  \<open>InvokeKV\<close>, \<open>ConfigureLogger\<close>, the line interpreter, the way from flags to a server, and the writer with
  retries. ClientProps: the writer sends at most twelve Puts and reports success only after an
  acknowledgement; addresses on the command line and typed commands arrive as they were given.

  \<^bold>\<open>Bounds and assumptions.\<close>
  \<^item> The safety theorems of Raft and the service are for at most three nodes. \<open>becomeFollowerLocked\<close> forgets
    the vote of the current term, and only the off-by-one of \<open>votesNeeded\<close>, by which all of three nodes must
    vote, makes elections safe; with five nodes they are not (\<open>split_brain\<close>).
  \<^item> The theorems on the engine's contents assume no failing system call, a clock that does not run
    backwards, keys and values that fit the 32-bit length fields and file ids left below \<open>2 ^ 64\<close>; StoreFaults
    shows what failures do. \<open>served\<close> assumes the same of each command a server applies (\<open>allowed\<close>), and
    that the servers start on empty directories.
  \<^item> \<open>replicationWorker\<close> has fuel, one unit for a turn; \<open>nextIndex\<close> units are enough since each rejection lowers
    \<open>nextIndex\<close> and a request from the first entry is accepted. The polling loops of the benchmark run as
    often as the clock lets them, a parameter (\<open>net_rounds\<close>); its writer makes twelve attempts. All other
    loops are total functions.
  \<^item> Text functions (\<open>TrimSpace\<close>, \<open>Fields\<close>, \<open>ToLower\<close>) are those for ASCII.

  \<^bold>\<open>Not modelled.\<close>
  \<^item> A restart of a Raft node: its term, vote and log are kept in memory only, so a restarted process is a
    node that breaks its promises, and no safety property could include it; only \<open>restarted_follower_spins\<close>
    looks at a state with a restarted node. A node that stopped takes no more steps. \<open>Shutdown\<close> sets
    its flag; goroutines that end are goroutines that take no more steps.
  \<^item> Lengths of timeouts: \<open>resetElectionTimer\<close>, heartbeat intervals and deadlines of RPCs only decide when an
    event happens, and the model allows it at any time.
  \<^item> Operations of other goroutines on an engine between the two locked sections of a merge, and the
    capacity of \<open>applyCh\<close>: \<open>Merge\<close> is one step in the theorems, and the channel is unbounded.
  \<^item> Listeners and the gRPC servers (\<open>Start\<close>, \<open>Serve\<close>), parsing of flags, signals, printing of banners and
    logs, child processes and free ports: calls to the operating system and to libraries.
  \<^item> \<open>cmd/kv-test\<close> and \<open>internal/bench/storage\<close> run scripts of operations that are modelled and time them;
    \<open>internal/bench/report\<close>, \<open>internal/bench/compare\<close> and the statistics of \<open>cmd/kv-bench\<close> compute with
    floating-point numbers and JSON. The code under \<open>src/proto\<close> is generated.
\<close>

section \<open>Records on disk\<close>

text \<open>
  C22: an encoded data record followed by any bytes decodes to exactly the timestamp, key and value that
  were encoded, reports its own length and leaves the following bytes to the next read.
\<close>

theorem data_record_roundtrip:
  assumes "encodable ts k v"
  shows "decodeDataRecord (encodeDataRecord ts k v @ rest)
           = Inr (\<lparr>dr_timestamp = ts, dr_key = k, dr_value = v\<rparr>, 20 + length k + length v, rest)"
  using assms by (rule decode_encodeDataRecord)

theorem data_record_roundtrip_witness:
  "encodable 7 ''k'' [1, 2] \<and>
   decodeDataRecord (encodeDataRecord 7 ''k'' [1, 2] @ [9])
     = Inr (\<lparr>dr_timestamp = 7, dr_key = ''k'', dr_value = [1, 2]\<rparr>, 23, [9])"
proof -
  have h: "encodable 7 ''k'' [1, 2]" by (simp add: encodable_def is_int64_def)
  show ?thesis using h data_record_roundtrip [OF h, of "[9]"] by simp
qed

end
